(* ===== verification/Prelude.thy ===== *)
theory Prelude
  imports Main "HOL-Library.Word"
begin

text \<open>
  Shared vocabulary of the development: the C integer types at their widths, the outcome type of
  code that may call \<^verbatim>\<open>error()\<close> or step outside an array, byte order, bounded writes into a
  byte array, and the interface of a strided memory layout on which the packet sorter, the
  converter and the block writer rely.
\<close>

unbundle bit_operations_syntax

section \<open>Integer types and proof collections\<close>

type_synonym u8 = "8 word"
type_synonym u16 = "16 word"
type_synonym u32 = "32 word"
type_synonym u64 = "64 word"

named_theorems cconst \<open>the preprocessor constants of the sources\<close>
named_theorems cres_simps \<open>rewriting of computations that may fail\<close>

section \<open>Outcomes of C code\<close>

text \<open>
  \<open>Fatal m\<close> is the call \<^verbatim>\<open>error(m)\<close> of common.c, which ends the process; \<open>Overrun\<close> is an
  access outside the object a pointer points into; \<open>Blocked\<close> is a thread that is still inside a
  wait loop when the given schedule of moves of the other threads is over; \<open>DivZero\<close> is an integer
  division by zero; \<open>NoBlock\<close> is the use of a pointer to a block of a ring that is null or past its
  last block.
\<close>

datatype cerr = Fatal string | Overrun | Blocked | DivZero | NoBlock

type_synonym 'a cres = "cerr + 'a"

definition cbind :: "'a cres \<Rightarrow> ('a \<Rightarrow> 'b cres) \<Rightarrow> 'b cres" where
  "cbind m f = (case m of Inl e \<Rightarrow> Inl e | Inr x \<Rightarrow> f x)"

lemma cbind_Inl [simp, cres_simps]: "cbind (Inl e) f = Inl e"
  by (simp add: cbind_def)

lemma cbind_Inr [simp, cres_simps]: "cbind (Inr x) f = f x"
  by (simp add: cbind_def)

lemma cbind_eq_Inr_iff [cres_simps]: "cbind m f = Inr y \<longleftrightarrow> (\<exists>x. m = Inr x \<and> f x = Inr y)"
  by (cases m) auto

lemma cbind_assoc: "cbind (cbind m f) g = cbind m (\<lambda>x. cbind (f x) g)"
  by (cases m) auto

text \<open>A computation that ends with a result in \<open>Q\<close>, or is still waiting, but never fails.\<close>

definition waits_or :: "('a \<Rightarrow> bool) \<Rightarrow> 'a cres \<Rightarrow> bool" where
  "waits_or Q m \<longleftrightarrow> m = Inl Blocked \<or> (\<exists>x. m = Inr x \<and> Q x)"

lemma waits_or_Blocked [simp]: "waits_or Q (Inl Blocked)"
  by (simp add: waits_or_def)

lemma waits_or_Inr [simp]: "waits_or Q (Inr x) \<longleftrightarrow> Q x"
  by (simp add: waits_or_def)

lemma waits_or_bind:
  assumes "waits_or Q m" "\<And>x. m = Inr x \<Longrightarrow> Q x \<Longrightarrow> waits_or R (f x)"
  shows "waits_or R (cbind m f)"
  using assms by (cases m) (auto simp: waits_or_def)

lemma waits_or_mono: "waits_or Q m \<Longrightarrow> (\<And>x. Q x \<Longrightarrow> R x) \<Longrightarrow> waits_or R m"
  by (auto simp: waits_or_def)

lemma waits_or_cases:
  assumes "waits_or Q m"
  obtains (waits) "m = Inl Blocked" | (returns) x where "m = Inr x" "Q x"
  using assms by (auto simp: waits_or_def)

section \<open>Byte order\<close>

definition byte_of :: "'a::len word \<Rightarrow> nat \<Rightarrow> u8" where
  "byte_of w k = ucast (drop_bit (8 * k) w)"

definition le_bytes :: "nat \<Rightarrow> 'a::len word \<Rightarrow> u8 list" where
  "le_bytes n w = map (byte_of w) [0..<n]"

primrec le_word :: "u8 list \<Rightarrow> 'a::len word" where
  "le_word [] = 0"
| "le_word (b # bs) = ucast b OR push_bit 8 (le_word bs)"

text \<open>The value of eight bytes in network order, and the byte swap of a register.\<close>

definition be_word :: "u8 list \<Rightarrow> 'a::len word" where
  "be_word bs = le_word (rev bs)"

definition bswap64 :: "u64 \<Rightarrow> u64" where
  "bswap64 w = le_word (rev (le_bytes 8 w))"

lemma length_le_bytes [simp]: "length (le_bytes n w) = n"
  by (simp add: le_bytes_def)

lemma bit_byte_of: "bit (byte_of w k) m \<longleftrightarrow> m < 8 \<and> bit w (8 * k + m)"
  by (auto simp: byte_of_def bit_simps ac_simps)

lemma bit_le_word:
  "bit (le_word bs :: 'a::len word) n \<longleftrightarrow>
     n < LENGTH('a) \<and> n div 8 < length bs \<and> bit (bs ! (n div 8)) (n mod 8)"
proof (induction bs arbitrary: n)
  case Nil
  then show ?case by simp
next
  case (Cons b bs)
  show ?case
  proof (cases "n < 8")
    case True
    then show ?thesis by (auto simp: bit_simps)
  next
    case False
    then have d: "n div 8 = Suc ((n - 8) div 8)" and m: "n mod 8 = (n - 8) mod 8"
      by (auto simp: le_div_geq le_mod_geq)
    then have "\<not> bit b n" by (simp add: impossible_bit)
    then show ?thesis
      using False Cons.IH [of "n - 8"] by (auto simp: bit_simps d m)
  qed
qed

lemma le_word_le_bytes [simp]:
  assumes "LENGTH('a) \<le> 8 * n"
  shows "le_word (le_bytes n w) = (w :: 'a::len word)"
proof (rule bit_word_eqI)
  fix k assume k: "k < LENGTH('a)"
  then have "k div 8 < n" using assms by (simp add: less_mult_imp_div_less mult.commute)
  then show "bit (le_word (le_bytes n w) :: 'a word) k = bit w k"
    using k by (simp add: bit_le_word le_bytes_def bit_byte_of)
qed

lemma le_bytes_le_word [simp]:
  assumes "length bs = n" "8 * n \<le> LENGTH('a)"
  shows "le_bytes n (le_word bs :: 'a::len word) = bs"
proof (rule nth_equalityI)
  show "length (le_bytes n (le_word bs :: 'a word)) = length bs" using assms by simp
next
  fix i assume "i < length (le_bytes n (le_word bs :: 'a word))"
  then have i: "i < n" by simp
  show "le_bytes n (le_word bs :: 'a word) ! i = bs ! i"
  proof (rule bit_word_eqI)
    fix m assume "m < LENGTH(8)"
    then have m: "m < 8" by simp
    have lt: "8 * i + m < LENGTH('a)" using m i assms(2) by linarith
    have d: "(8 * i + m) div 8 = i" and r: "(8 * i + m) mod 8 = m" using m by simp_all
    show "bit (le_bytes n (le_word bs :: 'a word) ! i) m = bit (bs ! i) m"
      using i m lt d r assms(1) by (simp add: le_bytes_def bit_byte_of bit_le_word)
  qed
qed

lemma bswap64_involutive [simp]: "bswap64 (bswap64 w) = w"
  by (simp add: bswap64_def)

lemma bswap64_le_word: "length bs = 8 \<Longrightarrow> bswap64 (le_word bs) = be_word bs"
  by (simp add: bswap64_def be_word_def)

section \<open>Words as numbers\<close>

lemma unat_take_bit_mod: "unat (take_bit n w) = unat w mod 2 ^ n"
  unfolding unsigned_take_bit_eq by (simp add: take_bit_eq_mod)

lemma unat_drop_bit_div: "unat (drop_bit n w) = unat w div 2 ^ n"
  unfolding unat_drop_bit_eq by (simp add: drop_bit_eq_div)

lemma unat_less_exp:
  fixes w :: "'a::len word"
  shows "unat w < 2 ^ LENGTH('a)"
  by (rule unsigned_less)

lemma take_bit_small:
  fixes w :: "'a::len word"
  assumes "unat w < 2 ^ n"
  shows "take_bit n w = w"
  using assms by (simp add: word_unat_eq_iff unat_take_bit_mod)

lemma bit_small:
  fixes w :: "'a::len word"
  assumes "unat w < 2 ^ n" "bit w m"
  shows "m < n"
  using assms(2) take_bit_small [OF assms(1)] bit_take_bit_iff [of n w m] by simp

lemma unat_mult_small:
  fixes a b :: "'a::len word"
  assumes "unat a * unat b < 2 ^ LENGTH('a)"
  shows "unat (a * b) = unat a * unat b"
  using assms by (simp add: unat_word_ariths)

lemma unat_add_small:
  fixes a b :: "'a::len word"
  assumes "unat a + unat b < 2 ^ LENGTH('a)"
  shows "unat (a + b) = unat a + unat b"
  using assms by (simp add: unat_word_ariths)

lemma sint_cases:
  fixes w :: "'a::len word"
  shows "sint w = (if uint w < 2 ^ (LENGTH('a) - 1) then uint w else uint w - 2 ^ LENGTH('a))"
proof -
  obtain n where n: "LENGTH('a) = Suc n" using len_gt_0 [where 'a='a] gr0_implies_Suc by blast
  have lt: "uint w < 2 ^ Suc n" using unsigned_less [of w, where ?'a=int] n by simp
  have b: "bit (uint w) n \<longleftrightarrow> \<not> uint w < 2 ^ n"
  proof (cases "uint w < 2 ^ n")
    case True
    then show ?thesis by (simp add: bit_iff_odd div_pos_pos_trivial)
  next
    case False
    then have "uint w div 2 ^ n = 1" using lt by (intro int_div_pos_eq [where r = "uint w - 2 ^ n"]) auto
    with False show ?thesis by (simp add: bit_iff_odd)
  qed
  have "sint w = take_bit (Suc n) (uint w) - 2 ^ Suc n * of_bool (bit (uint w) n)"
    by (simp add: sint_uint n signed_take_bit_eq_take_bit_minus)
  also have "take_bit (Suc n) (uint w) = uint w" using lt by (simp add: take_bit_int_eq_self)
  finally show ?thesis using b n by simp
qed

lemma take_bit_add_left:
  fixes x y :: "'a::len word"
  assumes "n \<le> LENGTH('a)"
  shows "take_bit n (take_bit n x + y) = take_bit n (x + y)"
proof -
  have "(2 :: nat) ^ n dvd 2 ^ LENGTH('a)" using assms by (rule le_imp_power_dvd)
  then show ?thesis
    by (simp add: word_unat_eq_iff unat_take_bit_mod unat_word_ariths mod_mod_cancel mod_add_left_eq)
qed

lemma unat_ucast_small:
  fixes w :: "'a::len word"
  assumes "unat w < 2 ^ LENGTH('b)"
  shows "unat (ucast w :: 'b::len word) = unat w"
  using assms by (simp add: unsigned_ucast_eq take_bit_nat_eq_self)

lemma unat_of_nat_small:
  assumes "n < 2 ^ LENGTH('a)"
  shows "unat (of_nat n :: 'a::len word) = n"
  using assms by (simp add: unat_of_nat)

lemma unat_word_of_int:
  assumes "n < 2 ^ LENGTH('a)"
  shows "unat (word_of_int (int n) :: 'a::len word) = n"
  using assms by (simp add: unat_of_nat)

lemma mod_add_cancel_small:
  fixes x y s m :: nat
  assumes "(s + x) mod m = (s + y) mod m" "x < m" "y < m"
  shows "x = y"
proof -
  have aux: "a = b" if "(s + a) mod m = (s + b) mod m" "a \<le> b" "b < m" for a b
  proof -
    have "m dvd (s + b) - (s + a)" using that(1,2) mod_eq_dvd_iff_nat [of "s + a" "s + b" m] by simp
    moreover have "(s + b) - (s + a) = b - a" "b - a < m" using that by simp_all
    ultimately have "b - a = 0" by (metis dvd_imp_le not_le zero_less_iff_neq_zero)
    then show ?thesis using that(2) by simp
  qed
  show ?thesis using aux [of x y] aux [of y x] assms by (cases "x \<le> y") auto
qed

section \<open>Row-major indices\<close>

lemma row_major_less:
  assumes "i < m" "j < (n::nat)"
  shows "i * n + j < m * n"
proof -
  have "i * n + j < Suc i * n" using assms(2) by simp
  also have "\<dots> \<le> m * n" using assms(1) by (intro mult_le_mono1) simp
  finally show ?thesis .
qed

lemma row_major_inject:
  assumes "j < (n::nat)" "j' < n" "i * n + j = i' * n + j'"
  shows "i = i' \<and> j = j'"
proof -
  have "(i * n + j) div n = i" "(i' * n + j') div n = i'" "(i * n + j) mod n = j" "(i' * n + j') mod n = j'"
    using assms(1,2) by simp_all
  with assms(3) show ?thesis by metis
qed

lemma stride_separate:
  assumes "i \<noteq> (j::nat)"
  shows "i * w + w \<le> j * w \<or> j * w + w \<le> i * w"
proof -
  have "Suc i * w \<le> j * w \<or> Suc j * w \<le> i * w" using assms by (metis Suc_leI linorder_neqE_nat mult_le_mono1)
  then show ?thesis by (simp add: add.commute)
qed

section \<open>Bounded writes into a byte array\<close>

text \<open>
  \<open>blit off src dst\<close> is \<^verbatim>\<open>memcpy(dst + off, src, length src)\<close>, or \<open>Overrun\<close> when the
  destination range leaves the object.
\<close>

definition blit :: "nat \<Rightarrow> 'a list \<Rightarrow> 'a list \<Rightarrow> 'a list cres" where
  "blit off src dst =
     (if off + length src \<le> length dst
      then Inr (take off dst @ src @ drop (off + length src) dst) else Inl Overrun)"

text \<open>Reading \<open>n\<close> bytes at \<open>off\<close>.\<close>

definition peek :: "nat \<Rightarrow> nat \<Rightarrow> 'a list \<Rightarrow> 'a list" where
  "peek off n xs = take n (drop off xs)"

lemma blit_ok_iff: "(\<exists>r. blit off src dst = Inr r) \<longleftrightarrow> off + length src \<le> length dst"
  by (simp add: blit_def)

lemma blit_InrD:
  assumes "blit off src dst = Inr r"
  shows "off + length src \<le> length dst" "length r = length dst"
  using assms by (auto simp: blit_def split: if_splits)

lemma nth_blit:
  assumes "blit off src dst = Inr r" "i < length dst"
  shows "r ! i = (if off \<le> i \<and> i < off + length src then src ! (i - off) else dst ! i)"
  using assms by (auto simp: blit_def nth_append min_def split: if_splits)

lemma length_peek: "off + n \<le> length xs \<Longrightarrow> length (peek off n xs) = n"
  by (simp add: peek_def)

lemma nth_peek: "off + n \<le> length xs \<Longrightarrow> i < n \<Longrightarrow> peek off n xs ! i = xs ! (off + i)"
  by (simp add: peek_def)

lemma peek_blit_same:
  assumes "blit off src dst = Inr r"
  shows "peek off (length src) r = src"
  using assms by (auto simp: blit_def peek_def split: if_splits)

lemma peek_blit_other:
  assumes "blit off src dst = Inr r" "off' + n \<le> length dst"
    "off' + n \<le> off \<or> off + length src \<le> off'"
  shows "peek off' n r = peek off' n dst"
proof (rule nth_equalityI)
  from blit_InrD [OF assms(1)] assms(2)
  show "length (peek off' n r) = length (peek off' n dst)" by (simp add: length_peek)
next
  fix i assume "i < length (peek off' n r)"
  then have i: "i < n" using assms(2) blit_InrD [OF assms(1)] by (simp add: length_peek)
  then show "peek off' n r ! i = peek off' n dst ! i"
    using assms blit_InrD [OF assms(1)] by (auto simp: nth_peek nth_blit)
qed

lemma take_blit_append:
  assumes "blit n src dst = Inr r"
  shows "take (n + length src) r = take n dst @ src"
  using assms by (auto simp: blit_def split: if_splits)

text \<open>\<open>memset(dst, 0, n)\<close>.\<close>

definition zero_prefix :: "nat \<Rightarrow> u8 list \<Rightarrow> u8 list cres" where
  "zero_prefix n dst = blit 0 (replicate n 0) dst"

section \<open>Linear search and counting\<close>

text \<open>The first index from \<open>i\<close> below \<open>n\<close> that satisfies \<open>P\<close>, or -1: the shape of the search loops.\<close>

function find_from :: "(nat \<Rightarrow> bool) \<Rightarrow> nat \<Rightarrow> nat \<Rightarrow> int" where
  "find_from P n i = (if i < n then (if P i then int i else find_from P n (Suc i)) else -1)"
  by pat_completeness auto
termination
  by (relation "measure (\<lambda>(P, n, i). n - i)") auto

declare find_from.simps [simp del]

lemma find_from_range:
  "(find_from P n i = -1 \<and> (\<forall>k. i \<le> k \<and> k < n \<longrightarrow> \<not> P k)) \<or>
   (\<exists>k. find_from P n i = int k \<and> i \<le> k \<and> k < n \<and> P k \<and> (\<forall>j. i \<le> j \<and> j < k \<longrightarrow> \<not> P j))"
proof (induction P n i rule: find_from.induct)
  case (1 P n i)
  show ?case
  proof (cases "i < n \<and> \<not> P i")
    case True
    then have eq: "find_from P n i = find_from P n (Suc i)" by (simp add: find_from.simps [of P n i])
    have le: "Suc i \<le> k \<longleftrightarrow> i \<le> k" if "P k" for k
      using True that by (metis Suc_leI Suc_leD le_neq_implies_less)
    have lo: "\<not> P j" if "i \<le> j" "Suc i \<le> j \<longrightarrow> \<not> P j" for j
      using that True by (metis Suc_leI le_neq_implies_less)
    from 1 True show ?thesis unfolding eq using le lo by (metis Suc_leD)
  next
    case False
    then show ?thesis by (auto simp: find_from.simps [of P n i])
  qed
qed

lemma find_fromE:
  obtains (none) "find_from P n 0 = -1" "\<And>k. k < n \<Longrightarrow> \<not> P k"
    | (some) k where "find_from P n 0 = int k" "k < n" "P k" "\<And>j. j < k \<Longrightarrow> \<not> P j"
  using find_from_range [of P n 0] by auto

lemma length_filter_update:
  "i < length xs \<Longrightarrow>
   length (filter P (xs[i := v])) + (if P (xs ! i) then 1 else 0) =
   length (filter P xs) + (if P v then 1 else 0)"
proof (induction xs arbitrary: i)
  case Nil
  then show ?case by simp
next
  case (Cons x xs)
  then show ?case by (cases i) auto
qed

section \<open>Printing numbers\<close>

text \<open>\<^verbatim>\<open>%u\<close>, which is \<^verbatim>\<open>%d\<close> of a number that is not negative, and \<^verbatim>\<open>%d\<close>.\<close>

function dec :: "nat \<Rightarrow> string" where
  "dec n = (if n < 10 then [char_of (48 + n)] else dec (n div 10) @ [char_of (48 + n mod 10)])"
  by pat_completeness auto
termination
  by (relation "measure id") auto

declare dec.simps [simp del]

definition dec_int :: "int \<Rightarrow> string" where
  "dec_int n = (if n < 0 then ''-'' @ dec (nat (- n)) else dec (nat n))"

section \<open>A strided layout\<close>

text \<open>
  A layout places fixed-width cells, indexed by a key, at pairwise disjoint ranges of an object of
  a given size. The sorter's time blocks, the converter's spectra and the GUPPI blocks are layouts.
\<close>

locale cell_layout =
  fixes valid :: "'k \<Rightarrow> bool"
    and offset :: "'k \<Rightarrow> nat"
    and width :: nat
    and total :: nat
  assumes in_range: "valid k \<Longrightarrow> offset k + width \<le> total"
    and separate: "valid k \<Longrightarrow> valid k' \<Longrightarrow> k \<noteq> k' \<Longrightarrow>
        offset k + width \<le> offset k' \<or> offset k' + width \<le> offset k"
begin

lemma write_succeeds:
  assumes "valid k" "length src = width" "total \<le> length dst"
  shows "\<exists>r. blit (offset k) src dst = Inr r"
  using in_range [OF assms(1)] assms(2,3) by (simp add: blit_ok_iff)

lemma read_written:
  assumes "blit (offset k) src dst = Inr r" "length src = width"
  shows "peek (offset k) width r = src"
  using peek_blit_same [OF assms(1)] assms(2) by simp

lemma read_other:
  assumes "blit (offset k) src dst = Inr r" "length src = width" "total \<le> length dst"
    "valid k" "valid k'" "k \<noteq> k'"
  shows "peek (offset k') width r = peek (offset k') width dst"
proof (rule peek_blit_other [OF assms(1)])
  show "offset k' + width \<le> length dst" using in_range [OF assms(5)] assms(3) by linarith
  show "offset k' + width \<le> offset k \<or> offset k + length src \<le> offset k'"
    using separate [OF assms(4,5,6)] assms(2) by auto
qed

lemma offset_injective: "valid k \<Longrightarrow> valid k' \<Longrightarrow> 0 < width \<Longrightarrow> offset k = offset k' \<Longrightarrow> k = k'"
  using separate [of k k'] by auto

end

end
