(* ===== verification/Data_Formats.thy ===== *)
theory Data_Formats
  imports Prelude
begin

text \<open>
  The model of full_custom/data_formats.h: the constants, the packet header accessors and the
  structures the recorder's threads share. A packet header is a big-endian 64-bit word; the README
  gives its fields as antenna (bits 0-5), channel (6-17), packet number (18-55) and version
  (56-63).
\<close>

section \<open>Constants\<close>

definition N_READS_DEFAULT :: nat where [cconst]: "N_READS_DEFAULT = 32 * 5"
definition N_UDP_BUFFERS :: nat where [cconst]: "N_UDP_BUFFERS = 10"
definition N_FILE_BUFFERS :: nat where [cconst]: "N_FILE_BUFFERS = 20"
definition N_FILE_BUFFERS_AT_A_TIME :: nat where [cconst]: "N_FILE_BUFFERS_AT_A_TIME = 6"
definition UDP_BUFFER_SIZE :: nat where [cconst]: "UDP_BUFFER_SIZE = 1000000000"
definition FILE_BUFFER_SIZE :: nat where [cconst]: "FILE_BUFFER_SIZE = 1000000000"
definition MAX_ORDER_MISSES :: nat where [cconst]: "MAX_ORDER_MISSES = 200"
definition TIME_INT_PER_BUFFER :: nat where [cconst]: "TIME_INT_PER_BUFFER = 128"
definition RX_DATA_LEN :: nat where [cconst]: "RX_DATA_LEN = 8192"
definition RX_BUFF_LEN :: nat where [cconst]: "RX_BUFF_LEN = 8"
definition RX_MSG_LEN :: nat where [cconst]: "RX_MSG_LEN = RX_DATA_LEN + RX_BUFF_LEN"
definition MAX_NO_ANTS :: nat where [cconst]: "MAX_NO_ANTS = 4"
definition MAX_CHANNEL_PACKETS :: nat where [cconst]: "MAX_CHANNEL_PACKETS = 32"
definition DEFAULT_PORT :: int where [cconst]: "DEFAULT_PORT = 4015"
definition SAMPLES_PER_PACKET :: nat where [cconst]: "SAMPLES_PER_PACKET = 16"
definition POLS_PER_PACKET :: nat where [cconst]: "POLS_PER_PACKET = 2"
definition CHANS_PER_PACKET :: nat where [cconst]: "CHANS_PER_PACKET = 256"
definition DEFAULT_SAVE_PATTERN :: string where [cconst]: "DEFAULT_SAVE_PATTERN = ''recording''"
definition FILE_EXTENSION :: string where [cconst]: "FILE_EXTENSION = ''bin''"
definition MAX_FILE :: nat where [cconst]: "MAX_FILE = 128"

definition ANT_NO_MASK :: u64 where [cconst]: "ANT_NO_MASK = 0x3f"
definition CHAN_NO_MASK :: u64 where [cconst]: "CHAN_NO_MASK = 0xfff"
definition PCKT_NO_MASK :: u64 where [cconst]: "PCKT_NO_MASK = 0x3fffffffff"
definition VERSION_NO_MASK :: u64 where [cconst]: "VERSION_NO_MASK = 0xff"
definition VOLT_VERSION_MASK :: u64 where [cconst]: "VOLT_VERSION_MASK = 0x80"

section \<open>Header accessors\<close>

definition GET_ANT_NO :: "u64 \<Rightarrow> u64" where
  "GET_ANT_NO x = x AND ANT_NO_MASK"

definition GET_CHAN_NO :: "u64 \<Rightarrow> u64" where
  "GET_CHAN_NO x = drop_bit 6 x AND CHAN_NO_MASK"

definition GET_PCKT_NO :: "u64 \<Rightarrow> u64" where
  "GET_PCKT_NO x = drop_bit 18 x AND PCKT_NO_MASK"

definition GET_VERSION_NO :: "u64 \<Rightarrow> u64" where
  "GET_VERSION_NO x = drop_bit 56 x AND VERSION_NO_MASK"

definition IS_VERSION_VOLT :: "u64 \<Rightarrow> u64" where
  "IS_VERSION_VOLT x = drop_bit 56 x AND VOLT_VERSION_MASK"

text \<open>The block number (multiple of 128) and the time slot within a block of a packet number.\<close>

definition GET_PACKET_FILTER :: "u64 \<Rightarrow> u64" where
  "GET_PACKET_FILTER x = x AND NOT 0x7f"

definition GET_PACKET_REST :: "u64 \<Rightarrow> u64" where
  "GET_PACKET_REST x = x AND 0x7f"

section \<open>Shared structures\<close>

text \<open>
  A \<^verbatim>\<open>char *\<close> into one of the buffers is the number of that buffer in \<open>bufData\<close>; the
  mutexes are the atomicity of the operations of common.c.
\<close>

record udpBuffStruct =
  bufData :: "u8 list list"
  dataLen :: "nat list"
  orderNo :: "int list"
  NReady :: nat
  noBuffers :: nat

record fileBuffStruct =
  nAnts :: u32
  antNumbers :: "u32 list"
  nchans :: u32
  firstChan :: u32
  packetStart :: u64
  udpBuff :: udpBuffStruct

record udpDataStruct =
  inBuff :: udpBuffStruct
  port :: int

record fileDataStruct =
  fileBuff :: fileBuffStruct
  file_part :: string

section \<open>Facts about the header\<close>

text \<open>The header the README describes, composed from its four fields.\<close>

definition volt_header :: "u64 \<Rightarrow> u64 \<Rightarrow> u64 \<Rightarrow> u64 \<Rightarrow> u64" where
  "volt_header version pckt chan ant =
     push_bit 56 version OR push_bit 18 pckt OR push_bit 6 chan OR ant"

lemma mask_eqs:
  "ANT_NO_MASK = mask 6" "CHAN_NO_MASK = mask 12" "PCKT_NO_MASK = mask 38"
  "VERSION_NO_MASK = mask 8" "(0x7f :: u64) = mask 7"
  by (simp_all add: cconst mask_eq_exp_minus_1)

lemmas get_defs = GET_ANT_NO_def GET_CHAN_NO_def GET_PCKT_NO_def GET_VERSION_NO_def
  GET_PACKET_FILTER_def GET_PACKET_REST_def IS_VERSION_VOLT_def

lemma GET_take_bit:
  "GET_ANT_NO x = take_bit 6 x" "GET_CHAN_NO x = take_bit 12 (drop_bit 6 x)"
  "GET_PCKT_NO x = take_bit 38 (drop_bit 18 x)" "GET_VERSION_NO x = take_bit 8 (drop_bit 56 x)"
  "GET_PACKET_REST x = take_bit 7 x"
  by (simp_all add: get_defs mask_eqs take_bit_eq_mask)

lemma GET_PACKET_split: "x = GET_PACKET_FILTER x OR GET_PACKET_REST x"
  by (rule bit_word_eqI) (auto simp: get_defs bit_simps)

lemma unat_GET_PACKET_REST: "unat (GET_PACKET_REST x) = unat x mod 128"
  by (simp add: GET_take_bit unat_take_bit_mod)

lemma GET_PACKET_REST_less: "unat (GET_PACKET_REST x) < TIME_INT_PER_BUFFER"
  by (simp add: unat_GET_PACKET_REST cconst)

lemma unat_GET_PACKET_FILTER: "unat (GET_PACKET_FILTER x) = 128 * (unat x div 128)"
proof -
  have "GET_PACKET_FILTER x = push_bit 7 (drop_bit 7 x)"
    by (rule bit_word_eqI) (auto simp: GET_PACKET_FILTER_def mask_eqs bit_simps)
  moreover have "unat (drop_bit 7 x) * 128 < 2 ^ 64"
    using unat_less_exp [of x] by (simp add: unat_drop_bit_div)
  ultimately show ?thesis
    by (simp add: push_bit_eq_mult unat_mult_small unat_drop_bit_div)
qed

lemma unat_GET_PCKT_NO_less: "unat (GET_PCKT_NO x) < 2 ^ 38"
  by (simp add: GET_take_bit unat_take_bit_mod)

lemma unat_GET_CHAN_NO_less: "unat (GET_CHAN_NO x) < 2 ^ 12"
  by (simp add: GET_take_bit unat_take_bit_mod)

lemma unat_GET_ANT_NO_less: "unat (GET_ANT_NO x) < 2 ^ 6"
  by (simp add: GET_take_bit unat_take_bit_mod)

lemma header_fields:
  assumes "unat version < 2 ^ 8" "unat pckt < 2 ^ 38" "unat chan < 2 ^ 12" "unat ant < 2 ^ 6"
  shows "GET_VERSION_NO (volt_header version pckt chan ant) = version"
    "GET_PCKT_NO (volt_header version pckt chan ant) = pckt"
    "GET_CHAN_NO (volt_header version pckt chan ant) = chan"
    "GET_ANT_NO (volt_header version pckt chan ant) = ant"
proof -
  note bits = bit_small [OF assms(1)] bit_small [OF assms(2)] bit_small [OF assms(3)]
    bit_small [OF assms(4)]
  show "GET_VERSION_NO (volt_header version pckt chan ant) = version"
    by (rule bit_word_eqI) (auto simp: GET_take_bit volt_header_def bit_simps dest: bits)
  show "GET_PCKT_NO (volt_header version pckt chan ant) = pckt"
    by (rule bit_word_eqI) (auto simp: GET_take_bit volt_header_def bit_simps dest: bits)
  show "GET_CHAN_NO (volt_header version pckt chan ant) = chan"
    by (rule bit_word_eqI) (auto simp: GET_take_bit volt_header_def bit_simps dest: bits)
  show "GET_ANT_NO (volt_header version pckt chan ant) = ant"
    by (rule bit_word_eqI) (auto simp: GET_take_bit volt_header_def bit_simps dest: bits)
qed

text \<open>
  C1: the accessors read exactly the fields the README documents: the header composed from a
  version, packet number, channel and antenna of the documented widths decodes to those four
  values, and every 64-bit header is the composition of its four decoded fields, so no header bit
  is lost or read twice.
\<close>

theorem header_roundtrip:
  assumes "unat version < 2 ^ 8" "unat pckt < 2 ^ 38" "unat chan < 2 ^ 12" "unat ant < 2 ^ 6"
  shows "GET_VERSION_NO (volt_header version pckt chan ant) = version \<and>
    GET_PCKT_NO (volt_header version pckt chan ant) = pckt \<and>
    GET_CHAN_NO (volt_header version pckt chan ant) = chan \<and>
    GET_ANT_NO (volt_header version pckt chan ant) = ant \<and>
    volt_header (GET_VERSION_NO x) (GET_PCKT_NO x) (GET_CHAN_NO x) (GET_ANT_NO x) = x"
proof -
  have "volt_header (GET_VERSION_NO x) (GET_PCKT_NO x) (GET_CHAN_NO x) (GET_ANT_NO x) = x"
  proof (rule bit_word_eqI)
    fix n assume "n < LENGTH(64)"
    then show "bit (volt_header (GET_VERSION_NO x) (GET_PCKT_NO x) (GET_CHAN_NO x) (GET_ANT_NO x)) n
        = bit x n"
      by (cases "18 \<le> n"; cases "56 \<le> n")
        (auto simp: GET_take_bit volt_header_def bit_simps)
  qed
  with header_fields [OF assms] show ?thesis by simp
qed

theorem header_roundtrip_witness:
  "GET_PCKT_NO (volt_header 193 4000000 512 3) = 4000000"
  using header_roundtrip [of 193 4000000 512 3 0] by simp

end
