(* ===== verification/Common.thy ===== *)
theory Common
  imports Data_Formats
begin

text \<open>
  The model of full_custom/common.c: the pool of buffers through which two threads exchange data,
  and the table of antenna numbers. A slot of the pool is empty (order 0), in use by a thread
  (order -1) or ready (a positive order). Each operation runs under the pool's mutex and is one
  atomic step; \<^verbatim>\<open>fetchBuffer\<close> has two critical sections and is modelled as two steps
  with a move of the other threads in between.
\<close>

section \<open>Searching the order array\<close>

definition INT_MAX :: int where [cconst]: "INT_MAX = 2147483647"

function findEmpty_loop :: "int list \<Rightarrow> nat \<Rightarrow> nat \<Rightarrow> int" where
  "findEmpty_loop no buffLen iK =
     (if iK < buffLen then (if no ! iK = 0 then int iK else findEmpty_loop no buffLen (Suc iK))
      else -1)"
  by pat_completeness auto
termination
  by (relation "measure (\<lambda>(no, buffLen, iK). buffLen - iK)") auto

declare findEmpty_loop.simps [simp del]

definition findEmpty :: "int list \<Rightarrow> nat \<Rightarrow> int" where
  "findEmpty no buffLen = findEmpty_loop no buffLen 0"

function findLowest_loop :: "int list \<Rightarrow> nat \<Rightarrow> nat \<Rightarrow> int \<Rightarrow> int \<Rightarrow> int" where
  "findLowest_loop no buffLen iK lowVal retVal =
     (if iK < buffLen
      then (if no ! iK < lowVal \<and> no ! iK > 0
            then findLowest_loop no buffLen (Suc iK) (no ! iK) (int iK)
            else findLowest_loop no buffLen (Suc iK) lowVal retVal)
      else retVal)"
  by pat_completeness auto
termination
  by (relation "measure (\<lambda>(no, buffLen, iK, lowVal, retVal). buffLen - iK)") auto

declare findLowest_loop.simps [simp del]

definition findLowest :: "int list \<Rightarrow> nat \<Rightarrow> int" where
  "findLowest no buffLen = findLowest_loop no buffLen 0 INT_MAX (-1)"

section \<open>The buffer pool\<close>

text \<open>
  \<open>malloc_*\<close> are the blocks the allocator returns (\<open>None\<close> for NULL), with whatever they hold;
  the two leading arguments are the results of the mutex initialisations.
\<close>

fun alloc_bufs :: "u8 list option list \<Rightarrow> u8 list list cres" where
  "alloc_bufs [] = Inr []"
| "alloc_bufs (None # bs) = Inl (Fatal ''malloc'')"
| "alloc_bufs (Some b # bs) = cbind (alloc_bufs bs) (\<lambda>rest. Inr (b # rest))"

definition init_udpBuff ::
  "int \<Rightarrow> int \<Rightarrow> bool \<Rightarrow> (nat \<Rightarrow> nat \<Rightarrow> u8 list option) \<Rightarrow> nat list option \<Rightarrow> int list option \<Rightarrow>
   nat \<Rightarrow> nat \<Rightarrow> (int \<times> udpBuffStruct) cres" where
  "init_udpBuff mutex1 mutex2 malloc_data malloc_buf malloc_len malloc_order number_of_buffers bufsize =
     (if mutex1 \<noteq> 0 then Inl (Fatal ''mutexI'')
      else if mutex2 \<noteq> 0 then Inl (Fatal ''mutexI'')
      else if \<not> malloc_data then Inl (Fatal ''malloc'')
      else cbind (alloc_bufs (map (\<lambda>iK. malloc_buf iK bufsize) [0..<number_of_buffers])) (\<lambda>bufs.
        case malloc_len of None \<Rightarrow> Inl (Fatal ''malloc'') | Some lens \<Rightarrow>
        (case malloc_order of None \<Rightarrow> Inl (Fatal ''malloc'') | Some ords \<Rightarrow>
          Inr (1, \<lparr>bufData = bufs, dataLen = lens,
            orderNo = replicate number_of_buffers 0 @ drop number_of_buffers ords,
            NReady = 0, noBuffers = number_of_buffers\<rparr>))))"

definition destroy_udpBuff :: "int \<Rightarrow> int \<Rightarrow> udpBuffStruct \<Rightarrow> (int \<times> udpBuffStruct) cres" where
  "destroy_udpBuff mutex1 mutex2 s =
     (if mutex1 \<noteq> 0 then Inl (Fatal ''mutexD'')
      else if mutex2 \<noteq> 0 then Inl (Fatal ''mutexD'')
      else Inr (1, s\<lparr>orderNo := [], dataLen := [], bufData := []\<rparr>))"

text \<open>Result code and slot number; the buffer pointer handed out is the slot's.\<close>

definition fetchEmptyBuffer :: "udpBuffStruct \<Rightarrow> int \<times> int \<times> udpBuffStruct" where
  "fetchEmptyBuffer s =
     (let index = findEmpty (orderNo s) (noBuffers s)
      in if index = -1 then (-1, index, s)
         else (0, index, s\<lparr>orderNo := (orderNo s)[nat index := -1]\<rparr>))"

text \<open>
  \<^verbatim>\<open>anyBufFull\<close> takes the structure by value: the increment is on the copy, so the pool is
  only read.
\<close>

definition anyBufFull :: "udpBuffStruct \<Rightarrow> nat" where
  "anyBufFull s = NReady s"

definition returnBuffer :: "udpBuffStruct \<Rightarrow> int \<Rightarrow> int \<Rightarrow> nat \<Rightarrow> udpBuffStruct cres" where
  "returnBuffer s index order len =
     (if index < 0 \<or> int (length (orderNo s)) \<le> index then Inl Overrun
      else if orderNo s ! nat index \<noteq> -1 then Inl (Fatal ''data integrity!'')
      else Inr (s\<lparr>orderNo := (orderNo s)[nat index := order],
                  dataLen := (dataLen s)[nat index := len],
                  NReady := Suc (NReady s)\<rparr>))"

definition returnEmptyBuffer :: "udpBuffStruct \<Rightarrow> int \<Rightarrow> udpBuffStruct cres" where
  "returnEmptyBuffer s index =
     (if index < 0 \<or> int (length (orderNo s)) \<le> index then Inl Overrun
      else if orderNo s ! nat index \<noteq> -1 then Inl (Fatal ''data integrity!'')
      else Inr (s\<lparr>orderNo := (orderNo s)[nat index := 0]\<rparr>))"

text \<open>
  The wait loop of \<^verbatim>\<open>fetchBuffer\<close>: one pass of its body, then the loop over a schedule that
  gives, for each pass, what the other threads did before it and the value of
  \<^verbatim>\<open>keep_going\<close> it read.
\<close>

datatype poll = Got | Stop | Again

definition fetchBuffer_poll :: "bool \<Rightarrow> udpBuffStruct \<Rightarrow> poll \<times> udpBuffStruct" where
  "fetchBuffer_poll keep_going s =
     (if NReady s > 0 then (Got, s\<lparr>NReady := NReady s - 1\<rparr>)
      else if \<not> keep_going then (Stop, s) else (Again, s))"

type_synonym pool_move = "udpBuffStruct \<Rightarrow> udpBuffStruct"

text \<open>A move of the other threads that is told which slots the thread under study holds.\<close>

type_synonym held_move = "int list \<Rightarrow> pool_move"

fun fetchBuffer_wait ::
  "(pool_move \<times> bool) list \<Rightarrow> udpBuffStruct \<Rightarrow> (poll \<times> udpBuffStruct \<times> (pool_move \<times> bool) list) cres"
where
  "fetchBuffer_wait [] s = Inl Blocked"
| "fetchBuffer_wait ((env, keep_going) # es) s =
     (case fetchBuffer_poll keep_going (env s) of
        (Again, s') \<Rightarrow> fetchBuffer_wait es s'
      | (p, s') \<Rightarrow> Inr (p, s', es))"

text \<open>The second critical section: \<open>None\<close> is the return value -1.\<close>

definition fetchBuffer_pick :: "udpBuffStruct \<Rightarrow> (int \<times> int \<times> nat) option \<times> udpBuffStruct" where
  "fetchBuffer_pick s =
     (let index = findLowest (orderNo s) (noBuffers s)
      in if index = -1 then (None, s)
         else (Some (index, orderNo s ! nat index, dataLen s ! nat index),
               s\<lparr>orderNo := (orderNo s)[nat index := -1]\<rparr>))"

definition fetchBuffer ::
  "(pool_move \<times> bool) list \<Rightarrow> pool_move \<Rightarrow> udpBuffStruct \<Rightarrow>
   ((int \<times> int \<times> nat) option \<times> udpBuffStruct \<times> (pool_move \<times> bool) list) cres" where
  "fetchBuffer es between s =
     cbind (fetchBuffer_wait es s) (\<lambda>(p, s', es').
       if p = Stop then Inr (None, s', es')
       else (let (r, s'') = fetchBuffer_pick (between s') in Inr (r, s'', es')))"

text \<open>A \<^verbatim>\<open>memcpy\<close> through a pointer to a buffer of the pool.\<close>

definition write_slot :: "nat \<Rightarrow> nat \<Rightarrow> u8 list \<Rightarrow> udpBuffStruct \<Rightarrow> udpBuffStruct cres" where
  "write_slot i off src s =
     (if i < length (bufData s)
      then cbind (blit off src (bufData s ! i)) (\<lambda>b. Inr (s\<lparr>bufData := (bufData s)[i := b]\<rparr>))
      else Inl Overrun)"

section \<open>The antenna table\<close>

function updateAntenna_loop :: "u32 list \<Rightarrow> u32 \<Rightarrow> nat \<Rightarrow> nat \<Rightarrow> int \<times> u32 list" where
  "updateAntenna_loop ants currAnt maxAnts iK =
     (if iK < maxAnts
      then (if ants ! iK = currAnt then (0, ants)
            else if ants ! iK = -1 then (1, ants[iK := currAnt])
            else updateAntenna_loop ants currAnt maxAnts (Suc iK))
      else (-1, ants))"
  by pat_completeness auto
termination
  by (relation "measure (\<lambda>(ants, currAnt, maxAnts, iK). maxAnts - iK)") auto

declare updateAntenna_loop.simps [simp del]

definition updateAntenna :: "u32 list \<Rightarrow> u32 \<Rightarrow> u32 \<Rightarrow> int \<times> u32 list" where
  "updateAntenna ants currAnt maxAnts = updateAntenna_loop ants currAnt (unat maxAnts) 0"

function getAntIndex_loop :: "u32 list \<Rightarrow> u32 \<Rightarrow> nat \<Rightarrow> nat \<Rightarrow> int" where
  "getAntIndex_loop ants currAnt maxAnts iK =
     (if iK < maxAnts
      then (if ants ! iK = currAnt then int iK
            else getAntIndex_loop ants currAnt maxAnts (Suc iK))
      else -1)"
  by pat_completeness auto
termination
  by (relation "measure (\<lambda>(ants, currAnt, maxAnts, iK). maxAnts - iK)") auto

declare getAntIndex_loop.simps [simp del]

definition getAntIndex :: "u32 list \<Rightarrow> u32 \<Rightarrow> u32 \<Rightarrow> int" where
  "getAntIndex ants currAnt maxAnts = getAntIndex_loop ants currAnt (unat maxAnts) 0"

section \<open>Writes through a buffer pointer\<close>

lemma write_slot_InrE:
  assumes "write_slot i off src s = Inr s'"
  obtains b where "blit off src (bufData s ! i) = Inr b" "i < length (bufData s)"
    "s' = s\<lparr>bufData := (bufData s)[i := b]\<rparr>"
  using assms by (auto simp: write_slot_def cbind_eq_Inr_iff split: if_splits)

lemma write_slot_frame:
  assumes "write_slot i off src s = Inr s'"
  shows "orderNo s' = orderNo s" "dataLen s' = dataLen s" "NReady s' = NReady s"
    "noBuffers s' = noBuffers s" "length (bufData s') = length (bufData s)"
    "j \<noteq> i \<Longrightarrow> bufData s' ! j = bufData s ! j" "length (bufData s' ! i) = length (bufData s ! i)"
    "blit off src (bufData s ! i) = Inr (bufData s' ! i)"
  using assms by (auto elim!: write_slot_InrE dest: blit_InrD)

lemma write_slot_ok:
  "i < length (bufData s) \<Longrightarrow> off + length src \<le> length (bufData s ! i) \<Longrightarrow>
   \<exists>s'. write_slot i off src s = Inr s'"
  by (simp add: write_slot_def blit_def)

section \<open>What the searches return\<close>

lemma findEmpty_find_from: "findEmpty no n = find_from (\<lambda>k. no ! k = 0) n 0"
proof -
  have "findEmpty_loop no n i = find_from (\<lambda>k. no ! k = 0) n i" for i
    by (induction no n i rule: findEmpty_loop.induct)
      (simp add: findEmpty_loop.simps find_from.simps)
  then show ?thesis by (simp add: findEmpty_def)
qed

lemma getAntIndex_find_from:
  "getAntIndex ants a m = find_from (\<lambda>k. ants ! k = a) (unat m) 0"
proof -
  have "getAntIndex_loop ants a n i = find_from (\<lambda>k. ants ! k = a) n i" for n i
    by (induction ants a n i rule: getAntIndex_loop.induct)
      (simp add: getAntIndex_loop.simps find_from.simps)
  then show ?thesis by (simp add: getAntIndex_def)
qed

text \<open>The state of the scan after \<open>m\<close> entries: nothing found, or the first minimum so far.\<close>

definition lowest_upto :: "int list \<Rightarrow> nat \<Rightarrow> int \<Rightarrow> int \<Rightarrow> bool" where
  "lowest_upto no m lowVal retVal \<longleftrightarrow>
     (retVal = -1 \<and> lowVal = INT_MAX \<and> (\<forall>j<m. no ! j \<le> 0 \<or> INT_MAX \<le> no ! j)) \<or>
     (\<exists>k<m. retVal = int k \<and> lowVal = no ! k \<and> 0 < no ! k \<and> no ! k < INT_MAX \<and>
        (\<forall>j<m. 0 < no ! j \<longrightarrow> no ! k \<le> no ! j) \<and> (\<forall>j<k. 0 < no ! j \<longrightarrow> no ! k < no ! j))"

lemma lowest_upto_Suc:
  assumes "lowest_upto no m lowVal retVal"
  shows "if no ! m < lowVal \<and> no ! m > 0 then lowest_upto no (Suc m) (no ! m) (int m)
         else lowest_upto no (Suc m) lowVal retVal"
  using assms unfolding lowest_upto_def by (auto simp: less_Suc_eq; force)

lemma findLowest_loop_lowest:
  "lowest_upto no i lowVal retVal \<Longrightarrow> i \<le> n \<Longrightarrow>
   \<exists>v. lowest_upto no n v (findLowest_loop no n i lowVal retVal)"
proof (induction no n i lowVal retVal rule: findLowest_loop.induct)
  case (1 no n i lowVal retVal)
  show ?case
  proof (cases "i < n")
    case True
    with 1 lowest_upto_Suc [OF "1.prems"(1)] show ?thesis
      by (auto simp: findLowest_loop.simps [of no n i lowVal retVal] split: if_splits)
  next
    case False
    with "1.prems" show ?thesis
      by (auto simp: findLowest_loop.simps [of no n n lowVal retVal])
  qed
qed

lemma findLowestE:
  obtains (none) "findLowest no n = -1" "\<And>j. j < n \<Longrightarrow> no ! j \<le> 0 \<or> INT_MAX \<le> no ! j"
    | (some) k where "findLowest no n = int k" "k < n" "0 < no ! k" "no ! k < INT_MAX"
        "\<And>j. j < n \<Longrightarrow> 0 < no ! j \<Longrightarrow> no ! k \<le> no ! j"
proof -
  have "lowest_upto no 0 INT_MAX (-1)" by (simp add: lowest_upto_def)
  from findLowest_loop_lowest [OF this, of n] that show thesis
    by (auto simp: lowest_upto_def findLowest_def)
qed

section \<open>The interface of the pool\<close>

text \<open>
  What a client of the pool may rely on: which slot an operation takes or gives back, and how it
  moves the counter of ready buffers. \<open>claim\<close> is the first critical section of
  \<^verbatim>\<open>fetchBuffer\<close> and \<open>pick\<close> the second.
\<close>

locale slot_pool =
  fixes wf :: "'p \<Rightarrow> bool"
    and slots :: "'p \<Rightarrow> nat"
    and status :: "'p \<Rightarrow> nat \<Rightarrow> int"
    and counter :: "'p \<Rightarrow> nat"
    and ready :: "'p \<Rightarrow> nat"
    and acquire :: "'p \<Rightarrow> (nat \<times> 'p) option"
    and publish :: "'p \<Rightarrow> nat \<Rightarrow> int \<Rightarrow> nat \<Rightarrow> 'p cres"
    and recycle :: "'p \<Rightarrow> nat \<Rightarrow> 'p cres"
    and claim :: "'p \<Rightarrow> 'p option"
    and pick :: "'p \<Rightarrow> (nat \<times> int \<times> nat) option \<times> 'p"
  assumes acquire_None: "wf s \<Longrightarrow> acquire s = None \<Longrightarrow> i < slots s \<Longrightarrow> status s i \<noteq> 0"
    and acquire_Some: "wf s \<Longrightarrow> acquire s = Some (i, s') \<Longrightarrow>
      i < slots s \<and> status s i = 0 \<and> wf s' \<and> slots s' = slots s \<and> counter s' = counter s \<and>
      ready s' = ready s \<and> (\<forall>j. status s' j = (if j = i then -1 else status s j))"
    and publish_ok: "wf s \<Longrightarrow> i < slots s \<Longrightarrow> status s i = -1 \<Longrightarrow> 0 < ord \<Longrightarrow>
      \<exists>s'. publish s i ord len = Inr s' \<and> wf s' \<and> slots s' = slots s \<and>
        counter s' = Suc (counter s) \<and> ready s' = Suc (ready s) \<and>
        (\<forall>j. status s' j = (if j = i then ord else status s j))"
    and recycle_ok: "wf s \<Longrightarrow> i < slots s \<Longrightarrow> status s i = -1 \<Longrightarrow>
      \<exists>s'. recycle s i = Inr s' \<and> wf s' \<and> slots s' = slots s \<and> counter s' = counter s \<and>
        ready s' = ready s \<and> (\<forall>j. status s' j = (if j = i then 0 else status s j))"
    and claim_Some: "wf s \<Longrightarrow> claim s = Some s' \<Longrightarrow>
      0 < counter s \<and> wf s' \<and> slots s' = slots s \<and> counter s' = counter s - 1 \<and>
      ready s' = ready s \<and> status s' = status s"
    and claim_None: "wf s \<Longrightarrow> claim s = None \<Longrightarrow> counter s = 0"
    and pick_None: "wf s \<Longrightarrow> pick s = (None, s') \<Longrightarrow> i < slots s \<Longrightarrow>
      status s i \<le> 0 \<or> INT_MAX \<le> status s i"
    and pick_Some: "wf s \<Longrightarrow> pick s = (Some (i, ord, len), s') \<Longrightarrow>
      i < slots s \<and> ord = status s i \<and> 0 < ord \<and> wf s' \<and> slots s' = slots s \<and>
      counter s' = counter s \<and> ready s = Suc (ready s') \<and>
      (\<forall>j < slots s. 0 < status s j \<longrightarrow> ord \<le> status s j) \<and>
      (\<forall>j. status s' j = (if j = i then -1 else status s j))"
    and ready_pos: "wf s \<Longrightarrow> 0 < ready s \<Longrightarrow> \<exists>i < slots s. 0 < status s i"
begin

text \<open>A slot in use is never handed out again, neither as an empty nor as a ready buffer.\<close>

lemma acquire_avoids_in_use:
  "wf s \<Longrightarrow> acquire s = Some (i, s') \<Longrightarrow> status s j = -1 \<Longrightarrow> i \<noteq> j"
  using acquire_Some [of s i s'] by auto

lemma pick_avoids_in_use:
  "wf s \<Longrightarrow> pick s = (Some (i, ord, len), s') \<Longrightarrow> status s j = -1 \<Longrightarrow> i \<noteq> j"
  using pick_Some [of s i ord len s'] by auto

text \<open>A wait for an empty buffer ends once some slot is empty.\<close>

lemma acquire_succeeds: "wf s \<Longrightarrow> i < slots s \<Longrightarrow> status s i = 0 \<Longrightarrow> acquire s \<noteq> None"
  using acquire_None by blast

text \<open>A claimed buffer is there to be picked while the orders stay below the search's bound.\<close>

lemma pick_succeeds:
  assumes "wf s" "0 < ready s" "\<And>i. i < slots s \<Longrightarrow> status s i < INT_MAX"
  shows "\<exists>i ord len s'. pick s = (Some (i, ord, len), s')"
proof -
  obtain i where i: "i < slots s" "0 < status s i" using ready_pos [OF assms(1,2)] by blast
  obtain r s' where p: "pick s = (r, s')" by fastforce
  have "r \<noteq> None"
  proof
    assume "r = None"
    with pick_None [OF assms(1) _ i(1)] p have "INT_MAX \<le> status s i" using i(2) by auto
    with assms(3) [OF i(1)] show False by simp
  qed
  with p show ?thesis by (cases r) auto
qed

text \<open>Giving an acquired slot back restores every slot's state.\<close>

lemma acquire_recycle:
  assumes "wf s" "acquire s = Some (i, s')"
  shows "\<exists>s''. recycle s' i = Inr s'' \<and> status s'' = status s \<and> counter s'' = counter s"
proof -
  note a = acquire_Some [OF assms]
  then have "wf s'" "i < slots s'" "status s' i = -1" by auto
  from recycle_ok [OF this] obtain s'' where r: "recycle s' i = Inr s''"
    "counter s'' = counter s'" "\<forall>j. status s'' j = (if j = i then 0 else status s' j)" by blast
  have "status s'' = status s" using r(3) a by (auto simp: fun_eq_iff)
  with r a show ?thesis by auto
qed

end

section \<open>The pool of common.c provides the interface\<close>

definition pool_wf :: "udpBuffStruct \<Rightarrow> bool" where
  "pool_wf s \<longleftrightarrow> length (orderNo s) = noBuffers s \<and> length (dataLen s) = noBuffers s \<and>
     length (bufData s) = noBuffers s"

definition slot_status :: "udpBuffStruct \<Rightarrow> nat \<Rightarrow> int" where
  "slot_status s i = orderNo s ! i"

definition ready_count :: "udpBuffStruct \<Rightarrow> nat" where
  "ready_count s = length (filter (\<lambda>x. 0 < x) (orderNo s))"

definition acquire_slot :: "udpBuffStruct \<Rightarrow> (nat \<times> udpBuffStruct) option" where
  "acquire_slot s =
     (case fetchEmptyBuffer s of (rc, index, s') \<Rightarrow> if rc = 0 then Some (nat index, s') else None)"

definition publish_slot :: "udpBuffStruct \<Rightarrow> nat \<Rightarrow> int \<Rightarrow> nat \<Rightarrow> udpBuffStruct cres" where
  "publish_slot s i ord len = returnBuffer s (int i) ord len"

definition recycle_slot :: "udpBuffStruct \<Rightarrow> nat \<Rightarrow> udpBuffStruct cres" where
  "recycle_slot s i = returnEmptyBuffer s (int i)"

definition claim_slot :: "udpBuffStruct \<Rightarrow> udpBuffStruct option" where
  "claim_slot s = (case fetchBuffer_poll True s of (Got, s') \<Rightarrow> Some s' | _ \<Rightarrow> None)"

definition pick_slot :: "udpBuffStruct \<Rightarrow> (nat \<times> int \<times> nat) option \<times> udpBuffStruct" where
  "pick_slot s =
     (case fetchBuffer_pick s of
        (None, s') \<Rightarrow> (None, s') | (Some (i, ord, len), s') \<Rightarrow> (Some (nat i, ord, len), s'))"

lemmas slot_defs = slot_status_def publish_slot_def recycle_slot_def claim_slot_def
  returnBuffer_def returnEmptyBuffer_def fetchBuffer_poll_def

lemma ready_count_update:
  "i < length (orderNo s) \<Longrightarrow>
   length (filter (\<lambda>x. 0 < x) ((orderNo s)[i := v])) + (if 0 < orderNo s ! i then 1 else 0) =
   ready_count s + (if 0 < v then 1 else 0)"
  by (simp add: ready_count_def length_filter_update)

lemma acquire_slot_cases:
  assumes "pool_wf s"
  obtains (none) "fetchEmptyBuffer s = (-1, -1, s)" "acquire_slot s = None"
      "\<And>i. i < noBuffers s \<Longrightarrow> orderNo s ! i \<noteq> 0"
    | (some) i where "fetchEmptyBuffer s = (0, int i, s\<lparr>orderNo := (orderNo s)[i := -1]\<rparr>)"
      "acquire_slot s = Some (i, s\<lparr>orderNo := (orderNo s)[i := -1]\<rparr>)"
      "i < noBuffers s" "orderNo s ! i = 0" "\<And>j. j < i \<Longrightarrow> orderNo s ! j \<noteq> 0"
proof (cases rule: find_fromE [of "\<lambda>k. orderNo s ! k = 0" "noBuffers s"])
  case none
  then show thesis
    using that(1) by (simp add: acquire_slot_def fetchEmptyBuffer_def findEmpty_find_from Let_def)
next
  case (some k)
  then show thesis
    using that(2) [of k] by (simp add: acquire_slot_def fetchEmptyBuffer_def findEmpty_find_from Let_def)
qed

lemma pick_slot_cases:
  assumes "pool_wf s"
  obtains (none) "fetchBuffer_pick s = (None, s)" "pick_slot s = (None, s)"
      "\<And>i. i < noBuffers s \<Longrightarrow> orderNo s ! i \<le> 0 \<or> INT_MAX \<le> orderNo s ! i"
    | (some) i where
      "fetchBuffer_pick s = (Some (int i, orderNo s ! i, dataLen s ! i), s\<lparr>orderNo := (orderNo s)[i := -1]\<rparr>)"
      "pick_slot s = (Some (i, orderNo s ! i, dataLen s ! i), s\<lparr>orderNo := (orderNo s)[i := -1]\<rparr>)"
      "i < noBuffers s" "0 < orderNo s ! i"
      "\<And>j. j < noBuffers s \<Longrightarrow> 0 < orderNo s ! j \<Longrightarrow> orderNo s ! i \<le> orderNo s ! j"
proof (cases rule: findLowestE [of "orderNo s" "noBuffers s"])
  case none
  then show thesis using that(1) by (simp add: pick_slot_def fetchBuffer_pick_def Let_def)
next
  case (some k)
  then show thesis using that(2) [of k] by (simp add: pick_slot_def fetchBuffer_pick_def Let_def)
qed

interpretation udp_pool: slot_pool pool_wf noBuffers slot_status NReady ready_count
  acquire_slot publish_slot recycle_slot claim_slot pick_slot
proof unfold_locales
  fix s i assume "pool_wf s" "acquire_slot s = None" "i < noBuffers s"
  then show "slot_status s i \<noteq> 0" by (cases rule: acquire_slot_cases) (auto simp: slot_status_def)
next
  fix s i s' assume wf: "pool_wf s" and acq: "acquire_slot s = Some (i, s')"
  from wf show "i < noBuffers s \<and> slot_status s i = 0 \<and> pool_wf s' \<and> noBuffers s' = noBuffers s \<and>
      NReady s' = NReady s \<and> ready_count s' = ready_count s \<and>
      (\<forall>j. slot_status s' j = (if j = i then -1 else slot_status s j))"
  proof (cases rule: acquire_slot_cases)
    case none
    with acq show ?thesis by simp
  next
    case (some k)
    then have "i = k" "s' = s\<lparr>orderNo := (orderNo s)[k := -1]\<rparr>" using acq by auto
    with some wf ready_count_update [of k s "-1"] show ?thesis
      by (auto simp: pool_wf_def slot_status_def ready_count_def)
  qed
next
  fix s i ord len assume "pool_wf s" "i < noBuffers s" "slot_status s i = -1" "0 < (ord::int)"
  then show "\<exists>s'. publish_slot s i ord len = Inr s' \<and> pool_wf s' \<and> noBuffers s' = noBuffers s \<and>
      NReady s' = Suc (NReady s) \<and> ready_count s' = Suc (ready_count s) \<and>
      (\<forall>j. slot_status s' j = (if j = i then ord else slot_status s j))"
    using ready_count_update [of i s ord]
    by (auto simp: slot_defs pool_wf_def ready_count_def)
next
  fix s i assume "pool_wf s" "i < noBuffers s" "slot_status s i = -1"
  then show "\<exists>s'. recycle_slot s i = Inr s' \<and> pool_wf s' \<and> noBuffers s' = noBuffers s \<and>
      NReady s' = NReady s \<and> ready_count s' = ready_count s \<and>
      (\<forall>j. slot_status s' j = (if j = i then 0 else slot_status s j))"
    using ready_count_update [of i s 0]
    by (auto simp: slot_defs pool_wf_def ready_count_def)
next
  fix s s' assume "pool_wf s" "claim_slot s = Some s'"
  then show "0 < NReady s \<and> pool_wf s' \<and> noBuffers s' = noBuffers s \<and> NReady s' = NReady s - 1 \<and>
      ready_count s' = ready_count s \<and> slot_status s' = slot_status s"
    by (auto simp: slot_defs pool_wf_def ready_count_def fun_eq_iff split: if_splits)
next
  fix s assume "pool_wf s" "claim_slot s = None"
  then show "NReady s = 0" by (auto simp: slot_defs split: if_splits)
next
  fix s s' i assume "pool_wf s" "pick_slot s = (None, s')" "i < noBuffers s"
  then show "slot_status s i \<le> 0 \<or> INT_MAX \<le> slot_status s i"
    by (cases rule: pick_slot_cases) (auto simp: slot_status_def)
next
  fix s i ord len s' assume wf: "pool_wf s" and pick: "pick_slot s = (Some (i, ord, len), s')"
  from wf show "i < noBuffers s \<and> ord = slot_status s i \<and> 0 < ord \<and> pool_wf s' \<and>
      noBuffers s' = noBuffers s \<and> NReady s' = NReady s \<and> ready_count s = Suc (ready_count s') \<and>
      (\<forall>j<noBuffers s. 0 < slot_status s j \<longrightarrow> ord \<le> slot_status s j) \<and>
      (\<forall>j. slot_status s' j = (if j = i then -1 else slot_status s j))"
  proof (cases rule: pick_slot_cases)
    case none
    with pick show ?thesis by simp
  next
    case (some k)
    then have "i = k" "ord = orderNo s ! k" "s' = s\<lparr>orderNo := (orderNo s)[k := -1]\<rparr>"
      using pick by auto
    with some wf ready_count_update [of k s "-1"] show ?thesis
      by (auto simp: pool_wf_def slot_status_def ready_count_def)
  qed
next
  fix s assume "pool_wf s" "0 < ready_count s"
  then have "\<exists>x\<in>set (orderNo s). 0 < x"
    by (auto simp: ready_count_def filter_empty_conv)
  with \<open>pool_wf s\<close> show "\<exists>i<noBuffers s. 0 < slot_status s i"
    by (auto simp: slot_status_def pool_wf_def in_set_conv_nth)
qed

section \<open>Properties of the pool operations\<close>

lemma alloc_bufs_Some: "alloc_bufs (map (\<lambda>i. Some (f i)) xs) = Inr (map f xs)"
  by (induction xs) auto

text \<open>
  \<^verbatim>\<open>init_udpBuff\<close> builds, when every allocation succeeds, a well-formed pool of the
  requested number of slots in which every slot is empty and no buffer is counted as ready; a NULL
  from any of the buffer allocations ends the process with the message \<^verbatim>\<open>malloc\<close>.
\<close>

lemma init_udpBuff_empty_pool:
  assumes "length lens = n" "length ords = n"
  shows "(\<exists>s. init_udpBuff 0 0 True (\<lambda>i sz. Some (f i sz)) (Some lens) (Some ords) n bufsize = Inr (1, s) \<and>
      pool_wf s \<and> noBuffers s = n \<and> NReady s = 0 \<and> ready_count s = 0 \<and>
      bufData s = map (\<lambda>i. f i bufsize) [0..<n] \<and> (\<forall>i<n. orderNo s ! i = 0)) \<and>
    (\<forall>k<n. init_udpBuff 0 0 True (\<lambda>i sz. if i = k then None else Some (f i sz))
      (Some lens) (Some ords) n bufsize = Inl (Fatal ''malloc''))"
proof -
  have null: "alloc_bufs (map (\<lambda>i. if i = k then None else Some (f i bufsize)) xs) = Inl (Fatal ''malloc'')"
    if "k \<in> set xs" for k :: nat and xs :: "nat list"
    using that by (induction xs) auto
  show ?thesis
    using assms alloc_bufs_Some [of "\<lambda>i. f i bufsize" "[0..<n]"] null
    by (auto simp: init_udpBuff_def pool_wf_def ready_count_def filter_empty_conv)
qed

text \<open>
  C4: when a buffer is ready and its claim is counted, \<^verbatim>\<open>fetchBuffer\<close> returns without waiting
  the ready buffer of the lowest order, with that buffer's recorded length; the slot is marked in
  use, the counter goes down by one and every other slot keeps its state. The orders must stay
  below the \<^verbatim>\<open>INT_MAX\<close> from which the search starts.
\<close>

theorem fetchBuffer_lowest:
  assumes "pool_wf s" "0 < NReady s" "0 < ready_count s" "\<forall>i<noBuffers s. orderNo s ! i < INT_MAX"
  shows "\<exists>i<noBuffers s. fetchBuffer [(\<lambda>p. p, keep_going)] (\<lambda>p. p) s =
      Inr (Some (int i, orderNo s ! i, dataLen s ! i),
           s\<lparr>orderNo := (orderNo s)[i := -1], NReady := NReady s - 1\<rparr>, []) \<and>
      0 < orderNo s ! i \<and> (\<forall>j<noBuffers s. 0 < orderNo s ! j \<longrightarrow> orderNo s ! i \<le> orderNo s ! j)"
proof -
  let ?s = "s\<lparr>NReady := NReady s - 1\<rparr>"
  have wf: "pool_wf ?s" using assms(1) by (simp add: pool_wf_def)
  from assms(2) have poll: "fetchBuffer_poll keep_going s = (Got, ?s)"
    by (simp add: fetchBuffer_poll_def)
  have "0 < ready_count ?s" using assms(3) by (simp add: ready_count_def)
  then obtain j where j: "j < noBuffers s" "0 < orderNo s ! j"
    using udp_pool.ready_pos [OF wf] by (auto simp: slot_status_def)
  from wf show ?thesis
  proof (cases rule: pick_slot_cases)
    case none
    with j assms(4) show ?thesis by force
  next
    case (some i)
    then show ?thesis
      by (intro exI [of _ i]) (simp add: fetchBuffer_def poll)
  qed
qed

theorem fetchBuffer_lowest_witness:
  "\<exists>s. fetchBuffer [(\<lambda>p. p, True)] (\<lambda>p. p)
      \<lparr>bufData = [[1], [2], [3]], dataLen = [4, 5, 6], orderNo = [9, 7, 0], NReady = 2, noBuffers = 3\<rparr>
     = Inr (Some (1, 7, 5), s)"
proof -
  let ?p = "\<lparr>bufData = [[1], [2], [3]], dataLen = [4, 5, 6], orderNo = [9, 7, 0], NReady = 2,
    noBuffers = 3\<rparr> :: udpBuffStruct"
  have all: "(\<forall>i<3. P i) \<longleftrightarrow> P 0 \<and> P (Suc 0) \<and> P 2" and ex: "(\<exists>i<3. P i) \<longleftrightarrow> P 0 \<or> P (Suc 0) \<or> P 2"
    for P :: "nat \<Rightarrow> bool"
    by (auto simp: numeral_3_eq_3 numeral_2_eq_2 less_Suc_eq)
  have "pool_wf ?p" "0 < ready_count ?p" "\<forall>i<noBuffers ?p. orderNo ?p ! i < INT_MAX"
    by (simp_all add: pool_wf_def ready_count_def all cconst)
  from fetchBuffer_lowest [OF this(1) _ this(2,3), of True] show ?thesis
    by (auto simp: all ex)
qed

section \<open>Consuming published buffers\<close>

text \<open>A pool as its consumer finds it: the recorded length of a ready buffer fits the buffer.\<close>

definition input_ok :: "udpBuffStruct \<Rightarrow> bool" where
  "input_ok p \<longleftrightarrow> pool_wf p \<and>
     (\<forall>i<noBuffers p. 0 < orderNo p ! i \<longrightarrow> dataLen p ! i \<le> length (bufData p ! i))"

text \<open>What the producer and the other threads respect while the consumer holds slots.\<close>

definition spares_input :: "held_move \<Rightarrow> bool" where
  "spares_input f \<longleftrightarrow> (\<forall>held p. input_ok p \<longrightarrow> input_ok (f held p) \<and> noBuffers (f held p) = noBuffers p \<and>
     (\<forall>i. int i \<in> set held \<longrightarrow> orderNo (f held p) ! i = orderNo p ! i \<and> bufData (f held p) ! i = bufData p ! i))"

lemma fetchBuffer_outcome:
  assumes "input_ok p" "\<forall>(e, kg)\<in>set es. \<forall>q. input_ok q \<longrightarrow> input_ok (e q)" "\<forall>q. input_ok q \<longrightarrow> input_ok (between q)"
  shows "waits_or (\<lambda>(r, p', es'). input_ok p' \<and> (case r of None \<Rightarrow> True | Some (index, ord, len) \<Rightarrow>
      \<exists>i<noBuffers p'. index = int i \<and> orderNo p' ! i = -1 \<and> len \<le> length (bufData p' ! i))) (fetchBuffer es between p)"
proof -
  have poll: "input_ok (snd (fetchBuffer_poll kg q))" if "input_ok q" for kg q
    using that by (auto simp: fetchBuffer_poll_def input_ok_def pool_wf_def)
  have w: "waits_or (\<lambda>(r, p', es'). input_ok p') (fetchBuffer_wait es p)"
    using assms(1,2)
  proof (induction es arbitrary: p)
    case Nil
    then show ?case by simp
  next
    case (Cons e es)
    obtain f kg where e: "e = (f, kg)" by fastforce
    obtain r q where q: "fetchBuffer_poll kg (f p) = (r, q)" by fastforce
    have "input_ok (f p)" using Cons.prems e by auto
    from poll [OF this, of kg] q have "input_ok q" by simp
    then show ?case using Cons.IH [of q] Cons.prems(2) e q by (cases r) auto
  qed
  have pick: "case fetchBuffer_pick q of (r, p') \<Rightarrow> input_ok p' \<and> (case r of None \<Rightarrow> True | Some (index, ord, len) \<Rightarrow>
      \<exists>i<noBuffers p'. index = int i \<and> orderNo p' ! i = -1 \<and> len \<le> length (bufData p' ! i))" if "input_ok q" for q
  proof -
    have "pool_wf q" using that by (simp add: input_ok_def)
    then show ?thesis
    proof (cases rule: pick_slot_cases)
      case none
      then show ?thesis using that by simp
    next
      case (some i)
      have "i < length (orderNo q)" using some(3) \<open>pool_wf q\<close> by (simp add: pool_wf_def)
      then show ?thesis using some(1,3,4) that by (auto simp: input_ok_def pool_wf_def nth_list_update)
    qed
  qed
  show ?thesis unfolding fetchBuffer_def
    by (rule waits_or_bind [OF w]) (use pick assms(3) in \<open>fastforce split: prod.splits\<close>)
qed

section \<open>The antenna table\<close>

text \<open>The first \<open>m\<close> of \<open>n\<close> entries hold distinct antenna numbers, the others are free.\<close>

definition ant_table :: "u32 list \<Rightarrow> nat \<Rightarrow> nat \<Rightarrow> bool" where
  "ant_table ants n m \<longleftrightarrow> n \<le> length ants \<and> m \<le> n \<and> distinct (take m ants) \<and>
     (\<forall>k<m. ants ! k \<noteq> -1) \<and> (\<forall>k. m \<le> k \<and> k < n \<longrightarrow> ants ! k = -1)"

lemma updateAntenna_find_from:
  "updateAntenna ants a nn =
     (let r = find_from (\<lambda>k. ants ! k = a \<or> ants ! k = -1) (unat nn) 0
      in if r = -1 then (-1, ants) else if ants ! nat r = a then (0, ants)
         else (1, ants[nat r := a]))"
proof -
  have "updateAntenna_loop ants a n i =
     (let r = find_from (\<lambda>k. ants ! k = a \<or> ants ! k = -1) n i
      in if r = -1 then (-1, ants) else if ants ! nat r = a then (0, ants)
         else (1, ants[nat r := a]))" for n i
  proof (induction ants a n i rule: updateAntenna_loop.induct)
    case (1 ants a n i)
    then show ?case
      by (subst updateAntenna_loop.simps, subst find_from.simps) (auto simp: Let_def)
  qed
  then show ?thesis by (simp add: updateAntenna_def)
qed

lemma updateAntenna_cases:
  assumes t: "ant_table ants (unat nn) m" and a: "a \<noteq> -1"
  obtains (known) k where "k < m" "ants ! k = a" "updateAntenna ants a nn = (0, ants)"
    | (added) "m < unat nn" "\<And>k. k < m \<Longrightarrow> ants ! k \<noteq> a" "updateAntenna ants a nn = (1, ants[m := a])"
    | (full) "m = unat nn" "\<And>k. k < m \<Longrightarrow> ants ! k \<noteq> a" "updateAntenna ants a nn = (-1, ants)"
proof (cases rule: find_fromE [of "\<lambda>k. ants ! k = a \<or> ants ! k = -1" "unat nn"])
  case none
  have "\<not> m < unat nn"
  proof
    assume "m < unat nn"
    with none(2) [of m] t show False by (auto simp: ant_table_def)
  qed
  with t have "m = unat nn" by (auto simp: ant_table_def)
  with none show thesis by (intro full) (auto simp: updateAntenna_find_from)
next
  case (some k)
  show thesis
  proof (cases "ants ! k = a")
    case True
    have "k < m"
    proof (rule ccontr)
      assume "\<not> k < m"
      with t some True a show False by (auto simp: ant_table_def)
    qed
    with some True show thesis by (intro known) (auto simp: updateAntenna_find_from)
  next
    case False
    with some have free: "ants ! k = -1" by blast
    have "\<not> k < m" using t free by (auto simp: ant_table_def)
    moreover have "\<not> m < k" using t some(2,4) by (fastforce simp: ant_table_def)
    ultimately have "k = m" by simp
    with some False show thesis by (intro added) (auto simp: updateAntenna_find_from)
  qed
qed

lemma getAntIndex_unique:
  assumes "ant_table ants (unat nn) m" "k < m"
  shows "getAntIndex ants (ants ! k) nn = int k"
proof (cases rule: find_fromE [of "\<lambda>j. ants ! j = ants ! k" "unat nn"])
  case none
  from none(2) [of k] assms show ?thesis by (simp add: ant_table_def)
next
  case (some j)
  have "j \<le> k" using some(4) [of k] by (meson not_le)
  with some assms have "take m ants ! j = take m ants ! k" "j < m" by auto
  moreover have "m \<le> length ants" "distinct (take m ants)" using assms by (auto simp: ant_table_def)
  ultimately have "j = k" using assms(2) nth_eq_iff_index_eq [of "take m ants" j k] by simp
  with some show ?thesis by (simp add: getAntIndex_find_from)
qed

lemma ant_table_add:
  assumes "ant_table ants n m" "m < n" "a \<noteq> -1" "\<And>k. k < m \<Longrightarrow> ants ! k \<noteq> a"
  shows "ant_table (ants[m := a]) n (Suc m)"
proof -
  from assms have "take (Suc m) (ants[m := a]) = take m ants @ [a]"
    by (simp add: ant_table_def take_Suc_conv_app_nth)
  moreover have "a \<notin> set (take m ants)"
    using assms by (auto simp: in_set_conv_nth ant_table_def)
  ultimately show ?thesis using assms by (auto simp: ant_table_def nth_list_update less_Suc_eq)
qed

lemma getAntIndex_range:
  assumes "getAntIndex ants a nn \<noteq> -1"
  shows "0 \<le> getAntIndex ants a nn" "nat (getAntIndex ants a nn) < unat nn"
    "ants ! nat (getAntIndex ants a nn) = a"
  using assms find_from_range [of "\<lambda>k. ants ! k = a" "unat nn" 0]
  unfolding getAntIndex_find_from by auto

text \<open>
  C5: \<^verbatim>\<open>updateAntenna\<close> keeps the antenna table well-formed (distinct numbers, then free
  entries); it returns -1, and changes nothing, exactly when the table is full and the antenna is
  not in it; otherwise \<^verbatim>\<open>getAntIndex\<close> afterwards finds the antenna, and every antenna that was
  in the table keeps its index.
\<close>

theorem updateAntenna_table:
  assumes "ant_table ants (unat nn) m" "a \<noteq> -1" "updateAntenna ants a nn = (rc, ants')"
  shows "(rc = -1 \<longleftrightarrow> m = unat nn \<and> (\<forall>k<m. ants ! k \<noteq> a)) \<and>
    (\<exists>m'. ant_table ants' (unat nn) m' \<and> m \<le> m') \<and> (rc = -1 \<longrightarrow> ants' = ants) \<and>
    (rc \<noteq> -1 \<longrightarrow> (\<exists>k<unat nn. getAntIndex ants' a nn = int k \<and> ants' ! k = a)) \<and>
    (\<forall>k<m. getAntIndex ants' (ants ! k) nn = int k)"
  using assms(1,2)
proof (cases rule: updateAntenna_cases)
  case (known k)
  then have r: "rc = 0" "ants' = ants" using assms(3) by auto
  have "m \<le> unat nn" using assms(1) by (simp add: ant_table_def)
  with known have "\<exists>k<unat nn. getAntIndex ants' a nn = int k \<and> ants' ! k = a"
    using getAntIndex_unique [OF assms(1) known(1)] r by (intro exI [of _ k]) auto
  with known r assms(1) show ?thesis
    using getAntIndex_unique [OF assms(1)] by auto
next
  case added
  then have r: "rc = 1" "ants' = ants[m := a]" using assms(3) by auto
  note t = ant_table_add [OF assms(1) added(1) assms(2) added(2)]
  have len: "m < length ants" using assms(1) added(1) by (simp add: ant_table_def)
  have "getAntIndex ants' (ants ! k) nn = int k" if "k < m" for k
    using getAntIndex_unique [OF t, of k] that r by simp
  moreover have "getAntIndex ants' a nn = int m" "ants' ! m = a"
    using getAntIndex_unique [OF t, of m] len r by simp_all
  ultimately show ?thesis
    using r t added by (auto intro!: exI [of _ "Suc m"])
next
  case full
  then have r: "rc = -1" "ants' = ants" using assms(3) by auto
  with full assms(1) show ?thesis
    using getAntIndex_unique [OF assms(1)] by auto
qed

theorem updateAntenna_table_witness:
  "\<exists>k<unat (2 :: u32). getAntIndex (snd (updateAntenna [7, -1] 9 2)) 9 2 = int k"
proof -
  have t: "ant_table [7, -1] (unat (2 :: u32)) 1"
    by (auto simp: ant_table_def less_Suc_eq nth_Cons split: nat.splits)
  obtain rc ants' where u: "updateAntenna [7, -1] 9 2 = (rc, ants')" by fastforce
  have "rc \<noteq> -1" using updateAntenna_table [OF t _ u] by simp
  then show ?thesis using updateAntenna_table [OF t _ u] u by auto
qed

end
