(* ===== verification/Pool_System.thy ===== *)
theory Pool_System
  imports Common
begin

text \<open>
  The threads of the recorder on one buffer pool, as a step relation: a step is one critical
  section of common.c by one thread, or a copy into a buffer. A thread may write to and return only
  a slot it holds, records a length that fits the buffer and a positive order, and may enter the
  second critical section of \<^verbatim>\<open>fetchBuffer\<close> only after the first. Which thread moves, and how
  the steps interleave, is not determined.
\<close>

section \<open>The system\<close>

record pool_sys =
  pool :: udpBuffStruct
  held :: "nat \<Rightarrow> nat set"
  claimed :: "nat set"

inductive pool_step :: "nat \<Rightarrow> pool_sys \<Rightarrow> pool_sys \<Rightarrow> bool" where
  acquire: "fetchEmptyBuffer (pool S) = (0, int i, p') \<Longrightarrow>
     pool_step t S (S\<lparr>pool := p', held := (held S)(t := insert i (held S t))\<rparr>)"
| fill: "i \<in> held S t \<Longrightarrow> write_slot i off src (pool S) = Inr p' \<Longrightarrow> pool_step t S (S\<lparr>pool := p'\<rparr>)"
| publish: "i \<in> held S t \<Longrightarrow> 0 < ord \<Longrightarrow> ord < INT_MAX \<Longrightarrow> len \<le> length (bufData (pool S) ! i) \<Longrightarrow>
     returnBuffer (pool S) (int i) ord len = Inr p' \<Longrightarrow>
     pool_step t S (S\<lparr>pool := p', held := (held S)(t := held S t - {i})\<rparr>)"
| recycle: "i \<in> held S t \<Longrightarrow> returnEmptyBuffer (pool S) (int i) = Inr p' \<Longrightarrow>
     pool_step t S (S\<lparr>pool := p', held := (held S)(t := held S t - {i})\<rparr>)"
| claim: "t \<notin> claimed S \<Longrightarrow> fetchBuffer_poll keep_going (pool S) = (Got, p') \<Longrightarrow>
     pool_step t S (S\<lparr>pool := p', claimed := insert t (claimed S)\<rparr>)"
| pick: "t \<in> claimed S \<Longrightarrow> fetchBuffer_pick (pool S) = (Some (int i, ord, len), p') \<Longrightarrow>
     pool_step t S (S\<lparr>pool := p', held := (held S)(t := insert i (held S t)),
                   claimed := claimed S - {t}\<rparr>)"
| pick_none: "t \<in> claimed S \<Longrightarrow> fetchBuffer_pick (pool S) = (None, p') \<Longrightarrow>
     pool_step t S (S\<lparr>pool := p', claimed := claimed S - {t}\<rparr>)"

inductive pool_reach :: "pool_sys \<Rightarrow> bool" where
  start: "init_udpBuff 0 0 True (\<lambda>i sz. Some (f i sz)) (Some lens) (Some ords) n bufsize = Inr (1, p) \<Longrightarrow>
     length lens = n \<Longrightarrow> length ords = n \<Longrightarrow>
     pool_reach \<lparr>pool = p, held = (\<lambda>_. {}), claimed = {}\<rparr>"
| step: "pool_reach S \<Longrightarrow> pool_step t S T \<Longrightarrow> pool_reach T"

section \<open>The invariant\<close>

text \<open>
  The slots marked in use are exactly the held ones, no slot has two holders, and the counter of
  ready buffers plus the threads between the two critical sections is the number of ready slots.
\<close>

definition exclusive :: "(nat \<Rightarrow> nat set) \<Rightarrow> bool" where
  "exclusive h \<longleftrightarrow> (\<forall>t t' i. i \<in> h t \<longrightarrow> i \<in> h t' \<longrightarrow> t = t')"

definition is_held :: "(nat \<Rightarrow> nat set) \<Rightarrow> nat \<Rightarrow> bool" where
  "is_held h i \<longleftrightarrow> (\<exists>t. i \<in> h t)"

lemma exclusive_insert:
  "exclusive h \<Longrightarrow> \<not> is_held h i \<Longrightarrow> exclusive (h(t := insert i (h t)))"
  unfolding exclusive_def is_held_def by (metis fun_upd_apply insertE)

lemma exclusive_remove: "exclusive h \<Longrightarrow> exclusive (h(t := h t - {i}))"
  unfolding exclusive_def by (metis DiffD1 fun_upd_apply)

lemma is_held_insert [simp]: "is_held (h(t := insert i (h t))) j \<longleftrightarrow> j = i \<or> is_held h j"
  unfolding is_held_def by (metis fun_upd_apply insertCI insertE)

lemma is_held_remove:
  "exclusive h \<Longrightarrow> i \<in> h t \<Longrightarrow> is_held (h(t := h t - {i})) j \<longleftrightarrow> j \<noteq> i \<and> is_held h j"
  unfolding is_held_def exclusive_def by (metis Diff_iff fun_upd_apply insertE singletonI emptyE)

definition owners_inv :: "pool_sys \<Rightarrow> bool" where
  "owners_inv S \<longleftrightarrow> pool_wf (pool S) \<and> finite (claimed S) \<and>
     (\<forall>i<noBuffers (pool S). slot_status (pool S) i = -1 \<longleftrightarrow> is_held (held S) i) \<and>
     (\<forall>i. is_held (held S) i \<longrightarrow> i < noBuffers (pool S)) \<and> exclusive (held S) \<and>
     (\<forall>i<noBuffers (pool S). slot_status (pool S) i < INT_MAX) \<and>
     NReady (pool S) + card (claimed S) = ready_count (pool S)"

lemma acquire_slot_fetch: "fetchEmptyBuffer s = (0, int i, p') \<Longrightarrow> acquire_slot s = Some (i, p')"
  by (simp add: acquire_slot_def)

lemma pick_slot_fetch:
  "fetchBuffer_pick s = (Some (int i, ord, len), p') \<Longrightarrow> pick_slot s = (Some (i, ord, len), p')"
  "fetchBuffer_pick s = (None, p') \<Longrightarrow> pick_slot s = (None, p')"
  by (simp_all add: pick_slot_def)

lemma claim_slot_fetch: "fetchBuffer_poll kg s = (Got, p') \<Longrightarrow> claim_slot s = Some p'"
  by (auto simp: claim_slot_def fetchBuffer_poll_def split: if_splits)

lemma held_in_use: "owners_inv S \<Longrightarrow> is_held (held S) i \<Longrightarrow>
    i < noBuffers (pool S) \<and> slot_status (pool S) i = -1"
  by (auto simp: owners_inv_def)

lemma is_heldI: "i \<in> h t \<Longrightarrow> is_held h i"
  by (auto simp: is_held_def)

lemma inv_acquire:
  assumes "owners_inv S" "acquire_slot (pool S) = Some (i, p')"
  shows "owners_inv (S\<lparr>pool := p', held := (held S)(t := insert i (held S t))\<rparr>)"
proof -
  from assms have "pool_wf (pool S)" by (simp add: owners_inv_def)
  note a = udp_pool.acquire_Some [OF this assms(2)]
  have "\<not> is_held (held S) i" using held_in_use [OF assms(1), of i] a by auto
  with assms(1) a show ?thesis by (auto simp: owners_inv_def cconst exclusive_insert)
qed

lemma inv_publish:
  assumes "owners_inv S" "i \<in> held S t" "0 < ord" "ord < INT_MAX" "publish_slot (pool S) i ord len = Inr p'"
  shows "owners_inv (S\<lparr>pool := p', held := (held S)(t := held S t - {i})\<rparr>)"
proof -
  from assms have "pool_wf (pool S)" by (simp add: owners_inv_def)
  with udp_pool.publish_ok [OF this, of i ord len] held_in_use [OF assms(1) is_heldI] assms
  have p: "pool_wf p'" "noBuffers p' = noBuffers (pool S)" "NReady p' = Suc (NReady (pool S))"
    "ready_count p' = Suc (ready_count (pool S))"
    "\<And>j. slot_status p' j = (if j = i then ord else slot_status (pool S) j)" by auto
  from assms(1) have "exclusive (held S)" by (simp add: owners_inv_def)
  with assms(1,3,4) p show ?thesis
    by (auto simp: owners_inv_def exclusive_remove is_held_remove [where h = "held S", OF _ assms(2)])
qed

lemma inv_recycle:
  assumes "owners_inv S" "i \<in> held S t" "recycle_slot (pool S) i = Inr p'"
  shows "owners_inv (S\<lparr>pool := p', held := (held S)(t := held S t - {i})\<rparr>)"
proof -
  from assms have "pool_wf (pool S)" by (simp add: owners_inv_def)
  with udp_pool.recycle_ok [OF this, of i] held_in_use [OF assms(1) is_heldI] assms
  have p: "pool_wf p'" "noBuffers p' = noBuffers (pool S)" "NReady p' = NReady (pool S)"
    "ready_count p' = ready_count (pool S)"
    "\<And>j. slot_status p' j = (if j = i then 0 else slot_status (pool S) j)" by auto
  from assms(1) have "exclusive (held S)" by (simp add: owners_inv_def)
  with assms(1) p show ?thesis
    by (auto simp: owners_inv_def exclusive_remove is_held_remove [where h = "held S", OF _ assms(2)] cconst)
qed

lemma inv_claim:
  assumes "owners_inv S" "t \<notin> claimed S" "claim_slot (pool S) = Some p'"
  shows "owners_inv (S\<lparr>pool := p', claimed := insert t (claimed S)\<rparr>)"
proof -
  from assms have "pool_wf (pool S)" by (simp add: owners_inv_def)
  from udp_pool.claim_Some [OF this assms(3)] assms(1,2) show ?thesis
    by (auto simp: owners_inv_def)
qed

lemma inv_pick_succeeds:
  assumes "owners_inv S" "t \<in> claimed S"
  shows "\<exists>i ord len p'. pick_slot (pool S) = (Some (i, ord, len), p')"
proof (rule udp_pool.pick_succeeds)
  show "pool_wf (pool S)" using assms by (simp add: owners_inv_def)
  have "0 < card (claimed S)" using assms by (auto simp: owners_inv_def card_gt_0_iff)
  then show "0 < ready_count (pool S)" using assms by (simp add: owners_inv_def)
qed (use assms in \<open>simp add: owners_inv_def\<close>)

lemma inv_pick:
  assumes "owners_inv S" "t \<in> claimed S" "pick_slot (pool S) = (Some (i, ord, len), p')"
  shows "owners_inv (S\<lparr>pool := p', held := (held S)(t := insert i (held S t)), claimed := claimed S - {t}\<rparr>)"
proof -
  from assms have "pool_wf (pool S)" by (simp add: owners_inv_def)
  note p = udp_pool.pick_Some [OF this assms(3)]
  have "\<not> is_held (held S) i" using held_in_use [OF assms(1), of i] p by auto
  moreover have "Suc (card (claimed S - {t})) = card (claimed S)"
    by (rule card_Suc_Diff1) (use assms in \<open>auto simp: owners_inv_def\<close>)
  ultimately show ?thesis using assms(1) p by (auto simp: owners_inv_def cconst exclusive_insert)
qed

lemma inv_fill:
  assumes "owners_inv S" "write_slot i off src (pool S) = Inr p'"
  shows "owners_inv (S\<lparr>pool := p'\<rparr>)"
  using assms(1) write_slot_frame(1-5) [OF assms(2)]
  by (simp add: owners_inv_def pool_wf_def slot_status_def ready_count_def)

lemma pool_step_owners: "pool_step t S T \<Longrightarrow> owners_inv S \<Longrightarrow> owners_inv T"
proof (induction rule: pool_step.induct)
  case (pick_none t S p')
  then show ?case using inv_pick_succeeds [of S t] pick_slot_fetch(2) by fastforce
qed (auto intro: inv_acquire inv_publish inv_recycle inv_claim inv_pick inv_fill acquire_slot_fetch
      claim_slot_fetch pick_slot_fetch simp: publish_slot_def recycle_slot_def)

text \<open>
  The parts of the pool a step leaves alone: the number and the sizes of the buffers, and all of a
  slot that some other thread holds.
\<close>

definition frames :: "nat set \<Rightarrow> udpBuffStruct \<Rightarrow> udpBuffStruct \<Rightarrow> bool" where
  "frames H p q \<longleftrightarrow> noBuffers q = noBuffers p \<and> map length (bufData q) = map length (bufData p) \<and>
     (\<forall>i\<in>H. orderNo q ! i = orderNo p ! i \<and> bufData q ! i = bufData p ! i \<and> dataLen q ! i = dataLen p ! i)"

lemma frames_refl: "frames H p p"
  by (simp add: frames_def)

lemma frames_trans: "frames H p q \<Longrightarrow> frames H q r \<Longrightarrow> frames H p r"
  by (simp add: frames_def)

lemma frames_order: "i \<notin> H \<Longrightarrow> frames H p (p\<lparr>orderNo := (orderNo p)[i := v]\<rparr>)"
  unfolding frames_def by simp (metis nth_list_update_neq)

lemma write_slot_lengths: "write_slot i off src p = Inr q \<Longrightarrow> map length (bufData q) = map length (bufData p)"
  by (auto elim!: write_slot_InrE dest!: blit_InrD simp: list_eq_iff_nth_eq nth_list_update)

lemma fetchEmptyBuffer_zero:
  assumes "pool_wf s" "fetchEmptyBuffer s = (0, int i, p')"
  shows "p' = s\<lparr>orderNo := (orderNo s)[i := -1]\<rparr>" "i < noBuffers s" "orderNo s ! i = 0"
  using assms(1) by (cases rule: acquire_slot_cases; use assms(2) in simp)+

lemma fetchBuffer_pick_Some:
  assumes "pool_wf s" "fetchBuffer_pick s = (Some (int i, ord, len), p')"
  shows "p' = s\<lparr>orderNo := (orderNo s)[i := -1]\<rparr>" "i < noBuffers s" "ord = orderNo s ! i" "0 < ord"
    "len = dataLen s ! i"
  using assms(1) by (cases rule: pick_slot_cases; use assms(2) in auto)+

lemma fetchBuffer_pick_None:
  assumes "pool_wf s" "fetchBuffer_pick s = (None, p')"
  shows "p' = s"
  using assms(1) by (cases rule: pick_slot_cases) (use assms(2) in auto)

lemma returnBuffer_InrD:
  assumes "returnBuffer s (int i) ord len = Inr p'"
  shows "p' = s\<lparr>orderNo := (orderNo s)[i := ord], dataLen := (dataLen s)[i := len], NReady := Suc (NReady s)\<rparr>"
    "orderNo s ! i = -1" "i < length (orderNo s)"
  using assms by (auto simp: returnBuffer_def split: if_splits)

lemma returnEmptyBuffer_InrD:
  assumes "returnEmptyBuffer s (int i) = Inr p'"
  shows "p' = s\<lparr>orderNo := (orderNo s)[i := 0]\<rparr>" "orderNo s ! i = -1" "i < length (orderNo s)"
  using assms by (auto simp: returnEmptyBuffer_def split: if_splits)

lemma fetchBuffer_poll_Got: "fetchBuffer_poll kg s = (Got, p') \<Longrightarrow> p' = s\<lparr>NReady := NReady s - 1\<rparr> \<and> 0 < NReady s"
  by (auto simp: fetchBuffer_poll_def split: if_splits)

lemma pool_step_frames:
  assumes "pool_step t S T" "owners_inv S" "w \<noteq> t"
  shows "frames (held S w) (pool S) (pool T)" "held T w = held S w" "w \<in> claimed T \<longleftrightarrow> w \<in> claimed S"
proof -
  have wf: "pool_wf (pool S)" using assms(2) by (simp add: owners_inv_def)
  have mine: "orderNo (pool S) ! i = -1" if "i \<in> held S w" for i
    using held_in_use [OF assms(2) is_heldI] that by (simp add: slot_status_def)
  have yours: "i \<notin> held S w" if "i \<in> held S t" for i
    using that assms(2,3) by (auto simp: owners_inv_def exclusive_def)
  from assms(1) show "frames (held S w) (pool S) (pool T)"
  proof cases
    case (acquire i p')
    have "i \<notin> held S w" using fetchEmptyBuffer_zero(3) [OF wf acquire(2)] mine by fastforce
    then show ?thesis using acquire(1) fetchEmptyBuffer_zero(1) [OF wf acquire(2)] frames_order by simp
  next
    case (fill i off src p')
    then show ?thesis using yours write_slot_frame [OF fill(3)] write_slot_lengths [OF fill(3)]
      by (auto simp: frames_def) metis
  next
    case (publish i ord len p')
    then show ?thesis using yours returnBuffer_InrD [OF publish(6)]
      by (auto simp: frames_def) (metis nth_list_update_neq)+
  next
    case (recycle i p')
    then show ?thesis using yours returnEmptyBuffer_InrD(1) [OF recycle(3)] frames_order by simp
  next
    case (claim kg p')
    then show ?thesis using fetchBuffer_poll_Got [OF claim(3)] by (simp add: frames_def)
  next
    case (pick i ord len p')
    have "i \<notin> held S w" using fetchBuffer_pick_Some(3,4) [OF wf pick(3)] mine by fastforce
    then show ?thesis using pick(1) fetchBuffer_pick_Some(1) [OF wf pick(3)] frames_order by simp
  next
    case (pick_none p')
    then show ?thesis using fetchBuffer_pick_None [OF wf pick_none(3)] by (simp add: frames_def)
  qed
  from assms(1,3) show "held T w = held S w" "w \<in> claimed T \<longleftrightarrow> w \<in> claimed S" by (cases; simp)+
qed

lemma input_ok_order: "input_ok p \<Longrightarrow> v \<le> 0 \<Longrightarrow> input_ok (p\<lparr>orderNo := (orderNo p)[i := v]\<rparr>)"
  by (auto simp: input_ok_def pool_wf_def) (metis leD nth_list_update nth_list_update_neq)

lemma pool_step_input:
  assumes "pool_step t S T" "input_ok (pool S)"
  shows "input_ok (pool T)"
proof -
  have wf: "pool_wf (pool S)" using assms(2) by (simp add: input_ok_def)
  from assms(1) show ?thesis
  proof cases
    case (acquire i p')
    then show ?thesis using fetchEmptyBuffer_zero(1) [OF wf acquire(2)] input_ok_order [OF assms(2)] by simp
  next
    case (fill i off src p')
    have "length (bufData p' ! j) = length (bufData (pool S) ! j)" for j
      using write_slot_frame(6,7) [OF fill(3)] by (cases "j = i") auto
    then show ?thesis using fill(1) write_slot_frame(1-5) [OF fill(3)] assms(2) by (simp add: input_ok_def pool_wf_def)
  next
    case (publish i ord len p')
    then show ?thesis using returnBuffer_InrD [OF publish(6)] assms(2)
      by (auto simp: input_ok_def pool_wf_def nth_list_update)
  next
    case (recycle i p')
    then show ?thesis using returnEmptyBuffer_InrD [OF recycle(3)] input_ok_order [OF assms(2)] by simp
  next
    case (claim kg p')
    then show ?thesis using fetchBuffer_poll_Got [OF claim(3)] assms(2) by (simp add: input_ok_def pool_wf_def)
  next
    case (pick i ord len p')
    then show ?thesis using fetchBuffer_pick_Some(1) [OF wf pick(3)] input_ok_order [OF assms(2)] by simp
  next
    case (pick_none p')
    then show ?thesis using fetchBuffer_pick_None [OF wf pick_none(3)] assms(2) by simp
  qed
qed

text \<open>The invariant of the system: the books agree, and a ready buffer's length fits the buffer.\<close>

definition pool_inv :: "pool_sys \<Rightarrow> bool" where
  "pool_inv S \<longleftrightarrow> owners_inv S \<and> input_ok (pool S)"

lemma pool_step_inv: "pool_step t S T \<Longrightarrow> pool_inv S \<Longrightarrow> pool_inv T"
  using pool_step_owners pool_step_input by (auto simp: pool_inv_def)

lemma pool_start_inv:
  assumes "init_udpBuff 0 0 True (\<lambda>i sz. Some (f i sz)) (Some lens) (Some ords) n bufsize = Inr (1, p)"
    "length lens = n" "length ords = n"
  shows "pool_inv \<lparr>pool = p, held = (\<lambda>_. {}), claimed = {}\<rparr>"
  using assms alloc_bufs_Some [of "\<lambda>i. f i bufsize" "[0..<n]"]
  by (auto simp: init_udpBuff_def pool_inv_def owners_inv_def pool_wf_def slot_status_def ready_count_def
      filter_empty_conv cconst is_held_def exclusive_def input_ok_def)

lemma pool_reach_inv: "pool_reach S \<Longrightarrow> pool_inv S"
proof (induction rule: pool_reach.induct)
  case (start f lens ords n bufsize p)
  then show ?case by (rule pool_start_inv)
next
  case (step S t T)
  then show ?case using pool_step_inv by blast
qed

section \<open>Safety of every interleaving\<close>

text \<open>
  C2: in every state the threads can reach on a pool, in any interleaving of their critical
  sections: a buffer has at most one holder; returning a held buffer, full or empty, always
  succeeds, so the \<^verbatim>\<open>data integrity!\<close> exit is never taken; a thread that was promised a ready
  buffer by the counter finds one; and the counter plus the outstanding promises is the number of
  ready buffers.
\<close>

theorem pool_threads_safe:
  assumes "pool_reach S"
  shows "(\<forall>t t' i. i \<in> held S t \<and> i \<in> held S t' \<longrightarrow> t = t') \<and>
    (\<forall>t. \<forall>i\<in>held S t. \<forall>ord len. (\<exists>p'. returnBuffer (pool S) (int i) ord len = Inr p') \<and>
        (\<exists>p'. returnEmptyBuffer (pool S) (int i) = Inr p')) \<and>
    (\<forall>t\<in>claimed S. \<exists>i ord len p'. fetchBuffer_pick (pool S) = (Some (int i, ord, len), p') \<and>
        (\<forall>j<noBuffers (pool S). 0 < orderNo (pool S) ! j \<longrightarrow> ord \<le> orderNo (pool S) ! j)) \<and>
    NReady (pool S) + card (claimed S) = ready_count (pool S)"
proof -
  have inv: "owners_inv S" using pool_reach_inv [OF assms] by (simp add: pool_inv_def)
  then have wf: "pool_wf (pool S)" by (simp add: owners_inv_def)
  have returns: "(\<exists>p'. returnBuffer (pool S) (int i) ord len = Inr p') \<and>
      (\<exists>p'. returnEmptyBuffer (pool S) (int i) = Inr p')" if "i \<in> held S t" for t i ord len
    using held_in_use [OF inv is_heldI [of i "held S" t, OF that]] wf
    by (simp add: returnBuffer_def returnEmptyBuffer_def pool_wf_def slot_status_def)
  have picks: "\<exists>i ord len p'. fetchBuffer_pick (pool S) = (Some (int i, ord, len), p') \<and>
      (\<forall>j<noBuffers (pool S). 0 < orderNo (pool S) ! j \<longrightarrow> ord \<le> orderNo (pool S) ! j)"
    if "t \<in> claimed S" for t
    using wf
  proof (cases rule: pick_slot_cases)
    case none
    with inv_pick_succeeds [OF inv that] show ?thesis by simp
  next
    case (some i)
    then show ?thesis by blast
  qed
  from inv have "NReady (pool S) + card (claimed S) = ready_count (pool S)"
    "\<forall>t t' i. i \<in> held S t \<and> i \<in> held S t' \<longrightarrow> t = t'"
    unfolding owners_inv_def exclusive_def by blast+
  with returns picks show ?thesis by blast
qed

lemma pool_reach_example:
  "pool_reach \<lparr>pool = \<lparr>bufData = [[1]], dataLen = [0], orderNo = [-1], NReady = 0, noBuffers = 1\<rparr>,
     held = (\<lambda>_. {})(5 := {0}), claimed = {}\<rparr>"
proof -
  let ?p = "\<lparr>bufData = [[1]], dataLen = [0], orderNo = [0], NReady = 0, noBuffers = 1\<rparr> :: udpBuffStruct"
  have "pool_reach \<lparr>pool = ?p, held = (\<lambda>_. {}), claimed = {}\<rparr>"
    by (rule pool_reach.start [of "\<lambda>_ sz. replicate sz 1" "[0]" "[3]" 1 1]) (simp_all add: init_udpBuff_def)
  moreover have "fetchEmptyBuffer ?p = (0, int 0, ?p\<lparr>orderNo := [-1]\<rparr>)"
    by (simp add: fetchEmptyBuffer_def findEmpty_def findEmpty_loop.simps)
  ultimately have "pool_reach (\<lparr>pool = ?p, held = (\<lambda>_. {}), claimed = {}\<rparr>
      \<lparr>pool := ?p\<lparr>orderNo := [-1]\<rparr>, held := (\<lambda>_. {})(5 := insert 0 {})\<rparr>)"
    using pool_reach.step pool_step.acquire
      [of "\<lparr>pool = ?p, held = (\<lambda>_. {}), claimed = {}\<rparr>" 0 "?p\<lparr>orderNo := [-1]\<rparr>" 5] by simp
  then show ?thesis by simp
qed

theorem pool_threads_safe_witness:
  "\<exists>p'. returnBuffer \<lparr>bufData = [[1]], dataLen = [0], orderNo = [-1], NReady = 0, noBuffers = 1\<rparr>
      (int 0) 1 8200 = Inr p'"
proof -
  note safe = pool_threads_safe [OF pool_reach_example, THEN conjunct2, THEN conjunct1, rule_format]
  from safe [of 0 5 1 8200] show ?thesis by simp
qed

section \<open>Runs, and what the other threads leave alone\<close>

text \<open>A run of the system in which only the threads of \<open>A\<close> move.\<close>

inductive pool_run :: "nat set \<Rightarrow> pool_sys \<Rightarrow> pool_sys \<Rightarrow> bool" for A where
  stay: "pool_run A S S"
| move: "pool_run A S T \<Longrightarrow> t \<in> A \<Longrightarrow> pool_step t T U \<Longrightarrow> pool_run A S U"

lemma pool_run_trans: "pool_run A T U \<Longrightarrow> pool_run A S T \<Longrightarrow> pool_run A S U"
  by (induction rule: pool_run.induct) (auto intro: pool_run.move)

lemma pool_run_mono: "pool_run A S T \<Longrightarrow> A \<subseteq> B \<Longrightarrow> pool_run B S T"
  by (induction rule: pool_run.induct) (auto intro: pool_run.intros)

lemma pool_run_step: "pool_step t S T \<Longrightarrow> t \<in> A \<Longrightarrow> pool_run A S T"
  using pool_run.move [OF pool_run.stay] .

lemma pool_run_inv: "pool_run A S T \<Longrightarrow> pool_inv S \<Longrightarrow> pool_inv T"
  by (induction rule: pool_run.induct) (auto intro: pool_step_inv)

lemma pool_run_reach: "pool_run A S T \<Longrightarrow> pool_reach S \<Longrightarrow> pool_reach T"
  by (induction rule: pool_run.induct) (auto intro: pool_reach.step)

lemma pool_run_others:
  assumes "pool_run A S T" "w \<notin> A" "pool_inv S"
  shows "frames (held S w) (pool S) (pool T) \<and> held T w = held S w \<and> (w \<in> claimed T \<longleftrightarrow> w \<in> claimed S)"
  using assms
proof (induction rule: pool_run.induct)
  case (stay S)
  then show ?case by (simp add: frames_refl)
next
  case (move S T t U)
  then have "w \<noteq> t" "owners_inv T" using pool_run_inv [OF move(1)] by (auto simp: pool_inv_def)
  note f = pool_step_frames [OF move(3) this(2) this(1)]
  then show ?case using move(4) [OF move.prems] frames_trans by metis
qed

section \<open>A thread cannot tell the others apart\<close>

text \<open>
  Two states that look the same to thread \<open>w\<close>: the same pool, the same slots of its own, the same
  claim. Whatever the others can do to the pool in the one, they can do in the other, although the
  remaining slots may be held by different threads.
\<close>

definition alike :: "nat \<Rightarrow> pool_sys \<Rightarrow> pool_sys \<Rightarrow> bool" where
  "alike w S S' \<longleftrightarrow> pool S' = pool S \<and> held S' w = held S w \<and> (w \<in> claimed S' \<longleftrightarrow> w \<in> claimed S)"

lemma alike_holder:
  assumes "alike w S S'" "pool_inv S" "pool_inv S'" "i \<in> held S t" "t \<noteq> w"
  obtains t' where "t' \<noteq> w" "i \<in> held S' t'"
proof -
  have "i < noBuffers (pool S)" "slot_status (pool S) i = -1"
    using held_in_use [OF _ is_heldI [of i "held S" t]] assms(2,4) by (simp_all add: pool_inv_def)
  then obtain t' where t': "i \<in> held S' t'"
    using assms(1,3) by (auto simp: alike_def pool_inv_def owners_inv_def is_held_def)
  have "i \<notin> held S w" using assms(2,4,5) by (auto simp: pool_inv_def owners_inv_def exclusive_def)
  then have "t' \<noteq> w" using t' assms(1) by (auto simp: alike_def)
  then show thesis using t' by (rule that)
qed

lemma alike_claimer:
  assumes "alike w S S'" "pool_inv S" "pool_inv S'" "t \<in> claimed S" "t \<noteq> w"
  obtains t' where "t' \<noteq> w" "t' \<in> claimed S'"
proof -
  have fin: "finite (claimed S)" "finite (claimed S')"
    and "card (claimed S) = card (claimed S')"
    using assms(1-3) unfolding alike_def pool_inv_def owners_inv_def by auto
  then have "card (claimed S - {w}) = card (claimed S' - {w})"
    using assms(1) by (simp add: alike_def card_Diff_singleton_if)
  moreover have "card (claimed S - {w}) \<noteq> 0" using assms(4,5) fin by auto
  ultimately have "claimed S' - {w} \<noteq> {}" by (metis card.empty)
  then show thesis using that by blast
qed

lemma alike_step:
  assumes "pool_step t S T" "t \<noteq> w" "alike w S S'" "pool_inv S" "pool_inv S'"
  shows "\<exists>t' T'. t' \<noteq> w \<and> pool_step t' S' T' \<and> alike w T T'"
proof -
  have p: "pool S' = pool S" using assms(3) by (simp add: alike_def)
  obtain u where u: "u \<noteq> w" "u \<notin> claimed S'"
    using ex_new_if_finite [of "insert w (claimed S')"] assms(5)
    by (auto simp: pool_inv_def owners_inv_def)
  from assms(1) show ?thesis
  proof cases
    case (acquire i p')
    show ?thesis using pool_step.acquire [of S' i p' t] acquire assms(2,3) p
      by (intro exI [of _ t]) (auto simp: alike_def)
  next
    case (fill i off src p')
    obtain t' where "t' \<noteq> w" "i \<in> held S' t'" using alike_holder [OF assms(3-5) fill(2) assms(2)] .
    then show ?thesis using pool_step.fill [of i S' t' off src p'] fill assms(3) p
      by (intro exI [of _ t']) (auto simp: alike_def)
  next
    case (publish i ord len p')
    obtain t' where "t' \<noteq> w" "i \<in> held S' t'" using alike_holder [OF assms(3-5) publish(2) assms(2)] .
    then show ?thesis using pool_step.publish [of i S' t' ord len p'] publish assms(2,3) p
      by (intro exI [of _ t']) (auto simp: alike_def)
  next
    case (recycle i p')
    obtain t' where "t' \<noteq> w" "i \<in> held S' t'" using alike_holder [OF assms(3-5) recycle(2) assms(2)] .
    then show ?thesis using pool_step.recycle [of i S' t' p'] recycle assms(2,3) p
      by (intro exI [of _ t']) (auto simp: alike_def)
  next
    case (claim kg p')
    then show ?thesis using pool_step.claim [of u S' kg p'] u assms(2,3) p
      by (intro exI [of _ u]) (auto simp: alike_def)
  next
    case (pick i ord len p')
    obtain t' where "t' \<noteq> w" "t' \<in> claimed S'" using alike_claimer [OF assms(3-5) pick(2) assms(2)] .
    then show ?thesis using pool_step.pick [of t' S' i ord len p'] pick assms(2,3) p
      by (intro exI [of _ t']) (auto simp: alike_def)
  next
    case (pick_none p')
    obtain t' where "t' \<noteq> w" "t' \<in> claimed S'" using alike_claimer [OF assms(3-5) pick_none(2) assms(2)] .
    then show ?thesis using pool_step.pick_none [of t' S' p'] pick_none assms(2,3) p
      by (intro exI [of _ t']) (auto simp: alike_def)
  qed
qed

lemma alike_run:
  assumes "pool_run (- {w}) S T" "alike w S S'" "pool_inv S" "pool_inv S'"
  shows "\<exists>T'. pool_run (- {w}) S' T' \<and> alike w T T'"
  using assms
proof (induction rule: pool_run.induct)
  case (stay S)
  then show ?case by (blast intro: pool_run.stay)
next
  case (move S T t U)
  then obtain T' where T': "pool_run (- {w}) S' T'" "alike w T T'" by blast
  have "pool_inv T" "pool_inv T'" using pool_run_inv move.prems move.hyps(1) T'(1) by blast+
  from alike_step [OF move.hyps(3) _ T'(2) this] move.hyps(2)
  obtain t' U' where "t' \<noteq> w" "pool_step t' T' U'" "alike w U U'" by blast
  then show ?case using pool_run.move [OF T'(1), of t' U'] by blast
qed

section \<open>Moves of the other threads\<close>

text \<open>
  The models of the threads are given the moves of the others as functions on the pool. Such a
  function stands for real moves of the others when, in every state of the system in which thread
  \<open>w\<close> holds the slots \<open>hs\<close> (and has claimed a buffer or not, by \<open>c\<close>), it is the effect of a run of
  the others. On a pool that belongs to no such state it does nothing.
\<close>

definition stands :: "nat \<Rightarrow> bool \<Rightarrow> int list \<Rightarrow> pool_sys \<Rightarrow> bool" where
  "stands w c hs S \<longleftrightarrow> pool_inv S \<and> int ` held S w = set hs \<and> (w \<in> claimed S \<longleftrightarrow> c)"

definition others_move :: "nat \<Rightarrow> bool \<Rightarrow> int list \<Rightarrow> pool_move \<Rightarrow> bool" where
  "others_move w c hs e \<longleftrightarrow>
     (\<forall>S. stands w c hs S \<longrightarrow> (\<exists>T. pool_run (- {w}) S T \<and> pool T = e (pool S))) \<and>
     (\<forall>p. (\<nexists>S. stands w c hs S \<and> pool S = p) \<longrightarrow> e p = p)"

lemma others_moveE:
  assumes "others_move w c hs e" "stands w c hs S"
  obtains T where "pool_run (- {w}) S T" "pool T = e (pool S)" "stands w c hs T"
    "frames (held S w) (pool S) (pool T)" "held T w = held S w"
proof -
  obtain T where T: "pool_run (- {w}) S T" "pool T = e (pool S)" using assms by (auto simp: others_move_def)
  have "stands w c hs T" "frames (held S w) (pool S) (pool T)" "held T w = held S w"
    using pool_run_others [OF T(1)] pool_run_inv [OF T(1)] assms(2) by (auto simp: stands_def)
  with T show thesis by (rule that)
qed

lemma stands_or_idle:
  assumes "others_move w c hs e"
  obtains (idle) "e p = p"
    | (moved) S T where "pool S = p" "pool T = e p" "stands w c hs S" "pool_inv T" "frames (held S w) p (e p)"
        "int ` held S w = set hs"
proof (cases "\<exists>S. stands w c hs S \<and> pool S = p")
  case True
  then obtain S where S: "stands w c hs S" "pool S = p" by blast
  show thesis by (rule others_moveE [OF assms S(1)]) (use S moved in \<open>auto simp: stands_def\<close>)
next
  case False
  then show thesis using assms idle by (auto simp: others_move_def)
qed

lemma others_move_id: "others_move w c hs (\<lambda>p. p)"
  by (auto simp: others_move_def intro: pool_run.stay)

text \<open>Every run of the others from a state of the system is such a move.\<close>

lemma run_others_move:
  assumes "stands w c hs S" "pool_run (- {w}) S T"
  shows "others_move w c hs ((\<lambda>p. p)(pool S := pool T))"
proof -
  have "\<exists>T'. pool_run (- {w}) S' T' \<and> pool T' = ((\<lambda>p. p)(pool S := pool T)) (pool S')" if "stands w c hs S'" for S'
  proof (cases "pool S' = pool S")
    case True
    have "held S' w = held S w" using assms(1) that inj_image_eq_iff [OF inj_of_nat] by (metis stands_def)
    then have "alike w S S'" using assms(1) that True by (simp add: alike_def stands_def)
    from alike_run [OF assms(2) this] assms(1) that show ?thesis by (auto simp: stands_def alike_def True)
  qed (auto intro: pool_run.stay)
  then show ?thesis using assms(1) by (auto simp: others_move_def)
qed

end
