(* ===== verification/Udp_Thread.thy ===== *)
theory Udp_Thread
  imports Common
begin

text \<open>
  The model of full_custom/udp_thread.c: the receive thread takes an empty buffer, packs up to
  \<^verbatim>\<open>N_READS_DEFAULT\<close> datagrams into it and publishes it under the next order number. The
  results of \<^verbatim>\<open>recvfrom\<close> are an input of the model; an empty datagram is the result 0 and
  \<open>RecvError\<close> the result -1.
\<close>

section \<open>The receive loop\<close>

datatype recv_result = Datagram "u8 list" | RecvError

text \<open>
  What the thread has done to stop the recorder: nothing; cleared \<^verbatim>\<open>keep_going\<close> itself; or sent
  SIGINT to the process. The signal is blocked in this thread: its handler runs in the main thread,
  at some later time.
\<close>

datatype stop_flag = KeepGoing | Cleared | Interrupted

function udp_recv_loop ::
  "recv_result list \<Rightarrow> nat \<Rightarrow> nat \<Rightarrow> int \<Rightarrow> nat \<Rightarrow> stop_flag \<Rightarrow> udpBuffStruct \<Rightarrow>
   (recv_result list \<times> nat \<times> stop_flag \<times> udpBuffStruct) cres" where
  "udp_recv_loop rs iK order cur dataSize flag s =
     (if iK < N_READS_DEFAULT then
        (case rs of
           [] \<Rightarrow> Inl Blocked
         | Datagram bs # rs' \<Rightarrow>
             (let rxbuff = take RX_MSG_LEN bs; iResult = length rxbuff in
              if iResult > 0 then
                (if order = 1 \<and> iK = 0 \<and> RX_MSG_LEN * N_READS_DEFAULT > UDP_BUFFER_SIZE
                 then Inl (Fatal ''data allocation'')
                 else if \<not> (order = 1 \<and> iK = 0) \<and> iResult \<noteq> RX_MSG_LEN
                 then Inr (rs', dataSize, Cleared, s)
                 else cbind (write_slot (nat cur) dataSize rxbuff s) (\<lambda>s'.
                   udp_recv_loop rs' (Suc iK) order cur (dataSize + iResult) flag s'))
              else
                cbind (returnBuffer s cur (int order) dataSize) (\<lambda>s'.
                  Inr (rs', dataSize, Cleared, s')))
         | RecvError # rs' \<Rightarrow> Inr (rs', dataSize, Interrupted, s))
      else Inr (rs, dataSize, flag, s))"
  by pat_completeness auto
termination
  by (relation "measure (\<lambda>(rs, iK, order, cur, dataSize, flag, s). length rs)") auto

declare udp_recv_loop.simps [simp del]

text \<open>
  One pass of the thread's main loop. \<open>env\<close> is what the other threads do to the pool, while this
  thread holds its buffer, before the return of the buffer.
\<close>

definition udp_recv_pass ::
  "held_move \<Rightarrow> recv_result list \<Rightarrow> nat \<Rightarrow> stop_flag \<Rightarrow> udpBuffStruct \<Rightarrow>
   (recv_result list \<times> nat \<times> stop_flag \<times> udpBuffStruct) cres" where
  "udp_recv_pass env rs order flag s =
     (case fetchEmptyBuffer s of (rc, currentBuffNo, s1) \<Rightarrow>
        if rc = -1 then Inr (rs, order, flag, s1)
        else cbind (udp_recv_loop rs 0 order currentBuffNo 0 flag s1)
          (\<lambda>(rs', dataSize, flag', s2).
            cbind (returnBuffer (env [currentBuffNo] s2) currentBuffNo (int order) dataSize) (\<lambda>s3.
              Inr (rs', Suc order, flag', s3))))"

text \<open>
  The main loop along a schedule. Each element says whether \<^verbatim>\<open>keep_going\<close> is still set as far as
  the rest of the program goes (the handler has not run, no other thread has cleared it), and gives
  the moves of the other threads before and during the pass.
\<close>

type_synonym recv_schedule = "(bool \<times> pool_move \<times> held_move) list"

fun udp_recv_main ::
  "recv_schedule \<Rightarrow> recv_result list \<Rightarrow> nat \<Rightarrow> stop_flag \<Rightarrow> udpBuffStruct \<Rightarrow> (stop_flag \<times> udpBuffStruct) cres" where
  "udp_recv_main [] rs order flag s = (if flag = Cleared then Inr (flag, s) else Inl Blocked)"
| "udp_recv_main ((running, before, during) # sched) rs order flag s =
     (if running \<and> flag \<noteq> Cleared
      then cbind (udp_recv_pass during rs order flag (before s)) (\<lambda>(rs', order', flag', s').
        udp_recv_main sched rs' order' flag' s')
      else Inr (flag, s))"

section \<open>Socket setup\<close>

text \<open>
  \<^verbatim>\<open>initSocket\<close> with the results of the five system calls as arguments. The macro
  \<^verbatim>\<open>ERR\<close> returns \<^verbatim>\<open>EXIT_FAILURE\<close>, which is 1.
\<close>

definition EXIT_FAILURE :: int where [cconst]: "EXIT_FAILURE = 1"

definition initSocket :: "int \<Rightarrow> int \<Rightarrow> int \<Rightarrow> int \<Rightarrow> int \<Rightarrow> int" where
  "initSocket sockfd reuse rcvbuf timeo bnd =
     (if sockfd < 0 then EXIT_FAILURE
      else if reuse \<noteq> 0 then EXIT_FAILURE
      else if rcvbuf \<noteq> 0 then EXIT_FAILURE
      else if timeo \<noteq> 0 then EXIT_FAILURE
      else if bnd < 0 then EXIT_FAILURE
      else sockfd)"

section \<open>The thread\<close>

text \<open>
  The whole thread: the socket, whose set-up is not checked, the buffer for one datagram, the main
  loop. The result has the descriptor that is closed at the end.
\<close>

definition udp_recv_work ::
  "int \<times> int \<times> int \<times> int \<times> int \<Rightarrow> bool \<Rightarrow> recv_schedule \<Rightarrow> recv_result list \<Rightarrow> udpBuffStruct \<Rightarrow>
   (int \<times> stop_flag \<times> udpBuffStruct) cres" where
  "udp_recv_work = (\<lambda>(sockfd, reuse, rcvbuf, timeo, bnd) rxbuff_ok sched rs s.
     let socket = initSocket sockfd reuse rcvbuf timeo bnd in
     if \<not> rxbuff_ok then Inl (Fatal ''malloc'')
     else cbind (udp_recv_main sched rs 1 KeepGoing s) (\<lambda>(flag, s'). Inr (socket, flag, s')))"

text \<open>
  The thread cannot tell a failed set-up from descriptor 1, the standard output: it goes on and
  receives on, and in the end closes, that descriptor.
\<close>

lemma socket_failure_unnoticed:
  assumes "sockfd < 0 \<or> reuse \<noteq> 0 \<or> rcvbuf \<noteq> 0 \<or> timeo \<noteq> 0 \<or> bnd < 0"
  shows "udp_recv_work (sockfd, reuse, rcvbuf, timeo, bnd) ok sched rs s = udp_recv_work (1, 0, 0, 0, 0) ok sched rs s"
  using assms by (auto simp: udp_recv_work_def initSocket_def EXIT_FAILURE_def)

section \<open>Receiving full datagrams\<close>

definition full_datagrams :: "u8 list list \<Rightarrow> bool" where
  "full_datagrams ds \<longleftrightarrow> (\<forall>d\<in>set ds. length d = RX_MSG_LEN)"

lemma full_datagrams_Cons [simp]:
  "full_datagrams (d # ds) \<longleftrightarrow> length d = RX_MSG_LEN \<and> full_datagrams ds"
  by (auto simp: full_datagrams_def)

lemma udp_buffer_large_enough: "RX_MSG_LEN * N_READS_DEFAULT \<le> UDP_BUFFER_SIZE"
  by (simp add: cconst)

text \<open>
  A run of full datagrams fills the buffer with their concatenation, in order of arrival; the loop
  then goes on with what arrives next.
\<close>

lemma udp_recv_loop_full:
  assumes "full_datagrams ds" "iK + length ds \<le> N_READS_DEFAULT" "dataSize = iK * RX_MSG_LEN"
    "i < length (bufData s)" "UDP_BUFFER_SIZE \<le> length (bufData s ! i)"
  shows "\<exists>s'. udp_recv_loop (map Datagram ds @ rs) iK order (int i) dataSize kg s =
      udp_recv_loop rs (iK + length ds) order (int i) ((iK + length ds) * RX_MSG_LEN) kg s' \<and>
    take ((iK + length ds) * RX_MSG_LEN) (bufData s' ! i) = take dataSize (bufData s ! i) @ concat ds \<and>
    orderNo s' = orderNo s \<and> dataLen s' = dataLen s \<and> NReady s' = NReady s \<and>
    noBuffers s' = noBuffers s \<and> (\<forall>j. j \<noteq> i \<longrightarrow> bufData s' ! j = bufData s ! j) \<and>
    length (bufData s') = length (bufData s)"
  using assms
proof (induction ds arbitrary: iK dataSize s)
  case Nil
  then show ?case by auto
next
  case (Cons d ds)
  have iK: "iK < N_READS_DEFAULT" using Cons.prems(2) by simp
  have d: "length d = RX_MSG_LEN" "take RX_MSG_LEN d = d" "0 < length d" "d \<noteq> []"
    using Cons.prems(1) by (auto simp: cconst)
  have "Suc iK * RX_MSG_LEN \<le> N_READS_DEFAULT * RX_MSG_LEN" using iK by (intro mult_le_mono1) simp
  then have room: "dataSize + length d \<le> length (bufData s ! i)"
    using Cons.prems(3,5) d(1) udp_buffer_large_enough by (simp add: mult.commute)
  obtain s1 where w: "write_slot i dataSize d s = Inr s1"
    using write_slot_ok [OF Cons.prems(4) room] by blast
  note f = write_slot_frame [OF w]
  have step: "udp_recv_loop (map Datagram (d # ds) @ rs) iK order (int i) dataSize kg s =
      udp_recv_loop (map Datagram ds @ rs) (Suc iK) order (int i) (dataSize + length d) kg s1"
    using iK d w udp_buffer_large_enough
    by (simp add: udp_recv_loop.simps [of "Datagram d # _" iK])
  have "take (dataSize + length d) (bufData s1 ! i) = take dataSize (bufData s ! i) @ d"
    by (rule take_blit_append [OF f(8)])
  then show ?case
    unfolding step using Cons.IH [of "Suc iK" "dataSize + length d" s1] Cons.prems d f by simp
qed

lemma udp_recv_pass_full:
  assumes "pool_wf s" "k < noBuffers s" "orderNo s ! k = 0"
    "\<forall>b\<in>set (bufData s). UDP_BUFFER_SIZE \<le> length b"
    "full_datagrams ds" "length ds \<le> N_READS_DEFAULT"
  obtains i s2 where "i < noBuffers s" "orderNo s ! i = 0" "i < length (orderNo s)"
    "\<And>env. udp_recv_pass env (map Datagram ds @ rs) order kg s =
       cbind (udp_recv_loop rs (length ds) order (int i) (length ds * RX_MSG_LEN) kg s2)
         (\<lambda>(rs', dataSize, kg', s2). cbind (returnBuffer (env [int i] s2) (int i) (int order) dataSize)
           (\<lambda>s3. Inr (rs', Suc order, kg', s3)))"
    "take (length ds * RX_MSG_LEN) (bufData s2 ! i) = concat ds"
    "orderNo s2 = (orderNo s)[i := -1]" "dataLen s2 = dataLen s" "NReady s2 = NReady s"
    "\<forall>j. j \<noteq> i \<longrightarrow> bufData s2 ! j = bufData s ! j" "noBuffers s2 = noBuffers s" "pool_wf s2"
  using assms(1)
proof (cases rule: acquire_slot_cases)
  case none
  with assms show ?thesis by auto
next
  case (some i)
  let ?s = "s\<lparr>orderNo := (orderNo s)[i := -1]\<rparr>"
  have i: "i < length (bufData ?s)" "i < length (orderNo s)"
    using assms(1) some by (simp_all add: pool_wf_def)
  then have "UDP_BUFFER_SIZE \<le> length (bufData ?s ! i)" using assms(4) by simp
  from udp_recv_loop_full [OF assms(5) _ _ i(1) this, of 0 0 rs order kg] assms(6)
  show ?thesis using some i assms(1) by (auto intro!: that simp: udp_recv_pass_def pool_wf_def)
qed

lemmas udp_loop_stops =
  udp_recv_loop.simps [of "RecvError # _"] udp_recv_loop.simps [of "Datagram _ # _"]
  udp_recv_loop.simps [of _ N_READS_DEFAULT]

text \<open>
  C6: when a slot is empty and \<^verbatim>\<open>N_READS_DEFAULT\<close> full-sized datagrams arrive, one pass of the
  receive thread publishes exactly one buffer: a formerly empty slot now carries the current order
  number, the length of 160 messages, and the datagrams' bytes in order of arrival; the ready
  counter is one higher, the next order number is used for the next buffer, and no other slot is
  touched. No write leaves the buffer.
\<close>

theorem udp_pass_publishes:
  assumes "pool_wf s" "k < noBuffers s" "orderNo s ! k = 0"
    "\<forall>b\<in>set (bufData s). UDP_BUFFER_SIZE \<le> length b"
    "full_datagrams ds" "length ds = N_READS_DEFAULT"
  shows "\<exists>i s'. udp_recv_pass (\<lambda>held p. p) (map Datagram ds @ rs) order kg s = Inr (rs, Suc order, kg, s') \<and>
    i < noBuffers s \<and> orderNo s ! i = 0 \<and> orderNo s' = (orderNo s)[i := int order] \<and>
    dataLen s' = (dataLen s)[i := N_READS_DEFAULT * RX_MSG_LEN] \<and> NReady s' = Suc (NReady s) \<and>
    take (N_READS_DEFAULT * RX_MSG_LEN) (bufData s' ! i) = concat ds \<and>
    (\<forall>j. j \<noteq> i \<longrightarrow> bufData s' ! j = bufData s ! j)"
proof -
  have le: "length ds \<le> N_READS_DEFAULT" using assms(6) by simp
  show ?thesis
  proof (rule udp_recv_pass_full [OF assms(1-5) le, of rs order kg], goal_cases)
    case (1 i s2)
    then show ?case
      using assms(6) by (intro exI [of _ i])
        (auto simp: udp_recv_loop.simps [of _ N_READS_DEFAULT] returnBuffer_def)
  qed
qed

theorem udp_pass_publishes_witness:
  "\<exists>i s'. udp_recv_pass (\<lambda>held p. p) (map Datagram (replicate 160 (replicate 8200 7)) @ []) 1 KeepGoing
     \<lparr>bufData = [replicate 1000000000 0], dataLen = [0], orderNo = [0], NReady = 0, noBuffers = 1\<rparr>
   = Inr ([], 2, KeepGoing, s') \<and> i < 1 \<and> orderNo s' = [0][i := 1]"
proof -
  let ?s = "\<lparr>bufData = [replicate 1000000000 0], dataLen = [0], orderNo = [0], NReady = 0,
    noBuffers = 1\<rparr> :: udpBuffStruct"
  have h: "pool_wf ?s" "0 < noBuffers ?s" "orderNo ?s ! 0 = 0"
    "\<forall>b\<in>set (bufData ?s). UDP_BUFFER_SIZE \<le> length b"
    "full_datagrams (replicate 160 (replicate 8200 7))"
    "length (replicate 160 (replicate 8200 (7 :: u8))) = N_READS_DEFAULT"
    by (simp_all add: pool_wf_def full_datagrams_def cconst)
  from udp_pass_publishes [OF h, of "[]" 1 KeepGoing] show ?thesis by fastforce
qed

text \<open>When one buffer only is ready, the worker's fetch returns that buffer.\<close>

lemma fetch_only_ready:
  assumes "pool_wf p" "0 < NReady p" "i < noBuffers p" "0 < orderNo p ! i" "orderNo p ! i < INT_MAX"
    "\<And>j. j < noBuffers p \<Longrightarrow> j \<noteq> i \<Longrightarrow> orderNo p ! j \<le> 0"
  shows "fetchBuffer [(\<lambda>p. p, True)] (\<lambda>p. p) p = Inr (Some (int i, orderNo p ! i, dataLen p ! i),
    p\<lparr>NReady := NReady p - 1, orderNo := (orderNo p)[i := -1]\<rparr>, [])"
proof -
  let ?q = "p\<lparr>NReady := NReady p - 1\<rparr>"
  have "pool_wf ?q" using assms(1) by (simp add: pool_wf_def)
  then have "fetchBuffer_pick ?q = (Some (int i, orderNo p ! i, dataLen p ! i), ?q\<lparr>orderNo := (orderNo p)[i := -1]\<rparr>)"
  proof (cases rule: pick_slot_cases)
    case none
    then show ?thesis using assms(3-5) by force
  next
    case (some j)
    then have "j = i" using assms(6) [of j] by force
    then show ?thesis using some(1) by simp
  qed
  then show ?thesis using assms(2) by (simp add: fetchBuffer_def fetchBuffer_poll_def)
qed

lemma empty_datagram_race:
  assumes "pool_wf s" "k < noBuffers s" "orderNo s ! k = 0"
    "\<forall>b\<in>set (bufData s). UDP_BUFFER_SIZE \<le> length b"
    "full_datagrams ds" "length ds < N_READS_DEFAULT" "0 < order" "int order < INT_MAX"
    "\<And>j. j < noBuffers s \<Longrightarrow> orderNo s ! j \<le> 0"
  shows "\<exists>i p1 p2 s' s''.
    fetchBuffer [(\<lambda>p. p, True)] (\<lambda>p. p) p1 = Inr (Some (int i, int order, length ds * RX_MSG_LEN), p2, []) \<and>
    udp_recv_pass (\<lambda>held p. if p = p1 then p2 else p) (map Datagram ds @ Datagram [] # rs) order kg s =
      Inr (rs, Suc order, Cleared, s') \<and>
    fetchBuffer [(\<lambda>p. p, True)] (\<lambda>p. p) s' = Inr (Some (int i, int order, length ds * RX_MSG_LEN), s'', [])"
proof -
  have le: "length ds \<le> N_READS_DEFAULT" using assms(6) by simp
  let ?n = "length ds * RX_MSG_LEN"
  obtain i s2 where s2: "i < noBuffers s" "i < length (orderNo s)"
    "\<And>env. udp_recv_pass env (map Datagram ds @ Datagram [] # rs) order kg s =
       cbind (udp_recv_loop (Datagram [] # rs) (length ds) order (int i) ?n kg s2)
         (\<lambda>(rs', dataSize, kg', s2). cbind (returnBuffer (env [int i] s2) (int i) (int order) dataSize)
           (\<lambda>s3. Inr (rs', Suc order, kg', s3)))"
    "orderNo s2 = (orderNo s)[i := -1]" "dataLen s2 = dataLen s" "noBuffers s2 = noBuffers s" "pool_wf s2"
    by (rule udp_recv_pass_full [OF assms(1-5) le, of "Datagram [] # rs" order kg], rule that, assumption+)
  define p1 where "p1 = s2\<lparr>orderNo := (orderNo s2)[i := int order], dataLen := (dataLen s2)[i := ?n], NReady := Suc (NReady s2)\<rparr>"
  have wf: "pool_wf p1" using s2(7) by (simp add: p1_def pool_wf_def)
  have i: "i < length (dataLen s2)" "i < noBuffers p1" using s2 by (simp_all add: p1_def pool_wf_def)
  have at: "orderNo p1 ! i = int order" "dataLen p1 ! i = ?n" "0 < NReady p1" using s2(2,4) i by (simp_all add: p1_def)
  have others: "orderNo p1 ! j \<le> 0" if "j < noBuffers p1" "j \<noteq> i" for j
    using that assms(9) [of j] s2(4,6) by (simp add: p1_def)
  define p2 where "p2 = p1\<lparr>NReady := NReady p1 - 1, orderNo := (orderNo p1)[i := -1]\<rparr>"
  have f1: "fetchBuffer [(\<lambda>p. p, True)] (\<lambda>p. p) p1 = Inr (Some (int i, int order, ?n), p2, [])"
    using fetch_only_ready [OF wf at(3) i(2) _ _ others] at assms(7,8) by (simp add: p2_def)
  have len: "i < length (orderNo p1)" using wf i(2) by (simp add: pool_wf_def)
  have r2: "returnBuffer p2 (int i) (int order) ?n = Inr p1"
    using len at by (simp add: returnBuffer_def p2_def list_update_same_conv) (simp add: p1_def i list_update_same_conv)
  have "udp_recv_loop (Datagram [] # rs) (length ds) order (int i) ?n kg s2 = Inr (rs, ?n, Cleared, p1)"
    using assms(6) s2(2,4) by (simp add: udp_recv_loop.simps [of "Datagram [] # rs"] returnBuffer_def p1_def)
  then have "udp_recv_pass (\<lambda>held p. if p = p1 then p2 else p) (map Datagram ds @ Datagram [] # rs) order kg s =
      Inr (rs, Suc order, Cleared, p1)" using s2(3) r2 by simp
  with f1 show ?thesis by blast
qed

text \<open>
  C7: how a pass ends early, after \<open>n\<close> full datagrams, fewer than \<^verbatim>\<open>N_READS_DEFAULT\<close>, of
  which at least one was received or the order is not the first. A datagram of another positive size
  clears \<^verbatim>\<open>keep_going\<close>, an error of \<^verbatim>\<open>recvfrom\<close> (the timeout included) interrupts the
  process; both publish the \<open>n\<close> datagrams received so far under the current order. An empty datagram, which the code handles
  as an orderly end as well, returns the buffer twice: the process ends with
  \<^verbatim>\<open>data integrity!\<close>, or, when the worker fetches the buffer between the two returns (here the
  only ready one), the check passes and the worker is handed the buffer it already holds.
\<close>

theorem udp_pass_ends_early:
  assumes "pool_wf s" "k < noBuffers s" "orderNo s ! k = 0"
    "\<forall>b\<in>set (bufData s). UDP_BUFFER_SIZE \<le> length b"
    "full_datagrams ds" "length ds < N_READS_DEFAULT" "0 < order" "order \<noteq> 1 \<or> ds \<noteq> []"
    "bad \<noteq> []" "length bad < RX_MSG_LEN"
  shows "udp_recv_pass (\<lambda>held p. p) (map Datagram ds @ Datagram [] # rs) order kg s =
      Inl (Fatal ''data integrity!'') \<and>
    (\<forall>r\<in>{RecvError, Datagram bad}. \<exists>i s'.
      udp_recv_pass (\<lambda>held p. p) (map Datagram ds @ r # rs) order kg s =
        Inr (rs, Suc order, if r = RecvError then Interrupted else Cleared, s') \<and>
      orderNo s ! i = 0 \<and> orderNo s' = (orderNo s)[i := int order] \<and>
      dataLen s' = (dataLen s)[i := length ds * RX_MSG_LEN] \<and> NReady s' = Suc (NReady s) \<and>
      take (length ds * RX_MSG_LEN) (bufData s' ! i) = concat ds) \<and>
    ((\<forall>j<noBuffers s. orderNo s ! j \<le> 0) \<and> int order < INT_MAX \<longrightarrow> (\<exists>i p1 p2 s' s''.
      fetchBuffer [(\<lambda>p. p, True)] (\<lambda>p. p) p1 = Inr (Some (int i, int order, length ds * RX_MSG_LEN), p2, []) \<and>
      udp_recv_pass (\<lambda>held p. if p = p1 then p2 else p) (map Datagram ds @ Datagram [] # rs) order kg s =
        Inr (rs, Suc order, Cleared, s') \<and>
      fetchBuffer [(\<lambda>p. p, True)] (\<lambda>p. p) s' = Inr (Some (int i, int order, length ds * RX_MSG_LEN), s'', [])))"
proof -
  have le: "length ds \<le> N_READS_DEFAULT" using assms(6) by simp
  have "udp_recv_pass (\<lambda>held p. p) (map Datagram ds @ Datagram [] # rs) order kg s =
      Inl (Fatal ''data integrity!'')"
    by (rule udp_recv_pass_full [OF assms(1-5) le, of "Datagram [] # rs" order kg])
      (use assms(6,7) in \<open>simp add: udp_loop_stops returnBuffer_def\<close>)
  moreover have "\<exists>i s'.
      udp_recv_pass (\<lambda>held p. p) (map Datagram ds @ r # rs) order kg s =
        Inr (rs, Suc order, if r = RecvError then Interrupted else Cleared, s') \<and>
      orderNo s ! i = 0 \<and> orderNo s' = (orderNo s)[i := int order] \<and>
      dataLen s' = (dataLen s)[i := length ds * RX_MSG_LEN] \<and> NReady s' = Suc (NReady s) \<and>
      take (length ds * RX_MSG_LEN) (bufData s' ! i) = concat ds"
    if "r \<in> {RecvError, Datagram bad}" for r
    by (rule udp_recv_pass_full [OF assms(1-5) le, of "r # rs" order kg])
      (use assms(6-10) that in \<open>auto simp: udp_loop_stops returnBuffer_def Let_def\<close>)
  ultimately show ?thesis using empty_datagram_race [OF assms(1-7)] by blast
qed

theorem udp_pass_ends_early_witness:
  "udp_recv_pass (\<lambda>held p. p) (map Datagram [replicate 8200 7] @ Datagram [] # []) 1 KeepGoing
     \<lparr>bufData = [replicate 1000000000 0], dataLen = [0], orderNo = [0], NReady = 0, noBuffers = 1\<rparr>
   = Inl (Fatal ''data integrity!'')"
proof -
  let ?s = "\<lparr>bufData = [replicate 1000000000 0], dataLen = [0], orderNo = [0], NReady = 0,
    noBuffers = 1\<rparr> :: udpBuffStruct"
  have h: "pool_wf ?s" "0 < noBuffers ?s" "orderNo ?s ! 0 = 0"
    "\<forall>b\<in>set (bufData ?s). UDP_BUFFER_SIZE \<le> length b"
    "full_datagrams [replicate 8200 7]" "length [replicate 8200 (7 :: u8)] < N_READS_DEFAULT"
    "length [1 :: u8] < RX_MSG_LEN"
    by (simp_all add: pool_wf_def full_datagrams_def cconst)
  from udp_pass_ends_early [OF h(1-6) _ _ _ h(7), of 1 "[]" KeepGoing] show ?thesis by simp
qed

end
