(* ===== verification/Processing_Thread.thy ===== *)
theory Processing_Thread
  imports Common
begin

text \<open>
  The model of full_custom/processing_thread.c: the worker sorts the packets of each received
  buffer into six time blocks, publishes a block when it is full or overtaken, and continues with a
  fresh buffer. The receive and file threads appear as moves on the two pools; a move on a pool is
  given the slots the worker holds at that moment, since the other threads act on the rest. Between
  two accesses of the worker to the shared part of a pool one move stands for everything the other
  threads did.
\<close>

section \<open>State\<close>

record work_local_struct =
  packetNo :: u64
  wdata :: nat
  windex :: int
  worder :: int
  nToFull :: int

text \<open>
  \<open>locals\<close> is \<^verbatim>\<open>localStruct\<close>, \<open>ants\<close> the local copy of \<^verbatim>\<open>antNumbers\<close>; the counts and
  \<^verbatim>\<open>firstChan\<close> are read from \<open>fbuf\<close>, where no thread changes them. \<open>moves\<close> is the schedule of
  the file thread's moves that is left.
\<close>

record worker =
  inpool :: udpBuffStruct
  fbuf :: fileBuffStruct
  locals :: "work_local_struct list"
  ants :: "u32 list"
  next_order :: int
  nextStructPacketNo :: u64
  lastSentPacketNo :: u64
  noMissing :: u64
  first_loop_done :: bool
  moves :: "held_move list"

definition fpool :: "worker \<Rightarrow> udpBuffStruct" where
  "fpool st = udpBuff (fbuf st)"

definition set_fpool :: "udpBuffStruct \<Rightarrow> worker \<Rightarrow> worker" where
  "set_fpool p st = st\<lparr>fbuf := (fbuf st)\<lparr>udpBuff := p\<rparr>\<rparr>"

definition packetsPerBlock :: "fileBuffStruct \<Rightarrow> nat" where
  "packetsPerBlock fb = unat (nAnts fb * nchans fb * of_nat TIME_INT_PER_BUFFER)"

definition dataLenOut :: "fileBuffStruct \<Rightarrow> nat" where
  "dataLenOut fb = packetsPerBlock fb * RX_DATA_LEN"

section \<open>Looking up a block\<close>

function findStructIndex_loop :: "work_local_struct list \<Rightarrow> nat \<Rightarrow> u64 \<Rightarrow> nat \<Rightarrow> int" where
  "findStructIndex_loop ls structLen currPacketNo iK =
     (if iK < structLen
      then (if packetNo (ls ! iK) = currPacketNo then int iK
            else findStructIndex_loop ls structLen currPacketNo (Suc iK))
      else -1)"
  by pat_completeness auto
termination
  by (relation "measure (\<lambda>(ls, structLen, currPacketNo, iK). structLen - iK)") auto

declare findStructIndex_loop.simps [simp del]

definition findStructIndex :: "work_local_struct list \<Rightarrow> nat \<Rightarrow> u64 \<Rightarrow> int" where
  "findStructIndex ls structLen currPacketNo = findStructIndex_loop ls structLen currPacketNo 0"

section \<open>Sorting one packet\<close>

text \<open>
  The int \<^verbatim>\<open>currChanNo\<close>: the subtraction and the division are unsigned 64-bit, the result is
  cut to 32 bits and read as signed. The offset is computed in unsigned 32-bit arithmetic.
\<close>

definition currChanNo :: "u64 \<Rightarrow> u32 \<Rightarrow> int" where
  "currChanNo hdr first =
     sint (ucast ((GET_CHAN_NO hdr - ucast first) div of_nat CHANS_PER_PACKET) :: u32)"

definition cell_offset :: "u32 \<Rightarrow> u32 \<Rightarrow> u32 \<Rightarrow> u32 \<Rightarrow> u32 \<Rightarrow> u32" where
  "cell_offset na nc rest ant chan = (rest * na * nc + ant * nc + chan) * of_nat RX_DATA_LEN"

definition accepts :: "fileBuffStruct \<Rightarrow> u32 list \<Rightarrow> u64 \<Rightarrow> bool" where
  "accepts fb ant_tab hdr \<longleftrightarrow>
     (let currAntId = getAntIndex ant_tab (ucast (GET_ANT_NO hdr)) (nAnts fb);
          chan = currChanNo hdr (firstChan fb)
      in IS_VERSION_VOLT hdr \<noteq> 0 \<and> currAntId \<noteq> -1 \<and> currAntId < int MAX_NO_ANTS \<and>
         chan \<ge> 0 \<and> (word_of_int chan :: u32) < nchans fb)"

definition place_packet ::
  "fileBuffStruct \<Rightarrow> u32 list \<Rightarrow> u64 \<Rightarrow> u8 list \<Rightarrow> work_local_struct list \<Rightarrow> udpBuffStruct \<Rightarrow>
   (work_local_struct list \<times> udpBuffStruct) cres" where
  "place_packet fb ant_tab hdr payload ls p =
     (let currPacketNo = GET_PACKET_FILTER (GET_PCKT_NO hdr);
          currPacketRest = GET_PACKET_REST (GET_PCKT_NO hdr);
          currAntId = getAntIndex ant_tab (ucast (GET_ANT_NO hdr)) (nAnts fb);
          chan = currChanNo hdr (firstChan fb)
      in if accepts fb ant_tab hdr then
           (let structIndex = findStructIndex ls N_FILE_BUFFERS_AT_A_TIME currPacketNo
            in if structIndex = -1 then Inr (ls, p)
               else (let k = nat structIndex;
                         offset = unat (cell_offset (nAnts fb) (nchans fb) (ucast currPacketRest)
                                          (word_of_int currAntId) (word_of_int chan))
                     in cbind (write_slot (wdata (ls ! k)) offset payload p) (\<lambda>p'.
                          Inr (ls[k := (ls ! k)\<lparr>nToFull := nToFull (ls ! k) - 1\<rparr>], p'))))
         else Inr (ls, p))"

section \<open>Passes over a received buffer\<close>

text \<open>Reading the packet \<open>iK\<close>: its header and the payload behind it.\<close>

definition packet_header :: "u8 list \<Rightarrow> nat \<Rightarrow> u64 cres" where
  "packet_header input iK =
     (if iK * RX_MSG_LEN + RX_BUFF_LEN \<le> length input
      then Inr (be_word (peek (iK * RX_MSG_LEN) RX_BUFF_LEN input)) else Inl Overrun)"

definition packet_payload :: "u8 list \<Rightarrow> nat \<Rightarrow> u8 list cres" where
  "packet_payload input iK =
     (if iK * RX_MSG_LEN + RX_BUFF_LEN + RX_DATA_LEN \<le> length input
      then Inr (peek (iK * RX_MSG_LEN + RX_BUFF_LEN) RX_DATA_LEN input) else Inl Overrun)"

text \<open>The scan of the first buffer: the lowest packet number, and the antennas that occur.\<close>

fun scan_loop :: "u8 list \<Rightarrow> u32 \<Rightarrow> nat list \<Rightarrow> u64 \<Rightarrow> u32 list \<Rightarrow> (u64 \<times> u32 list) cres" where
  "scan_loop input na [] pkt_start ant_tab = Inr (pkt_start, ant_tab)"
| "scan_loop input na (iK # iKs) pkt_start ant_tab =
     cbind (packet_header input iK) (\<lambda>hdr.
       scan_loop input na iKs (min pkt_start (GET_PCKT_NO hdr))
         (snd (updateAntenna ant_tab (ucast (GET_ANT_NO hdr)) na)))"

definition LONG_MAX :: u64 where [cconst]: "LONG_MAX = 0x7fffffffffffffff"

definition first_scan :: "u8 list \<Rightarrow> nat \<Rightarrow> worker \<Rightarrow> worker cres" where
  "first_scan input nOfPackets st =
     (if first_loop_done st then Inr st
      else cbind (scan_loop input (nAnts (fbuf st)) [0..<nOfPackets] LONG_MAX (ants st))
        (\<lambda>(lowest, ant_tab).
          let pkt_start = GET_PACKET_FILTER lowest in
          Inr (st\<lparr>ants := ant_tab,
            fbuf := (fbuf st)\<lparr>packetStart := pkt_start,
              antNumbers := take (unat (nAnts (fbuf st))) ant_tab @
                drop (unat (nAnts (fbuf st))) (antNumbers (fbuf st))\<rparr>,
            locals := map (\<lambda>iK. (locals st ! iK)\<lparr>packetNo := pkt_start + of_nat (iK * TIME_INT_PER_BUFFER)\<rparr>)
              [0..<N_FILE_BUFFERS_AT_A_TIME],
            nextStructPacketNo :=
              (pkt_start + of_nat (N_FILE_BUFFERS_AT_A_TIME * TIME_INT_PER_BUFFER)) AND PCKT_NO_MASK,
            first_loop_done := True\<rparr>)))"

fun place_loop :: "u8 list \<Rightarrow> fileBuffStruct \<Rightarrow> u32 list \<Rightarrow> nat list \<Rightarrow>
   work_local_struct list \<Rightarrow> udpBuffStruct \<Rightarrow> (work_local_struct list \<times> udpBuffStruct) cres" where
  "place_loop input fb ant_tab [] ls p = Inr (ls, p)"
| "place_loop input fb ant_tab (iK # iKs) ls p =
     cbind (packet_header input iK) (\<lambda>hdr.
     cbind (packet_payload input iK) (\<lambda>payload.
     cbind (place_packet fb ant_tab hdr payload ls p) (\<lambda>(ls', p').
       place_loop input fb ant_tab iKs ls' p')))"

section \<open>Publishing blocks\<close>

text \<open>The busy wait for an empty buffer of the file pool.\<close>

fun fetchEmpty_spin :: "int list \<Rightarrow> held_move list \<Rightarrow> udpBuffStruct \<Rightarrow>
   (int \<times> udpBuffStruct \<times> held_move list) cres" where
  "fetchEmpty_spin held [] p = Inl Blocked"
| "fetchEmpty_spin held (env # es) p =
     (case fetchEmptyBuffer (env held p) of (rc, index, p') \<Rightarrow>
        if rc \<noteq> 0 then fetchEmpty_spin held es p' else Inr (index, p', es))"

definition held_except :: "nat \<Rightarrow> work_local_struct list \<Rightarrow> int list" where
  "held_except iK ls = map windex (take iK ls @ drop (Suc iK) ls)"

text \<open>The common part of both sending loops: publish block \<open>iK\<close> and start a fresh one in its place.\<close>

definition replace_struct :: "nat \<Rightarrow> worker \<Rightarrow> worker cres" where
  "replace_struct iK st =
     (let l = locals st ! iK in
      cbind (returnBuffer (fpool st) (windex l) (worder l) (dataLenOut (fbuf st))) (\<lambda>p1.
      cbind (fetchEmpty_spin (held_except iK (locals st)) (moves st) p1) (\<lambda>(index, p2, es).
      cbind (write_slot (nat index) 0 (replicate (dataLenOut (fbuf st)) 0) p2) (\<lambda>p3.
        Inr (set_fpool p3 (st\<lparr>
          locals := (locals st)[iK := \<lparr>packetNo = nextStructPacketNo st, wdata = nat index,
            windex = index, worder = next_order st, nToFull = int (packetsPerBlock (fbuf st))\<rparr>],
          next_order := next_order st + 1,
          nextStructPacketNo := (nextStructPacketNo st + of_nat TIME_INT_PER_BUFFER) AND PCKT_NO_MASK,
          moves := es\<rparr>))))))"

fun send_full_loop :: "nat list \<Rightarrow> nat \<Rightarrow> worker \<Rightarrow> (nat \<times> worker) cres" where
  "send_full_loop [] nStarted st = Inr (nStarted, st)"
| "send_full_loop (iK # iKs) nStarted st =
     (if nToFull (locals st ! iK) = 0 then
        cbind (replace_struct iK (st\<lparr>lastSentPacketNo := packetNo (locals st ! iK)\<rparr>)) (\<lambda>st'.
          send_full_loop iKs nStarted st')
      else if nToFull (locals st ! iK) < int (packetsPerBlock (fbuf st))
      then send_full_loop iKs (Suc nStarted) st
      else send_full_loop iKs nStarted st)"

definition mark_half :: "nat \<Rightarrow> worker \<Rightarrow> worker" where
  "mark_half nStarted st =
     (if nStarted > N_FILE_BUFFERS_AT_A_TIME - 2
      then st\<lparr>lastSentPacketNo :=
        (nextStructPacketNo st - of_nat (TIME_INT_PER_BUFFER * N_FILE_BUFFERS_AT_A_TIME div 2))
          AND PCKT_NO_MASK\<rparr>
      else st)"

text \<open>
  The test for an overtaken block. \<^verbatim>\<open>lastSentPacketNo\<close> is a signed integer: its comparison
  with the constant is signed, the comparisons with \<^verbatim>\<open>packetNo\<close> are unsigned.
\<close>

definition overtaken :: "u64 \<Rightarrow> u64 \<Rightarrow> bool" where
  "overtaken lastSent pkt \<longleftrightarrow>
     (sint lastSent > int (N_FILE_BUFFERS_AT_A_TIME div 2) \<and> pkt < lastSent) \<or>
     (sint lastSent \<le> int (N_FILE_BUFFERS_AT_A_TIME div 2) \<and> pkt > drop_bit 1 PCKT_NO_MASK \<and>
        pkt < PCKT_NO_MASK + lastSent - of_nat (N_FILE_BUFFERS_AT_A_TIME div 2))"

fun send_earlier_loop :: "nat list \<Rightarrow> worker \<Rightarrow> worker cres" where
  "send_earlier_loop [] st = Inr st"
| "send_earlier_loop (iK # iKs) st =
     (if overtaken (lastSentPacketNo st) (packetNo (locals st ! iK)) then
        cbind (replace_struct iK
            (st\<lparr>noMissing := noMissing st + word_of_int (nToFull (locals st ! iK))\<rparr>)) (\<lambda>st'.
          send_earlier_loop iKs st')
      else send_earlier_loop iKs st)"

definition send_blocks :: "worker \<Rightarrow> worker cres" where
  "send_blocks st =
     cbind (send_full_loop [0..<N_FILE_BUFFERS_AT_A_TIME] 0 st) (\<lambda>(nStarted, st').
       send_earlier_loop [0..<N_FILE_BUFFERS_AT_A_TIME] (mark_half nStarted st'))"

section \<open>The thread\<close>

text \<open>
  One pass of the main loop. \<open>es\<close> and \<open>between\<close> are the receive thread's moves during
  \<^verbatim>\<open>fetchBuffer\<close>, \<open>during\<close> those until the buffer is given back.
\<close>

definition sort_buffer :: "u8 list \<Rightarrow> nat \<Rightarrow> worker \<Rightarrow> worker cres" where
  "sort_buffer input nOfPackets st =
     cbind (first_scan input nOfPackets st) (\<lambda>st1.
     cbind (place_loop input (fbuf st1) (ants st1) [0..<nOfPackets] (locals st1) (fpool st1))
       (\<lambda>(ls, p). Inr (set_fpool p (st1\<lparr>locals := ls\<rparr>))))"

definition give_back :: "held_move \<Rightarrow> int \<Rightarrow> worker \<Rightarrow> worker cres" where
  "give_back during indexIn st =
     cbind (returnEmptyBuffer (during [indexIn] (inpool st)) indexIn) (\<lambda>p.
       Inr (st\<lparr>inpool := p\<rparr>))"

definition worker_pass ::
  "(pool_move \<times> bool) list \<Rightarrow> pool_move \<Rightarrow> held_move \<Rightarrow> worker \<Rightarrow> worker cres" where
  "worker_pass es between during st =
     cbind (fetchBuffer es between (inpool st)) (\<lambda>(r, ip, es').
       let st0 = st\<lparr>inpool := ip\<rparr> in
       (case r of None \<Rightarrow> Inr st0
        | Some (indexIn, order, len) \<Rightarrow>
            let nOfPackets = len div RX_MSG_LEN in
            if nOfPackets = 0 then give_back during indexIn st0
            else
              cbind (sort_buffer (bufData ip ! nat indexIn) nOfPackets st0) (\<lambda>st1.
              cbind (give_back during indexIn st1) send_blocks)))"

text \<open>
  The set-up: the configuration test, then up to six buffers of the file pool. When no buffer is
  free the code skips the entry, which keeps the values \<open>junk\<close> of the uninitialised array.
\<close>

fun init_locals :: "fileBuffStruct \<Rightarrow> nat list \<Rightarrow> work_local_struct list \<Rightarrow> udpBuffStruct \<Rightarrow>
   (work_local_struct list \<times> udpBuffStruct) cres" where
  "init_locals fb [] ls p = Inr (ls, p)"
| "init_locals fb (iK # iKs) ls p =
     (case fetchEmptyBuffer p of (rc, index, p1) \<Rightarrow>
        if rc \<noteq> 0 then init_locals fb iKs (ls[iK := (ls ! iK)\<lparr>windex := index\<rparr>]) p1
        else cbind (write_slot (nat index) 0 (replicate (dataLenOut fb) 0) p1) (\<lambda>p2.
          init_locals fb iKs (ls[iK := (ls ! iK)\<lparr>wdata := nat index, windex := index,
            nToFull := int (packetsPerBlock fb), worder := int iK + 1\<rparr>]) p2))"

definition worker_config_ok :: "fileBuffStruct \<Rightarrow> bool" where
  "worker_config_ok fb \<longleftrightarrow>
     \<not> (nAnts fb < 1 \<or> nAnts fb > of_nat MAX_NO_ANTS \<or> nchans fb < 1 \<or>
        nchans fb > of_nat MAX_CHANNEL_PACKETS \<or> N_FILE_BUFFERS \<le> N_FILE_BUFFERS_AT_A_TIME)"

definition worker_init ::
  "work_local_struct list \<Rightarrow> u64 \<Rightarrow> u64 \<Rightarrow> udpBuffStruct \<Rightarrow> fileBuffStruct \<Rightarrow> held_move list \<Rightarrow> worker cres"
where
  "worker_init junk junkNext junkLast ip fb es =
     cbind (init_locals fb [0..<N_FILE_BUFFERS_AT_A_TIME] junk (udpBuff fb)) (\<lambda>(ls, p).
       Inr \<lparr>inpool = ip, fbuf = fb\<lparr>udpBuff := p\<rparr>, locals = ls, ants = replicate MAX_NO_ANTS (-1),
         next_order = int N_FILE_BUFFERS_AT_A_TIME + 1, nextStructPacketNo = junkNext,
         lastSentPacketNo = junkLast, noMissing = 0, first_loop_done = False, moves = es\<rparr>)"

text \<open>The main loop along a schedule of passes, and the return of the blocks at the end.\<close>

type_synonym pass_moves = "(pool_move \<times> bool) list \<times> pool_move \<times> held_move"

fun worker_main :: "(bool \<times> pass_moves) list \<Rightarrow> worker \<Rightarrow> worker cres" where
  "worker_main [] st = Inl Blocked"
| "worker_main ((keep_going, es, between, during) # sched) st =
     (if keep_going then cbind (worker_pass es between during st) (worker_main sched) else Inr st)"

fun release_locals :: "work_local_struct list \<Rightarrow> udpBuffStruct \<Rightarrow> udpBuffStruct cres" where
  "release_locals [] p = Inr p"
| "release_locals (l # ls) p = cbind (returnEmptyBuffer p (windex l)) (release_locals ls)"

text \<open>The result is \<open>None\<close> when the configuration is refused; the code then also raises SIGINT.\<close>

definition worker_work ::
  "(bool \<times> pass_moves) list \<Rightarrow> work_local_struct list \<Rightarrow> u64 \<Rightarrow> u64 \<Rightarrow> udpBuffStruct \<Rightarrow> fileBuffStruct \<Rightarrow>
   held_move list \<Rightarrow> worker option cres" where
  "worker_work sched junk junkNext junkLast ip fb es =
     (if \<not> worker_config_ok fb then Inr None
      else cbind (worker_init junk junkNext junkLast ip fb es) (\<lambda>st.
           cbind (worker_main sched st) (\<lambda>st'.
           cbind (release_locals (locals st') (fpool st')) (\<lambda>p. Inr (Some (set_fpool p st'))))))"

section \<open>Integer arithmetic of the sorter\<close>

text \<open>
  The channel index is exact for channels from \<^verbatim>\<open>firstChan\<close> on, and negative below: the
  wrapped difference keeps its sign through the cut to 32 bits.
\<close>

lemma currChanNo_ge:
  assumes "unat first \<le> unat (GET_CHAN_NO hdr)"
  shows "currChanNo hdr first = int ((unat (GET_CHAN_NO hdr) - unat first) div 256)"
proof -
  let ?x = "GET_CHAN_NO hdr - ucast first :: u64"
  have f: "unat (ucast first :: u64) = unat first"
    using unat_less_exp [of first] by (simp add: unsigned_ucast_eq take_bit_nat_eq_self)
  have x: "unat ?x = unat (GET_CHAN_NO hdr) - unat first"
    using assms f by (simp add: unat_sub_if')
  have lt: "unat (?x div 256) < 2 ^ 12"
    using unat_GET_CHAN_NO_less [of hdr] x by (simp add: unat_div)
  have u: "unat (ucast (?x div 256) :: u32) = unat (?x div 256)"
    using lt by (simp add: unsigned_ucast_eq take_bit_nat_eq_self)
  then have "uint (ucast (?x div 256) :: u32) < 2 ^ 31"
    using lt by (simp add: uint_nat del: of_nat_unat)
  then show ?thesis
    using u x unfolding currChanNo_def CHANS_PER_PACKET_def
    by (simp add: sint_cases uint_nat unat_div del: of_nat_unat)
qed

lemma wrapped_quotient_large:
  assumes "0 < d" "d < (2::nat) ^ 32"
  shows "2 ^ 31 \<le> (2 ^ 64 - d) div 256 mod 2 ^ 32"
proof -
  define q where "q = (2 ^ 64 - d) div 256"
  have "q \<ge> 2 ^ 56 - 2 ^ 24" "q < 2 ^ 56" using assms unfolding q_def by (auto simp: less_eq_div_iff_mult_less_eq div_less_iff_less_mult)
  moreover from this have "q div 2 ^ 32 = 2 ^ 24 - 1" by (intro div_nat_eqI) auto
  moreover have "2 ^ 32 * (q div 2 ^ 32) + q mod 2 ^ 32 = q" by (rule mult_div_mod_eq)
  ultimately show ?thesis unfolding q_def [symmetric] by simp
qed

lemma currChanNo_less:
  assumes "unat (GET_CHAN_NO hdr) < unat first"
  shows "currChanNo hdr first < 0"
proof -
  let ?x = "GET_CHAN_NO hdr - ucast first :: u64"
  let ?d = "unat first - unat (GET_CHAN_NO hdr)"
  have f: "unat (ucast first :: u64) = unat first"
    using unat_less_exp [of first] by (simp add: unsigned_ucast_eq take_bit_nat_eq_self)
  have x: "unat ?x = 2 ^ 64 - ?d"
    using assms f by (simp add: unat_sub_if')
  have d: "0 < ?d" "?d < 2 ^ 32" using assms unat_less_exp [of first] by auto
  have "unat (?x div 256) mod 2 ^ 32 \<ge> 2 ^ 31"
    using wrapped_quotient_large [OF d] x by (simp add: unat_div)
  then have "unat (ucast (?x div 256) :: u32) \<ge> 2 ^ 31"
    by (simp add: unsigned_ucast_eq take_bit_eq_mod)
  then have "\<not> uint (ucast (?x div 256) :: u32) < 2 ^ 31"
    by (simp add: uint_nat del: of_nat_unat)
  then show ?thesis unfolding currChanNo_def CHANS_PER_PACKET_def
    using unsigned_less [of "ucast (?x div 256) :: u32", where ?'a=int] by (simp add: sint_cases)
qed
text \<open>What the configuration test leaves.\<close>

definition sorter_dims :: "fileBuffStruct \<Rightarrow> bool" where
  "sorter_dims fb \<longleftrightarrow> 0 < unat (nAnts fb) \<and> unat (nAnts fb) \<le> 4 \<and> 0 < unat (nchans fb) \<and> unat (nchans fb) \<le> 32"

lemma worker_config_ok_dims: "worker_config_ok fb \<longleftrightarrow> sorter_dims fb"
  by (auto simp: worker_config_ok_def sorter_dims_def cconst word_less_nat_alt unat_gt_0)

lemma accepts_channel:
  assumes "accepts fb tab hdr" "sorter_dims fb"
  obtains c where "currChanNo hdr (firstChan fb) = int c" "c < unat (nchans fb)"
    "unat (firstChan fb) \<le> unat (GET_CHAN_NO hdr)" "c = (unat (GET_CHAN_NO hdr) - unat (firstChan fb)) div 256"
proof -
  have nn: "0 \<le> currChanNo hdr (firstChan fb)" and lt: "word_of_int (currChanNo hdr (firstChan fb)) < nchans fb"
    using assms(1) by (auto simp: accepts_def Let_def)
  then have le: "unat (firstChan fb) \<le> unat (GET_CHAN_NO hdr)"
    using currChanNo_less [of hdr "firstChan fb"] by linarith
  define c where "c = (unat (GET_CHAN_NO hdr) - unat (firstChan fb)) div 256"
  have c: "currChanNo hdr (firstChan fb) = int c" using currChanNo_ge [OF le] by (simp add: c_def)
  have "c < 2 ^ 12" using unat_GET_CHAN_NO_less [of hdr] unfolding c_def by linarith
  with lt c have "c < unat (nchans fb)" by (simp add: word_less_nat_alt unat_word_of_int del: of_int_of_nat_eq)
  with c le show thesis using that c_def by blast
qed

lemma accepts_antenna:
  assumes "accepts fb tab hdr"
  obtains a where "getAntIndex tab (ucast (GET_ANT_NO hdr)) (nAnts fb) = int a" "a < unat (nAnts fb)"
    "tab ! a = ucast (GET_ANT_NO hdr)"
proof -
  let ?r = "getAntIndex tab (ucast (GET_ANT_NO hdr)) (nAnts fb)"
  have "?r \<noteq> -1" using assms by (auto simp: accepts_def Let_def)
  from getAntIndex_range [OF this] show thesis by (intro that [of "nat ?r"]) auto
qed

section \<open>The layout of a block\<close>

definition block_valid :: "nat \<Rightarrow> nat \<Rightarrow> nat \<times> nat \<times> nat \<Rightarrow> bool" where
  "block_valid na nc = (\<lambda>(t, a, c). t < TIME_INT_PER_BUFFER \<and> a < na \<and> c < nc)"

definition block_offset :: "nat \<Rightarrow> nat \<Rightarrow> nat \<times> nat \<times> nat \<Rightarrow> nat" where
  "block_offset na nc = (\<lambda>(t, a, c). ((t * na + a) * nc + c) * RX_DATA_LEN)"

definition block_total :: "nat \<Rightarrow> nat \<Rightarrow> nat" where
  "block_total na nc = TIME_INT_PER_BUFFER * na * nc * RX_DATA_LEN"

interpretation block_cells: cell_layout "block_valid na nc" "block_offset na nc" RX_DATA_LEN
  "block_total na nc" for na nc
proof unfold_locales
  fix k assume "block_valid na nc k"
  then obtain t a c where k: "k = (t, a, c)" "t < TIME_INT_PER_BUFFER" "a < na" "c < nc"
    by (auto simp: block_valid_def)
  have "(t * na + a) * nc + c < TIME_INT_PER_BUFFER * na * nc"
    using row_major_less [OF row_major_less [OF k(2,3)] k(4)] .
  then have "Suc ((t * na + a) * nc + c) * RX_DATA_LEN \<le> TIME_INT_PER_BUFFER * na * nc * RX_DATA_LEN"
    by (intro mult_le_mono1) simp
  then show "block_offset na nc k + RX_DATA_LEN \<le> block_total na nc"
    by (simp add: k block_offset_def block_total_def)
next
  fix k k' assume v: "block_valid na nc k" "block_valid na nc k'" "k \<noteq> k'"
  obtain t a c t' a' c' where k: "k = (t, a, c)" "k' = (t', a', c')" by (cases k, cases k')
  have "(t * na + a) * nc + c \<noteq> (t' * na + a') * nc + c'"
    using v row_major_inject [of c nc c' "t * na + a" "t' * na + a'"] row_major_inject [of a na a' t t']
    by (auto simp: k block_valid_def)
  from stride_separate [OF this, of RX_DATA_LEN]
  show "block_offset na nc k + RX_DATA_LEN \<le> block_offset na nc k' \<or>
      block_offset na nc k' + RX_DATA_LEN \<le> block_offset na nc k"
    by (simp add: k block_offset_def)
qed

lemma unat_packetsPerBlock:
  assumes "sorter_dims fb"
  shows "packetsPerBlock fb = unat (nAnts fb) * unat (nchans fb) * TIME_INT_PER_BUFFER"
    "dataLenOut fb = block_total (unat (nAnts fb)) (unat (nchans fb))"
    "dataLenOut fb \<le> FILE_BUFFER_SIZE"
proof -
  let ?a = "unat (nAnts fb)" and ?c = "unat (nchans fb)"
  have ac: "?a * ?c \<le> 4 * 32" using assms unfolding sorter_dims_def by (intro mult_le_mono) auto
  have 1: "unat (nAnts fb * nchans fb) = ?a * ?c" using ac by (intro unat_mult_small) simp
  have "unat (nAnts fb * nchans fb * of_nat TIME_INT_PER_BUFFER) = ?a * ?c * 128"
    using ac 1 by (subst unat_mult_small) (simp_all add: cconst)
  then show p: "packetsPerBlock fb = ?a * ?c * TIME_INT_PER_BUFFER"
    by (simp add: packetsPerBlock_def cconst)
  show "dataLenOut fb = block_total ?a ?c"
    by (simp add: dataLenOut_def p block_total_def ac_simps)
  show "dataLenOut fb \<le> FILE_BUFFER_SIZE" using ac by (simp add: dataLenOut_def p cconst)
qed

text \<open>The 32-bit offset does not wrap.\<close>

lemma unat_cell_offset:
  assumes "sorter_dims fb" "unat t < 128" "unat a < unat (nAnts fb)" "unat c < unat (nchans fb)"
  shows "unat (cell_offset (nAnts fb) (nchans fb) t a c) =
    block_offset (unat (nAnts fb)) (unat (nchans fb)) (unat t, unat a, unat c)"
proof -
  let ?na = "unat (nAnts fb)" and ?nc = "unat (nchans fb)"
  have d: "?na \<le> 4" "?nc \<le> 32" using assms(1) by (auto simp: sorter_dims_def)
  have b1: "unat t * ?na \<le> 127 * 4" using assms(2) d by (intro mult_le_mono) auto
  have b2: "unat t * ?na * ?nc \<le> 127 * 4 * 32" by (rule mult_le_mono [OF b1 d(2)])
  have b3: "unat a * ?nc \<le> 3 * 32" using assms(3) d by (intro mult_le_mono) auto
  have b4: "unat c \<le> 31" using assms(4) d by simp
  have 1: "unat (t * nAnts fb) = unat t * ?na" using b1 by (intro unat_mult_small) simp
  have 2: "unat (t * nAnts fb * nchans fb) = unat t * ?na * ?nc"
    using b2 1 by (subst unat_mult_small) simp_all
  have 3: "unat (a * nchans fb) = unat a * ?nc" using b3 by (intro unat_mult_small) simp
  have 4: "unat (t * nAnts fb * nchans fb + a * nchans fb) = unat t * ?na * ?nc + unat a * ?nc"
    using b2 b3 2 3 by (subst unat_add_small) simp_all
  have 5: "unat (t * nAnts fb * nchans fb + a * nchans fb + c) = unat t * ?na * ?nc + unat a * ?nc + unat c"
    using b2 b3 b4 4 by (subst unat_add_small) simp_all
  let ?x = "t * nAnts fb * nchans fb + a * nchans fb + c"
  have "unat ?x \<le> 127 * 4 * 32 + 3 * 32 + 31" unfolding 5 using b2 b3 b4 by simp
  then have "unat (?x * 8192) = unat ?x * 8192" by (subst unat_mult_small) simp_all
  then show ?thesis unfolding 5 by (simp add: cell_offset_def block_offset_def cconst distrib_right)
qed

section \<open>Sorting a packet into its cell\<close>

lemma findStructIndex_find_from:
  "findStructIndex ls n x = find_from (\<lambda>k. packetNo (ls ! k) = x) n 0"
proof -
  have "findStructIndex_loop ls n x i = find_from (\<lambda>k. packetNo (ls ! k) = x) n i" for i
    by (induction ls n x i rule: findStructIndex_loop.induct)
      (simp add: findStructIndex_loop.simps find_from.simps)
  then show ?thesis by (simp add: findStructIndex_def)
qed

text \<open>The cell of a packet: its time slot, the index of its antenna, its channel group.\<close>

definition packet_cell :: "fileBuffStruct \<Rightarrow> u32 list \<Rightarrow> u64 \<Rightarrow> nat \<times> nat \<times> nat" where
  "packet_cell fb tab hdr =
     (unat (GET_PACKET_REST (GET_PCKT_NO hdr)), nat (getAntIndex tab (ucast (GET_ANT_NO hdr)) (nAnts fb)),
      nat (currChanNo hdr (firstChan fb)))"

text \<open>The content of a cell of a block.\<close>

definition cell_at :: "fileBuffStruct \<Rightarrow> u8 list \<Rightarrow> nat \<times> nat \<times> nat \<Rightarrow> u8 list" where
  "cell_at fb buf cell = peek (block_offset (unat (nAnts fb)) (unat (nchans fb)) cell) RX_DATA_LEN buf"

abbreviation valid_cell :: "fileBuffStruct \<Rightarrow> nat \<times> nat \<times> nat \<Rightarrow> bool" where
  "valid_cell fb \<equiv> block_valid (unat (nAnts fb)) (unat (nchans fb))"

abbreviation packet_block :: "u64 \<Rightarrow> u64" where
  "packet_block hdr \<equiv> GET_PACKET_FILTER (GET_PCKT_NO hdr)"

lemma accepted_cell:
  assumes "accepts fb tab hdr" "sorter_dims fb"
  shows "valid_cell fb (packet_cell fb tab hdr)"
    "unat (cell_offset (nAnts fb) (nchans fb) (ucast (GET_PACKET_REST (GET_PCKT_NO hdr)))
       (word_of_int (getAntIndex tab (ucast (GET_ANT_NO hdr)) (nAnts fb)))
       (word_of_int (currChanNo hdr (firstChan fb)))) =
     block_offset (unat (nAnts fb)) (unat (nchans fb)) (packet_cell fb tab hdr)"
proof -
  obtain c where c: "currChanNo hdr (firstChan fb) = int c" "c < unat (nchans fb)"
    using accepts_channel [OF assms] by blast
  obtain a where a: "getAntIndex tab (ucast (GET_ANT_NO hdr)) (nAnts fb) = int a" "a < unat (nAnts fb)"
    using accepts_antenna [OF assms(1)] by blast
  let ?t = "ucast (GET_PACKET_REST (GET_PCKT_NO hdr)) :: u32"
  have t: "unat (GET_PACKET_REST (GET_PCKT_NO hdr)) < 128"
    using GET_PACKET_REST_less [of "GET_PCKT_NO hdr"] by (simp add: cconst)
  then have ut: "unat ?t = unat (GET_PACKET_REST (GET_PCKT_NO hdr))"
    by (intro unat_ucast_small) simp
  have ua: "unat (word_of_int (int a) :: u32) = a"
    using a(2) unat_less_exp [of "nAnts fb"] by (intro unat_word_of_int) simp
  have uc: "unat (word_of_int (int c) :: u32) = c"
    using c(2) unat_less_exp [of "nchans fb"] by (intro unat_word_of_int) simp
  show "valid_cell fb (packet_cell fb tab hdr)"
    using t a c by (simp add: block_valid_def packet_cell_def cconst)
  show "unat (cell_offset (nAnts fb) (nchans fb) ?t
       (word_of_int (getAntIndex tab (ucast (GET_ANT_NO hdr)) (nAnts fb)))
       (word_of_int (currChanNo hdr (firstChan fb)))) =
     block_offset (unat (nAnts fb)) (unat (nchans fb)) (packet_cell fb tab hdr)"
    unfolding a(1) c(1) using unat_cell_offset [OF assms(2), of ?t "word_of_int (int a)" "word_of_int (int c)"]
      t a(2) c(2) unfolding ut ua uc by (simp add: packet_cell_def a c)
qed

lemma place_packet_cases:
  assumes "sorter_dims fb"
  obtains (ignored) "\<not> accepts fb tab hdr \<or> (\<forall>k<N_FILE_BUFFERS_AT_A_TIME. packetNo (ls ! k) \<noteq> packet_block hdr)"
      "place_packet fb tab hdr payload ls p = Inr (ls, p)"
    | (placed) k where "accepts fb tab hdr" "k < N_FILE_BUFFERS_AT_A_TIME" "packetNo (ls ! k) = packet_block hdr"
      "\<And>j. j < k \<Longrightarrow> packetNo (ls ! j) \<noteq> packet_block hdr"
      "place_packet fb tab hdr payload ls p =
         cbind (write_slot (wdata (ls ! k))
             (block_offset (unat (nAnts fb)) (unat (nchans fb)) (packet_cell fb tab hdr)) payload p)
           (\<lambda>p'. Inr (ls[k := (ls ! k)\<lparr>nToFull := nToFull (ls ! k) - 1\<rparr>], p'))"
proof (cases "accepts fb tab hdr")
  case False
  then show thesis using ignored by (simp add: place_packet_def)
next
  case acc: True
  show thesis
  proof (cases rule: find_fromE [of "\<lambda>k. packetNo (ls ! k) = packet_block hdr" N_FILE_BUFFERS_AT_A_TIME])
    case none
    then show thesis
      using ignored acc by (simp add: place_packet_def findStructIndex_find_from Let_def)
  next
    case (some k)
    then show thesis
      using placed [of k] acc accepted_cell(2) [OF acc assms]
      by (simp add: place_packet_def findStructIndex_find_from Let_def)
  qed
qed

text \<open>The blocks of the worker are in distinct buffers, large enough for a block.\<close>

definition blocks_ok :: "work_local_struct list \<Rightarrow> udpBuffStruct \<Rightarrow> bool" where
  "blocks_ok ls p \<longleftrightarrow> length ls = N_FILE_BUFFERS_AT_A_TIME \<and> distinct (map wdata ls) \<and>
     (\<forall>l\<in>set ls. wdata l < length (bufData p)) \<and> (\<forall>b\<in>set (bufData p). FILE_BUFFER_SIZE \<le> length b)"

lemma blocks_okD:
  assumes "blocks_ok ls p" "k < N_FILE_BUFFERS_AT_A_TIME"
  shows "wdata (ls ! k) < length (bufData p)" "FILE_BUFFER_SIZE \<le> length (bufData p ! wdata (ls ! k))"
    "j < N_FILE_BUFFERS_AT_A_TIME \<Longrightarrow> wdata (ls ! j) = wdata (ls ! k) \<longleftrightarrow> j = k"
proof -
  show 1: "wdata (ls ! k) < length (bufData p)" using assms by (simp add: blocks_ok_def)
  then show "FILE_BUFFER_SIZE \<le> length (bufData p ! wdata (ls ! k))" using assms by (simp add: blocks_ok_def)
  assume "j < N_FILE_BUFFERS_AT_A_TIME"
  then show "wdata (ls ! j) = wdata (ls ! k) \<longleftrightarrow> j = k"
    using assms nth_eq_iff_index_eq [of "map wdata ls" j k] by (simp add: blocks_ok_def)
qed

lemma blocks_ok_write:
  assumes "blocks_ok ls p" "write_slot i off src p = Inr p'" "map wdata ls' = map wdata ls"
  shows "blocks_ok ls' p'"
proof -
  have len: "length ls' = length ls" using assms(3) by (metis length_map)
  have im: "wdata ` set ls' = wdata ` set ls" using assms(3) by (metis set_map)
  have "wdata l < length (bufData p')" if "l \<in> set ls'" for l
  proof -
    have "wdata l \<in> wdata ` set ls" unfolding im [symmetric] using that by simp
    then show ?thesis using assms(1) write_slot_frame(5) [OF assms(2)] by (auto simp: blocks_ok_def)
  qed
  moreover have "\<forall>b\<in>set (bufData p'). FILE_BUFFER_SIZE \<le> length b"
  proof
    fix b assume "b \<in> set (bufData p')"
    then obtain j where "j < length (bufData p')" "b = bufData p' ! j" by (auto simp: in_set_conv_nth)
    then show "FILE_BUFFER_SIZE \<le> length b"
      using write_slot_frame(5,7) [OF assms(2)] write_slot_frame(6) [OF assms(2), of j] assms(1) by (cases "j = i") (auto simp: blocks_ok_def)
  qed
  ultimately show ?thesis
    using assms(1,3) len by (simp add: blocks_ok_def)
qed

lemma place_packet_step:
  assumes "sorter_dims fb" "blocks_ok ls p" "length payload = RX_DATA_LEN" "accepts fb tab hdr"
    "k < N_FILE_BUFFERS_AT_A_TIME" "packetNo (ls ! k) = packet_block hdr"
    "\<And>j. j < k \<Longrightarrow> packetNo (ls ! j) \<noteq> packet_block hdr"
  shows "\<exists>p'. place_packet fb tab hdr payload ls p =
      Inr (ls[k := (ls ! k)\<lparr>nToFull := nToFull (ls ! k) - 1\<rparr>], p') \<and>
    write_slot (wdata (ls ! k))
      (block_offset (unat (nAnts fb)) (unat (nchans fb)) (packet_cell fb tab hdr)) payload p = Inr p' \<and>
    cell_at fb (bufData p' ! wdata (ls ! k)) (packet_cell fb tab hdr) = payload \<and>
    (\<forall>cell. valid_cell fb cell \<and> cell \<noteq> packet_cell fb tab hdr \<longrightarrow>
      cell_at fb (bufData p' ! wdata (ls ! k)) cell = cell_at fb (bufData p ! wdata (ls ! k)) cell)"
proof -
  let ?i = "wdata (ls ! k)" and ?cell = "packet_cell fb tab hdr"
  let ?off = "block_offset (unat (nAnts fb)) (unat (nchans fb))"
  note v = accepted_cell(1) [OF assms(4,1)]
  have room: "block_total (unat (nAnts fb)) (unat (nchans fb)) \<le> length (bufData p ! ?i)"
    using unat_packetsPerBlock(2,3) [OF assms(1)] blocks_okD(2) [OF assms(2,5)] by simp
  have "?off ?cell + length payload \<le> length (bufData p ! ?i)"
    using block_cells.in_range [OF v] room assms(3) by simp
  then obtain p' where w: "write_slot ?i (?off ?cell) payload p = Inr p'"
    using write_slot_ok [OF blocks_okD(1) [OF assms(2,5)]] by blast
  note b = write_slot_frame(8) [OF w]
  have "place_packet fb tab hdr payload ls p = Inr (ls[k := (ls ! k)\<lparr>nToFull := nToFull (ls ! k) - 1\<rparr>], p')"
    using assms(1)
  proof (cases rule: place_packet_cases [where tab = tab and hdr = hdr and ls = ls and p = p and payload = payload])
    case ignored
    with assms(4-6) show ?thesis by auto
  next
    case (placed j)
    have "j = k" using placed(3,4) assms(6,7) by (metis linorder_neqE_nat)
    with placed w show ?thesis by simp
  qed
  then show ?thesis
    using w block_cells.read_written [OF b assms(3)] block_cells.read_other [OF b assms(3) room v]
    by (auto simp: cell_at_def)
qed

section \<open>Sorting a run of packets\<close>

fun place_list :: "fileBuffStruct \<Rightarrow> u32 list \<Rightarrow> (u64 \<times> u8 list) list \<Rightarrow>
   work_local_struct list \<Rightarrow> udpBuffStruct \<Rightarrow> (work_local_struct list \<times> udpBuffStruct) cres" where
  "place_list fb tab [] ls p = Inr (ls, p)"
| "place_list fb tab ((hdr, payload) # pkts) ls p =
     cbind (place_packet fb tab hdr payload ls p) (\<lambda>(ls', p'). place_list fb tab pkts ls' p')"

text \<open>The packets of a received buffer, as the loops read them.\<close>

definition packet_at :: "u8 list \<Rightarrow> nat \<Rightarrow> u64 \<times> u8 list" where
  "packet_at input iK = (be_word (peek (iK * RX_MSG_LEN) RX_BUFF_LEN input),
     peek (iK * RX_MSG_LEN + RX_BUFF_LEN) RX_DATA_LEN input)"

definition packets_of :: "u8 list \<Rightarrow> nat \<Rightarrow> (u64 \<times> u8 list) list" where
  "packets_of input n = map (packet_at input) [0..<n]"

lemma packet_in_buffer:
  assumes "n * RX_MSG_LEN \<le> length input" "i < n"
  shows "i * RX_MSG_LEN + RX_BUFF_LEN + RX_DATA_LEN \<le> length input"
proof -
  have "Suc i * RX_MSG_LEN \<le> n * RX_MSG_LEN" using assms(2) by (intro mult_le_mono1) simp
  with assms(1) show ?thesis by (simp add: cconst)
qed

lemma packet_reads:
  assumes "n * RX_MSG_LEN \<le> length input" "i < n"
  shows "packet_header input i = Inr (fst (packet_at input i))"
    "packet_payload input i = Inr (snd (packet_at input i))"
    "length (snd (packet_at input i)) = RX_DATA_LEN"
  using packet_in_buffer [OF assms]
  by (simp_all add: packet_header_def packet_payload_def packet_at_def length_peek)

lemma place_loop_list:
  assumes "n * RX_MSG_LEN \<le> length input" "\<And>i. i \<in> set iKs \<Longrightarrow> i < n"
  shows "place_loop input fb tab iKs ls p = place_list fb tab (map (packet_at input) iKs) ls p"
  using assms(2)
proof (induction iKs arbitrary: ls p)
  case Nil
  then show ?case by simp
next
  case (Cons i iKs)
  then have "i < n" by simp
  note r = packet_reads [OF assms(1) this]
  obtain h d where hd: "packet_at input i = (h, d)" by fastforce
  from Cons r show ?case by (simp add: hd cbind_def split: sum.splits)
qed

text \<open>What a block should hold: the last packet of the run for a cell, or what was there before.\<close>

definition goes_to :: "fileBuffStruct \<Rightarrow> u32 list \<Rightarrow> u64 \<Rightarrow> u64 \<Rightarrow> bool" where
  "goes_to fb tab x hdr \<longleftrightarrow> accepts fb tab hdr \<and> packet_block hdr = x"

fun last_write :: "fileBuffStruct \<Rightarrow> u32 list \<Rightarrow> u64 \<Rightarrow> nat \<times> nat \<times> nat \<Rightarrow>
   (u64 \<times> u8 list) list \<Rightarrow> u8 list \<Rightarrow> u8 list" where
  "last_write fb tab x cell [] old = old"
| "last_write fb tab x cell ((hdr, payload) # pkts) old =
     last_write fb tab x cell pkts
       (if goes_to fb tab x hdr \<and> packet_cell fb tab hdr = cell then payload else old)"

definition arrivals :: "fileBuffStruct \<Rightarrow> u32 list \<Rightarrow> u64 \<Rightarrow> (u64 \<times> u8 list) list \<Rightarrow> u64 list" where
  "arrivals fb tab x pkts = filter (goes_to fb tab x) (map fst pkts)"

text \<open>Everything of the pool but the contents of the worker's own buffers stays.\<close>

definition same_books :: "nat set \<Rightarrow> udpBuffStruct \<Rightarrow> udpBuffStruct \<Rightarrow> bool" where
  "same_books own p p' \<longleftrightarrow> orderNo p' = orderNo p \<and> dataLen p' = dataLen p \<and> NReady p' = NReady p \<and>
     noBuffers p' = noBuffers p \<and> length (bufData p') = length (bufData p) \<and>
     (\<forall>i. i \<notin> own \<longrightarrow> bufData p' ! i = bufData p ! i)"

lemma same_books_refl: "same_books own p p"
  by (simp add: same_books_def)

lemma same_books_trans: "same_books own p p' \<Longrightarrow> same_books own p' p'' \<Longrightarrow> same_books own p p''"
  by (simp add: same_books_def)

lemma same_books_write: "write_slot i off src p = Inr p' \<Longrightarrow> i \<in> own \<Longrightarrow> same_books own p p'"
  using write_slot_frame [of i off src p p'] unfolding same_books_def by metis

definition same_blocks :: "work_local_struct list \<Rightarrow> work_local_struct list \<Rightarrow> bool" where
  "same_blocks ls ls' \<longleftrightarrow> length ls' = length ls \<and>
     (\<forall>k<length ls. \<exists>n. ls' ! k = (ls ! k)\<lparr>nToFull := n\<rparr>)"

lemma same_blocksD:
  assumes "same_blocks ls ls'"
  shows "map wdata ls' = map wdata ls" "map packetNo ls' = map packetNo ls"
    "map windex ls' = map windex ls" "map worder ls' = map worder ls" "length ls' = length ls"
  using assms unfolding same_blocks_def by (auto intro!: nth_equalityI)

lemma nToFull_self [simp]: "\<exists>n. l = (l :: work_local_struct)\<lparr>nToFull := n\<rparr>"
  by (rule exI [of _ "nToFull l"]) simp

lemma same_blocks_refl: "same_blocks ls ls"
  by (simp add: same_blocks_def)

lemma same_blocks_trans: "same_blocks ls ls' \<Longrightarrow> same_blocks ls' ls'' \<Longrightarrow> same_blocks ls ls''"
  unfolding same_blocks_def by (metis (no_types, lifting) work_local_struct.surjective
    work_local_struct.update_convs(5))

lemma place_packet_sorts:
  assumes "sorter_dims fb" "blocks_ok ls p" "distinct (map packetNo ls)" "length payload = RX_DATA_LEN"
  shows "\<exists>ls' p'. place_packet fb tab hdr payload ls p = Inr (ls', p') \<and> same_blocks ls ls' \<and>
    blocks_ok ls' p' \<and> same_books (wdata ` set ls) p p' \<and>
    (\<forall>k<N_FILE_BUFFERS_AT_A_TIME.
      nToFull (ls' ! k) = nToFull (ls ! k) - (if goes_to fb tab (packetNo (ls ! k)) hdr then 1 else 0) \<and>
      (\<forall>cell. valid_cell fb cell \<longrightarrow> cell_at fb (bufData p' ! wdata (ls ! k)) cell =
        last_write fb tab (packetNo (ls ! k)) cell [(hdr, payload)] (cell_at fb (bufData p ! wdata (ls ! k)) cell)))"
  using assms(1)
proof (cases rule: place_packet_cases [where tab = tab and hdr = hdr and ls = ls and p = p and payload = payload])
  case ignored
  have "\<not> goes_to fb tab (packetNo (ls ! k)) hdr" if "k < N_FILE_BUFFERS_AT_A_TIME" for k
    using ignored(1) that by (auto simp: goes_to_def)
  then show ?thesis using ignored(2) assms(2)
    by (auto simp: same_books_refl same_blocks_refl)
next
  case (placed k)
  have len: "length ls = N_FILE_BUFFERS_AT_A_TIME" using assms(2) by (simp add: blocks_ok_def)
  from place_packet_step [OF assms(1,2,4) placed(1-4)]
  obtain p' where r: "place_packet fb tab hdr payload ls p =
      Inr (ls[k := (ls ! k)\<lparr>nToFull := nToFull (ls ! k) - 1\<rparr>], p')"
    and w: "write_slot (wdata (ls ! k))
      (block_offset (unat (nAnts fb)) (unat (nchans fb)) (packet_cell fb tab hdr)) payload p = Inr p'"
    and c: "cell_at fb (bufData p' ! wdata (ls ! k)) (packet_cell fb tab hdr) = payload"
    "\<And>cell. valid_cell fb cell \<Longrightarrow> cell \<noteq> packet_cell fb tab hdr \<Longrightarrow>
      cell_at fb (bufData p' ! wdata (ls ! k)) cell = cell_at fb (bufData p ! wdata (ls ! k)) cell"
    by blast
  let ?ls = "ls[k := (ls ! k)\<lparr>nToFull := nToFull (ls ! k) - 1\<rparr>]"
  have sb: "same_blocks ls ?ls"
    using placed(2) len by (auto simp: same_blocks_def nth_list_update)
  have goes: "goes_to fb tab (packetNo (ls ! j)) hdr \<longleftrightarrow> j = k" if "j < N_FILE_BUFFERS_AT_A_TIME" for j
    using that placed(1-3) assms(3) len nth_eq_iff_index_eq [of "map packetNo ls" j k]
    by (auto simp: goes_to_def)
  have other: "bufData p' ! wdata (ls ! j) = bufData p ! wdata (ls ! j)"
    if "j < N_FILE_BUFFERS_AT_A_TIME" "j \<noteq> k" for j
    using blocks_okD(3) [OF assms(2) placed(2) that(1)] that(2) by (intro write_slot_frame(6) [OF w]) simp
  have "wdata (ls ! k) \<in> wdata ` set ls" using placed(2) len by simp
  with w have "same_books (wdata ` set ls) p p'" by (rule same_books_write)
  moreover have "blocks_ok ?ls p'" by (rule blocks_ok_write [OF assms(2) w same_blocksD(1) [OF sb]])
  moreover have "nToFull (?ls ! j) = nToFull (ls ! j) - (if goes_to fb tab (packetNo (ls ! j)) hdr then 1 else 0)"
    "\<forall>cell. valid_cell fb cell \<longrightarrow> cell_at fb (bufData p' ! wdata (ls ! j)) cell =
      last_write fb tab (packetNo (ls ! j)) cell [(hdr, payload)] (cell_at fb (bufData p ! wdata (ls ! j)) cell)"
    if "j < N_FILE_BUFFERS_AT_A_TIME" for j
    using that goes [OF that] other [OF that] c len by (auto simp: nth_list_update)
  ultimately show ?thesis using r sb by blast
qed

lemma same_blocks_nth:
  assumes "same_blocks ls ls'" "k < length ls"
  shows "wdata (ls' ! k) = wdata (ls ! k)" "packetNo (ls' ! k) = packetNo (ls ! k)"
  using assms unfolding same_blocks_def by fastforce+

lemma place_list_lemma:
  assumes "sorter_dims fb" "blocks_ok ls p" "distinct (map packetNo ls)"
    "\<forall>pkt\<in>set pkts. length (snd pkt) = RX_DATA_LEN"
  shows "\<exists>ls' p'. place_list fb tab pkts ls p = Inr (ls', p') \<and> same_blocks ls ls' \<and>
    blocks_ok ls' p' \<and> same_books (wdata ` set ls) p p' \<and>
    (\<forall>k<N_FILE_BUFFERS_AT_A_TIME.
      nToFull (ls' ! k) = nToFull (ls ! k) - int (length (arrivals fb tab (packetNo (ls ! k)) pkts)) \<and>
      (\<forall>cell. valid_cell fb cell \<longrightarrow> cell_at fb (bufData p' ! wdata (ls ! k)) cell =
        last_write fb tab (packetNo (ls ! k)) cell pkts (cell_at fb (bufData p ! wdata (ls ! k)) cell)))"
  using assms(2-)
proof (induction pkts arbitrary: ls p)
  case Nil
  then show ?case by (simp add: same_blocks_refl same_books_refl arrivals_def)
next
  case (Cons pkt pkts)
  obtain hdr payload where pkt: "pkt = (hdr, payload)" by fastforce
  have "length payload = RX_DATA_LEN" using Cons.prems(3) pkt by simp
  from place_packet_sorts [OF assms(1) Cons.prems(1,2) this, of tab hdr]
  obtain ls1 p1 where s1: "place_packet fb tab hdr payload ls p = Inr (ls1, p1)" "same_blocks ls ls1"
    "blocks_ok ls1 p1" "same_books (wdata ` set ls) p p1"
    and e1: "\<And>k. k < N_FILE_BUFFERS_AT_A_TIME \<Longrightarrow>
      nToFull (ls1 ! k) = nToFull (ls ! k) - (if goes_to fb tab (packetNo (ls ! k)) hdr then 1 else 0)"
    and c1: "\<And>k cell. k < N_FILE_BUFFERS_AT_A_TIME \<Longrightarrow> valid_cell fb cell \<Longrightarrow>
      cell_at fb (bufData p1 ! wdata (ls ! k)) cell =
        last_write fb tab (packetNo (ls ! k)) cell [(hdr, payload)] (cell_at fb (bufData p ! wdata (ls ! k)) cell)"
    by metis
  note m1 = same_blocksD [OF s1(2)]
  have own: "wdata ` set ls1 = wdata ` set ls" using m1(1) by (metis set_map)
  have "distinct (map packetNo ls1)" using m1(2) Cons.prems(2) by simp
  moreover have "\<forall>pkt\<in>set pkts. length (snd pkt) = RX_DATA_LEN" using Cons.prems(3) by simp
  ultimately obtain ls2 p2 where s2: "place_list fb tab pkts ls1 p1 = Inr (ls2, p2)" "same_blocks ls1 ls2"
    "blocks_ok ls2 p2" "same_books (wdata ` set ls) p1 p2"
    and e2: "\<And>k. k < N_FILE_BUFFERS_AT_A_TIME \<Longrightarrow>
      nToFull (ls2 ! k) = nToFull (ls1 ! k) - int (length (arrivals fb tab (packetNo (ls1 ! k)) pkts))"
    and c2: "\<And>k cell. k < N_FILE_BUFFERS_AT_A_TIME \<Longrightarrow> valid_cell fb cell \<Longrightarrow>
      cell_at fb (bufData p2 ! wdata (ls1 ! k)) cell =
        last_write fb tab (packetNo (ls1 ! k)) cell pkts (cell_at fb (bufData p1 ! wdata (ls1 ! k)) cell)"
    using Cons.IH [OF s1(3)] unfolding own by metis
  have len: "length ls = N_FILE_BUFFERS_AT_A_TIME" using Cons.prems(1) by (simp add: blocks_ok_def)
  have nth: "wdata (ls1 ! k) = wdata (ls ! k)" "packetNo (ls1 ! k) = packetNo (ls ! k)"
    if "k < N_FILE_BUFFERS_AT_A_TIME" for k
    using same_blocks_nth [OF s1(2)] that len by simp_all
  show ?case
    using s1(1) s2(1,3) same_blocks_trans [OF s1(2) s2(2)] same_books_trans [OF s1(4) s2(4)]
      e1 e2 c1 c2 nth
    by (intro exI [of _ ls2] exI [of _ p2]) (simp add: pkt arrivals_def)
qed

text \<open>Counting: a block is full when every cell has had its packet.\<close>

lemma valid_cells_card:
  "finite {cell. valid_cell fb cell}"
  "card {cell. valid_cell fb cell} = TIME_INT_PER_BUFFER * (unat (nAnts fb) * unat (nchans fb))"
proof -
  have "{cell. valid_cell fb cell} =
      {..<TIME_INT_PER_BUFFER} \<times> ({..<unat (nAnts fb)} \<times> {..<unat (nchans fb)})"
    by (auto simp: block_valid_def)
  then show "finite {cell. valid_cell fb cell}"
    "card {cell. valid_cell fb cell} = TIME_INT_PER_BUFFER * (unat (nAnts fb) * unat (nchans fb))"
    by (simp_all add: card_cartesian_product)
qed

lemma last_write_append:
  "last_write fb tab x cell (as @ bs) old = last_write fb tab x cell bs (last_write fb tab x cell as old)"
  by (induction as arbitrary: old) auto

lemma last_write_found:
  assumes "(hdr, payload) \<in> set pkts" "goes_to fb tab x hdr" "packet_cell fb tab hdr = cell"
  shows "\<exists>hdr' payload'. (hdr', payload') \<in> set pkts \<and> goes_to fb tab x hdr' \<and>
    packet_cell fb tab hdr' = cell \<and> last_write fb tab x cell pkts old = payload'"
  using assms(1)
proof (induction pkts rule: rev_induct)
  case Nil
  then show ?case by simp
next
  case (snoc q qs)
  obtain h d where q: "q = (h, d)" by fastforce
  show ?case
  proof (cases "goes_to fb tab x h \<and> packet_cell fb tab h = cell")
    case True
    then show ?thesis by (intro exI [of _ h] exI [of _ d]) (simp add: q last_write_append)
  next
    case False
    then have "(hdr, payload) \<in> set qs" using snoc.prems assms(2,3) q by auto
    from snoc.IH [OF this] False show ?thesis by (auto simp: q last_write_append)
  qed
qed

text \<open>
  C8: sorting a run of packets, however they are ordered, refines writing each accepted packet to
  the cell of its time slot, antenna and channel group: nothing is written outside the blocks, each
  block ends with, in every cell, the payload of the last packet of the run for that block and cell
  (or its former content when there was none), its count of missing packets goes down by the number
  of packets for it, and the rest of the pool is untouched. The blocks must have different packet
  numbers.
\<close>

theorem place_list_sorts:
  assumes "sorter_dims fb" "blocks_ok ls p" "distinct (map packetNo ls)"
    "\<forall>pkt\<in>set pkts. length (snd pkt) = RX_DATA_LEN"
  shows "\<exists>ls' p'. place_list fb tab pkts ls p = Inr (ls', p') \<and> same_blocks ls ls' \<and>
    blocks_ok ls' p' \<and> same_books (wdata ` set ls) p p' \<and>
    (\<forall>k<N_FILE_BUFFERS_AT_A_TIME.
      nToFull (ls' ! k) = nToFull (ls ! k) - int (length (arrivals fb tab (packetNo (ls ! k)) pkts)) \<and>
      (\<forall>cell. valid_cell fb cell \<longrightarrow> cell_at fb (bufData p' ! wdata (ls ! k)) cell =
        last_write fb tab (packetNo (ls ! k)) cell pkts (cell_at fb (bufData p ! wdata (ls ! k)) cell)))"
  by (rule place_list_lemma [OF assms])

text \<open>Six blocks of one antenna and one channel group over a pool of seven buffers.\<close>

definition example_fb :: fileBuffStruct where
  "example_fb = \<lparr>nAnts = 1, antNumbers = [-1, -1, -1, -1], nchans = 1, firstChan = 0, packetStart = 0,
     udpBuff = \<lparr>bufData = replicate 7 (replicate 1000000000 0), dataLen = replicate 7 0,
       orderNo = replicate 6 (-1) @ [0], NReady = 0, noBuffers = 7\<rparr>\<rparr>"

definition example_locals :: "work_local_struct list" where
  "example_locals = map (\<lambda>k. \<lparr>packetNo = of_nat (k * 128), wdata = k, windex = int k,
     worder = int k + 1, nToFull = 128\<rparr>) [0..<6]"

lemma upt_six: "[0..<6] = [0, 1, 2, 3, 4, 5 :: nat]"
  by (simp add: upt_rec)

lemma example_blocks:
  "sorter_dims example_fb" "blocks_ok example_locals (udpBuff example_fb)"
  "distinct (map packetNo example_locals)" "length example_locals = 6"
  "packetNo (example_locals ! 0) = 0" "wdata (example_locals ! 0) = 0"
  by (simp_all add: example_fb_def example_locals_def sorter_dims_def blocks_ok_def cconst
      upt_six)

lemma example_accepts:
  "accepts example_fb [3, -1, -1, -1] (volt_header 193 5 7 3)"
  "packet_block (volt_header 193 5 7 3) = 0" "packet_cell example_fb [3, -1, -1, -1] (volt_header 193 5 7 3) = (5, 0, 0)"
  by (simp_all add: accepts_def packet_cell_def example_fb_def volt_header_def get_defs cconst currChanNo_def
      getAntIndex_def getAntIndex_loop.simps)

theorem place_list_sorts_witness:
  "\<exists>ls' p'. place_list example_fb [3, -1, -1, -1] [(volt_header 193 5 7 3, replicate 8192 9)]
      example_locals (udpBuff example_fb) = Inr (ls', p') \<and> nToFull (ls' ! 0) = 127 \<and>
    cell_at example_fb (bufData p' ! 0) (5, 0, 0) = replicate 8192 9"
proof -
  let ?h = "volt_header 193 5 7 3"
  have payloads: "\<forall>pkt\<in>set [(?h, replicate 8192 (9 :: u8))]. length (snd pkt) = RX_DATA_LEN"
    by (simp add: cconst)
  have goes: "goes_to example_fb [3, -1, -1, -1] 0 ?h"
    using example_accepts by (simp add: goes_to_def)
  have "valid_cell example_fb (5, 0, 0)" by (simp add: example_fb_def block_valid_def cconst)
  moreover have "nToFull (example_locals ! 0) = 128" by (simp add: example_locals_def upt_six)
  moreover have "0 < N_FILE_BUFFERS_AT_A_TIME" by (simp add: cconst)
  ultimately show ?thesis
    using place_list_sorts [OF example_blocks(1-3) payloads, of "[3, -1, -1, -1]"] goes
      example_blocks(5,6) example_accepts(3)
    by (fastforce simp: arrivals_def)
qed

text \<open>
  C9: a block whose count of missing packets has come down to zero is complete, as long as no two
  packets of the run carry the same block and cell: every cell of the block then holds the payload
  of a packet of the run that belongs there.
\<close>

theorem full_block_complete:
  assumes "sorter_dims fb" "blocks_ok ls p" "distinct (map packetNo ls)"
    "\<forall>pkt\<in>set pkts. length (snd pkt) = RX_DATA_LEN" "k < N_FILE_BUFFERS_AT_A_TIME"
    "nToFull (ls ! k) = int (packetsPerBlock fb)"
    "distinct (map (packet_cell fb tab) (arrivals fb tab (packetNo (ls ! k)) pkts))"
    "place_list fb tab pkts ls p = Inr (ls', p')" "nToFull (ls' ! k) = 0" "valid_cell fb cell"
  shows "\<exists>(hdr, payload)\<in>set pkts. goes_to fb tab (packetNo (ls ! k)) hdr \<and>
    packet_cell fb tab hdr = cell \<and> cell_at fb (bufData p' ! wdata (ls ! k)) cell = payload"
proof -
  let ?x = "packetNo (ls ! k)"
  let ?cells = "map (packet_cell fb tab) (arrivals fb tab ?x pkts)"
  have all: "\<forall>k<N_FILE_BUFFERS_AT_A_TIME.
      nToFull (ls' ! k) = nToFull (ls ! k) - int (length (arrivals fb tab (packetNo (ls ! k)) pkts)) \<and>
      (\<forall>cell. valid_cell fb cell \<longrightarrow> cell_at fb (bufData p' ! wdata (ls ! k)) cell =
        last_write fb tab (packetNo (ls ! k)) cell pkts (cell_at fb (bufData p ! wdata (ls ! k)) cell))"
    using place_list_lemma [OF assms(1-4), of tab] assms(8) by simp
  then have n: "nToFull (ls' ! k) = nToFull (ls ! k) - int (length (arrivals fb tab ?x pkts))"
    and c: "\<And>cell. valid_cell fb cell \<Longrightarrow> cell_at fb (bufData p' ! wdata (ls ! k)) cell =
        last_write fb tab ?x cell pkts (cell_at fb (bufData p ! wdata (ls ! k)) cell)"
    using assms(5) by blast+
  have "set ?cells \<subseteq> {cell. valid_cell fb cell}"
    using accepted_cell(1) [OF _ assms(1)] by (auto simp: arrivals_def goes_to_def)
  moreover have "length (arrivals fb tab ?x pkts) = packetsPerBlock fb" using n assms(6,9) by linarith
  then have "card (set ?cells) = card {cell. valid_cell fb cell}"
    using distinct_card [OF assms(7)] valid_cells_card(2) [of fb]
      unat_packetsPerBlock(1) [OF assms(1)] by (simp add: ac_simps)
  ultimately have "set ?cells = {cell. valid_cell fb cell}"
    using card_subset_eq valid_cells_card(1) by blast
  with assms(10) have "cell \<in> set ?cells" by blast
  then obtain hdr payload where h: "(hdr, payload) \<in> set pkts" "goes_to fb tab ?x hdr" "packet_cell fb tab hdr = cell"
    by (auto simp: arrivals_def)
  from last_write_found [OF this] obtain hdr' payload' where
    "(hdr', payload') \<in> set pkts" "goes_to fb tab ?x hdr'" "packet_cell fb tab hdr' = cell"
    "last_write fb tab ?x cell pkts (cell_at fb (bufData p ! wdata (ls ! k)) cell) = payload'" by blast
  then show ?thesis unfolding c [OF assms(10)] by (intro bexI [of _ "(hdr', payload')"]) simp_all
qed

text \<open>One packet for each of the 128 time slots of the first block.\<close>

definition example_run :: "(u64 \<times> u8 list) list" where
  "example_run = map (\<lambda>t. (volt_header 193 (of_nat t) 7 3, replicate 8192 (of_nat t))) [0..<128]"

lemma example_run_header:
  assumes "t < 128"
  shows "goes_to example_fb [3, -1, -1, -1] 0 (volt_header 193 (of_nat t) 7 3)"
    "packet_cell example_fb [3, -1, -1, -1] (volt_header 193 (of_nat t) 7 3) = (t, 0, 0)"
proof -
  let ?h = "volt_header 193 (of_nat t) 7 3"
  have u: "unat (of_nat t :: u64) = t" using assms by (simp add: unat_of_nat)
  have f: "GET_VERSION_NO ?h = 193" "GET_PCKT_NO ?h = of_nat t" "GET_CHAN_NO ?h = 7" "GET_ANT_NO ?h = 3"
    by (rule header_fields; use assms u in simp)+
  have "unat (packet_block ?h) = 0" unfolding unat_GET_PACKET_FILTER f using assms u by simp
  then have b: "packet_block ?h = 0" by (simp add: unat_eq_0)
  have "IS_VERSION_VOLT ?h = GET_VERSION_NO ?h AND VOLT_VERSION_MASK"
    by (simp add: get_defs cconst and.assoc)
  then have v: "IS_VERSION_VOLT ?h \<noteq> 0" unfolding f by (simp add: cconst)
  have ant: "getAntIndex [3, -1, -1, -1] 3 1 = 0" by (simp add: getAntIndex_def getAntIndex_loop.simps)
  have ch: "currChanNo ?h 0 = 0" using currChanNo_ge [of 0 ?h] f by simp
  show "goes_to example_fb [3, -1, -1, -1] 0 ?h"
    using v b ant ch by (simp add: goes_to_def accepts_def f example_fb_def cconst)
  show "packet_cell example_fb [3, -1, -1, -1] ?h = (t, 0, 0)"
    using ant ch assms u unfolding packet_cell_def unat_GET_PACKET_REST f by (simp add: example_fb_def)
qed

lemma example_run_arrivals:
  "map (packet_cell example_fb [3, -1, -1, -1]) (arrivals example_fb [3, -1, -1, -1] 0 example_run) =
     map (\<lambda>t. (t, 0, 0)) [0..<128]"
proof -
  have "arrivals example_fb [3, -1, -1, -1] 0 example_run =
      map (\<lambda>t. volt_header 193 (of_nat t) 7 3) [0..<128]"
    unfolding arrivals_def example_run_def map_map
    by (subst filter_True) (use example_run_header(1) in auto)
  then show ?thesis using example_run_header(2) by simp
qed

theorem full_block_complete_witness:
  "\<exists>ls' p'. place_list example_fb [3, -1, -1, -1] example_run example_locals (udpBuff example_fb) = Inr (ls', p') \<and>
    (\<exists>(hdr, payload)\<in>set example_run. packet_cell example_fb [3, -1, -1, -1] hdr = (77, 0, 0) \<and>
      cell_at example_fb (bufData p' ! 0) (77, 0, 0) = payload)"
proof -
  let ?tab = "[3, -1, -1, -1] :: u32 list"
  have payloads: "\<forall>pkt\<in>set example_run. length (snd pkt) = RX_DATA_LEN"
    by (auto simp: example_run_def cconst)
  have "length (arrivals example_fb ?tab 0 example_run) = 128"
    using arg_cong [OF example_run_arrivals, of length] by simp
  moreover have n: "nToFull (example_locals ! 0) = 128" by (simp add: example_locals_def upt_six)
  moreover have k: "0 < N_FILE_BUFFERS_AT_A_TIME" by (simp add: cconst)
  ultimately obtain ls' p' where r: "place_list example_fb ?tab example_run example_locals (udpBuff example_fb) = Inr (ls', p')"
    "nToFull (ls' ! 0) = 0"
    using place_list_lemma [OF example_blocks(1-3) payloads, of ?tab] example_blocks(5) by auto
  have "nToFull (example_locals ! 0) = int (packetsPerBlock example_fb)"
    using n by (simp add: packetsPerBlock_def example_fb_def cconst)
  moreover have "distinct (map (packet_cell example_fb ?tab) (arrivals example_fb ?tab (packetNo (example_locals ! 0)) example_run))"
    unfolding example_blocks(5) example_run_arrivals by (simp add: distinct_map inj_on_def)
  moreover have "valid_cell example_fb (77, 0, 0)" by (simp add: example_fb_def block_valid_def cconst)
  ultimately show ?thesis
    using full_block_complete [OF example_blocks(1-3) payloads k _ _ r] example_blocks(6) r(1) by fastforce
qed

text \<open>
  C10: the filter in front of the sorter accepts a packet exactly when it is a voltage packet, its
  antenna is one of the antennas in the table, and its channel is in the recorded range: from
  \<^verbatim>\<open>firstChan\<close> on, and less than 256 times the number of channel groups above it. The unsigned
  wrap of a channel below \<^verbatim>\<open>firstChan\<close> is never mistaken for a valid group.
\<close>

theorem accepts_exact:
  assumes "sorter_dims fb"
  shows "accepts fb tab hdr \<longleftrightarrow> bit hdr 63 \<and>
    (\<exists>a<unat (nAnts fb). tab ! a = ucast (GET_ANT_NO hdr)) \<and>
    unat (firstChan fb) \<le> unat (GET_CHAN_NO hdr) \<and>
    unat (GET_CHAN_NO hdr) < unat (firstChan fb) + 256 * unat (nchans fb)"
proof -
  let ?r = "getAntIndex tab (ucast (GET_ANT_NO hdr)) (nAnts fb)" and ?c = "currChanNo hdr (firstChan fb)"
  have v: "IS_VERSION_VOLT hdr \<noteq> 0 \<longleftrightarrow> bit hdr 63"
  proof -
    have m: "VOLT_VERSION_MASK = push_bit 7 1" by (simp add: cconst)
    have "bit VOLT_VERSION_MASK n \<longleftrightarrow> n = 7" for n
      unfolding m bit_push_bit_iff by (auto simp: bit_1_iff)
    then have "bit (IS_VERSION_VOLT hdr) n \<longleftrightarrow> n = 7 \<and> bit hdr 63" for n
      by (auto simp: IS_VERSION_VOLT_def bit_simps)
    then show ?thesis by (metis bit_0_eq bot_apply bot_bool_def bit_eqI)
  qed
  have a: "?r \<noteq> -1 \<and> ?r < int MAX_NO_ANTS \<longleftrightarrow> (\<exists>a<unat (nAnts fb). tab ! a = ucast (GET_ANT_NO hdr))"
  proof (cases rule: find_fromE [of "\<lambda>k. tab ! k = ucast (GET_ANT_NO hdr)" "unat (nAnts fb)"])
    case none
    then show ?thesis by (auto simp: getAntIndex_find_from)
  next
    case (some k)
    moreover have "k < MAX_NO_ANTS" using some(2) assms by (simp add: sorter_dims_def cconst)
    ultimately show ?thesis by (auto simp: getAntIndex_find_from)
  qed
  have c: "?c \<ge> 0 \<and> (word_of_int ?c :: u32) < nchans fb \<longleftrightarrow> unat (firstChan fb) \<le> unat (GET_CHAN_NO hdr) \<and>
      unat (GET_CHAN_NO hdr) < unat (firstChan fb) + 256 * unat (nchans fb)"
  proof (cases "unat (firstChan fb) \<le> unat (GET_CHAN_NO hdr)")
    case False
    then show ?thesis using currChanNo_less [of hdr "firstChan fb"] by simp
  next
    case True
    define d where "d = (unat (GET_CHAN_NO hdr) - unat (firstChan fb)) div 256"
    have "d < 2 ^ 12" using unat_GET_CHAN_NO_less [of hdr] unfolding d_def by linarith
    then have "(word_of_int (int d) :: u32) < nchans fb \<longleftrightarrow> d < unat (nchans fb)"
      by (simp only: word_less_nat_alt, subst unat_word_of_int) simp_all
    moreover have "d < unat (nchans fb) \<longleftrightarrow>
        unat (GET_CHAN_NO hdr) < unat (firstChan fb) + 256 * unat (nchans fb)"
      unfolding d_def using True by (simp add: div_less_iff_less_mult) linarith
    ultimately show ?thesis using True currChanNo_ge [OF True] by (simp add: d_def)
  qed
  show ?thesis using v a c by (auto simp: accepts_def Let_def)
qed

theorem accepts_exact_witness:
  "accepts example_fb [3, -1, -1, -1] (volt_header 193 5 255 3) \<and>
   \<not> accepts example_fb [3, -1, -1, -1] (volt_header 193 5 256 3)"
  using accepts_exact [OF example_blocks(1), of "[3, -1, -1, -1]" "volt_header 193 5 255 3"]
    accepts_exact [OF example_blocks(1), of "[3, -1, -1, -1]" "volt_header 193 5 256 3"]
  by (simp add: example_fb_def volt_header_def get_defs cconst)

end
