(* ===== verification/Worker_Invariants.thy ===== *)
theory Worker_Invariants
  imports Processing_Thread
begin

text \<open>
  The worker of processing_thread.c among the other threads: the invariant on the blocks it holds,
  the renewal of a block, the locales that carry a property through the sending loops and through a
  whole pass, the numbering of the blocks, and progress.
\<close>

section \<open>Publishing and renewing blocks\<close>

definition roomy :: "nat \<Rightarrow> udpBuffStruct \<Rightarrow> bool" where
  "roomy n p \<longleftrightarrow> pool_wf p \<and> (\<forall>b\<in>set (bufData p). n \<le> length b)"

text \<open>
  What the other threads respect: the shape of the pool and the slots the worker holds. This is
  what the ownership discipline of the pool gives each of its clients.
\<close>

definition spares :: "nat \<Rightarrow> held_move \<Rightarrow> bool" where
  "spares n f \<longleftrightarrow> (\<forall>held p. roomy n p \<longrightarrow> roomy n (f held p) \<and> noBuffers (f held p) = noBuffers p \<and>
     (\<forall>i. int i \<in> set held \<longrightarrow> orderNo (f held p) ! i = orderNo p ! i \<and> bufData (f held p) ! i = bufData p ! i))"

lemma sparesD:
  assumes "spares n f" "roomy n p"
  shows "roomy n (f held p)" "noBuffers (f held p) = noBuffers p"
    "int i \<in> set held \<Longrightarrow> orderNo (f held p) ! i = orderNo p ! i"
    "int i \<in> set held \<Longrightarrow> bufData (f held p) ! i = bufData p ! i"
  using assms unfolding spares_def by blast+

lemma roomy_orders: "roomy n p \<Longrightarrow> length ords = length (orderNo p) \<Longrightarrow> roomy n (p\<lparr>orderNo := ords\<rparr>)"
  by (simp add: roomy_def pool_wf_def)

lemma roomy_write:
  assumes "roomy n p" "write_slot i off src p = Inr p'"
  shows "roomy n p'"
proof -
  have "n \<le> length b" if b: "b \<in> set (bufData p')" for b
  proof -
    obtain j where "j < length (bufData p')" "b = bufData p' ! j" using b by (auto simp: in_set_conv_nth)
    then show ?thesis
      using write_slot_frame(5,7) [OF assms(2)] write_slot_frame(6) [OF assms(2), of j] assms(1)
      by (cases "j = i") (auto simp: roomy_def)
  qed
  then show ?thesis using assms(1) write_slot_frame(1-5) [OF assms(2)] by (simp add: roomy_def pool_wf_def)
qed

text \<open>The busy wait ends with a slot that was empty, or runs as long as the schedule.\<close>

lemma fetchEmpty_spin_outcome:
  assumes "roomy n p" "\<forall>f\<in>set es. spares n f"
  shows "fetchEmpty_spin held es p = Inl Blocked \<or>
    (\<exists>i p' es'. fetchEmpty_spin held es p = Inr (int i, p', es') \<and> roomy n p' \<and> i < noBuffers p \<and>
      noBuffers p' = noBuffers p \<and> orderNo p' ! i = -1 \<and> set es' \<subseteq> set es \<and>
      (\<forall>j. int j \<in> set held \<and> orderNo p ! j = -1 \<longrightarrow> j \<noteq> i \<and> orderNo p' ! j = -1 \<and> bufData p' ! j = bufData p ! j))"
  using assms
proof (induction es arbitrary: p)
  case Nil
  then show ?case by simp
next
  case (Cons f es)
  have f: "spares n f" using Cons.prems(2) by simp
  note s = sparesD [OF f Cons.prems(1), where held = held]
  have wf: "pool_wf (f held p)" using s(1) by (simp add: roomy_def)
  then show ?case
  proof (cases rule: acquire_slot_cases)
    case none
    then have "fetchEmpty_spin held (f # es) p = fetchEmpty_spin held es (f held p)" by simp
    moreover have "\<forall>g\<in>set es. spares n g" using Cons.prems(2) by simp
    ultimately show ?thesis using Cons.IH [OF s(1)] s(2-) by (smt (verit, best) insert_iff list.set(2) subset_iff)
  next
    case (some i)
    let ?p = "(f held p)\<lparr>orderNo := (orderNo (f held p))[i := -1]\<rparr>"
    have "i < length (orderNo (f held p))" using wf some(3) by (simp add: pool_wf_def)
    then have "orderNo ?p ! i = -1" "roomy n ?p" using roomy_orders [OF s(1)] by simp_all
    moreover have "j \<noteq> i \<and> orderNo ?p ! j = -1 \<and> bufData ?p ! j = bufData p ! j"
      if "int j \<in> set held" "orderNo p ! j = -1" for j
      using s(3,4) [OF that(1)] that(2) some(4) by (cases "i = j") auto
    ultimately show ?thesis
      using some s(2) by (intro disjI2 exI [of _ i] exI [of _ ?p] exI [of _ es]) auto
  qed
qed

text \<open>
  The invariant of the worker: six blocks in six different slots it holds, with different orders
  below the next one.
\<close>

definition sorter_inv :: "worker \<Rightarrow> bool" where
  "sorter_inv st \<longleftrightarrow> sorter_dims (fbuf st) \<and> roomy FILE_BUFFER_SIZE (fpool st) \<and>
     length (locals st) = N_FILE_BUFFERS_AT_A_TIME \<and>
     distinct (map wdata (locals st)) \<and> distinct (map worder (locals st)) \<and>
     (\<forall>l\<in>set (locals st). windex l = int (wdata l) \<and> wdata l < noBuffers (fpool st) \<and>
        orderNo (fpool st) ! wdata l = -1 \<and> 0 < worder l \<and> worder l < next_order st)"

lemma sorter_invD:
  assumes "sorter_inv st"
  shows "sorter_dims (fbuf st)" "roomy FILE_BUFFER_SIZE (fpool st)" "length (locals st) = N_FILE_BUFFERS_AT_A_TIME"
    "l \<in> set (locals st) \<Longrightarrow> windex l = int (wdata l) \<and> wdata l < noBuffers (fpool st) \<and>
       orderNo (fpool st) ! wdata l = -1 \<and> 0 < worder l \<and> worder l < next_order st"
  using assms unfolding sorter_inv_def by blast+

lemma sorter_inv_blocks_ok: "sorter_inv st \<Longrightarrow> blocks_ok (locals st) (fpool st)"
  by (auto simp: sorter_inv_def blocks_ok_def roomy_def pool_wf_def)

lemma fpool_set [simp]: "fpool (set_fpool p st) = p" "locals (set_fpool p st) = locals st"
  "next_order (set_fpool p st) = next_order st" "moves (set_fpool p st) = moves st"
  "nextStructPacketNo (set_fpool p st) = nextStructPacketNo st" "inpool (set_fpool p st) = inpool st"
  "lastSentPacketNo (set_fpool p st) = lastSentPacketNo st" "ants (set_fpool p st) = ants st"
  "nAnts (fbuf (set_fpool p st)) = nAnts (fbuf st)" "nchans (fbuf (set_fpool p st)) = nchans (fbuf st)"
  "first_loop_done (set_fpool p st) = first_loop_done st"
  by (simp_all add: fpool_def set_fpool_def)

lemma sorter_dims_cong: "nAnts fb = nAnts fb' \<Longrightarrow> nchans fb = nchans fb' \<Longrightarrow> sorter_dims fb = sorter_dims fb'"
  by (simp add: sorter_dims_def)

lemma in_held_except:
  assumes "j < length ls" "j \<noteq> k"
  shows "windex (ls ! j) \<in> set (held_except k ls)"
proof (cases "j < k")
  case True
  then have "ls ! j \<in> set (take k ls)" using assms by (metis in_set_conv_nth length_take min_less_iff_conj nth_take)
  then show ?thesis by (auto simp: held_except_def)
next
  case False
  then have "ls ! j = drop (Suc k) ls ! (j - Suc k)" "j - Suc k < length (drop (Suc k) ls)" using assms by auto
  then have "ls ! j \<in> set (drop (Suc k) ls)" by (metis nth_mem)
  then show ?thesis by (auto simp: held_except_def)
qed

lemma distinct_update_fresh:
  assumes "distinct xs" "k < length xs" "\<And>j. j < length xs \<Longrightarrow> j \<noteq> k \<Longrightarrow> xs ! j \<noteq> v"
  shows "distinct (xs[k := v])"
  using assms by (auto simp: distinct_conv_nth nth_list_update)

text \<open>
  Renewing a block. The outcome of \<open>replace_struct\<close>: blocked as long as the pool has no empty slot,
  otherwise the old block is published and the new one is zeroed and continues the numbering.
\<close>

definition renewed :: "nat \<Rightarrow> worker \<Rightarrow> worker \<Rightarrow> bool" where
  "renewed k st st' \<longleftrightarrow> (\<exists>i p es. roomy FILE_BUFFER_SIZE p \<and> noBuffers p = noBuffers (fpool st) \<and>
     i < noBuffers p \<and> orderNo p ! i = -1 \<and> set es \<subseteq> set (moves st) \<and>
     take (dataLenOut (fbuf st)) (bufData p ! i) = replicate (dataLenOut (fbuf st)) 0 \<and>
     (\<forall>j<length (locals st). j \<noteq> k \<longrightarrow> wdata (locals st ! j) \<noteq> i \<and> orderNo p ! wdata (locals st ! j) = -1 \<and>
        bufData p ! wdata (locals st ! j) = bufData (fpool st) ! wdata (locals st ! j)) \<and>
     st' = set_fpool p (st\<lparr>
          locals := (locals st)[k := \<lparr>packetNo = nextStructPacketNo st, wdata = i,
            windex = int i, worder = next_order st, nToFull = int (packetsPerBlock (fbuf st))\<rparr>],
          next_order := next_order st + 1,
          nextStructPacketNo := (nextStructPacketNo st + of_nat TIME_INT_PER_BUFFER) AND PCKT_NO_MASK,
          moves := es\<rparr>))"

lemma roomy_publish:
  "roomy n p \<Longrightarrow> returnBuffer p index ord len = Inr p' \<Longrightarrow> roomy n p'"
  by (auto simp: roomy_def pool_wf_def returnBuffer_def split: if_splits)

lemma clear_slot:
  assumes "roomy FILE_BUFFER_SIZE p" "sorter_dims fb" "i < noBuffers p"
  obtains p' where "write_slot i 0 (replicate (dataLenOut fb) 0) p = Inr p'" "roomy FILE_BUFFER_SIZE p'"
    "take (dataLenOut fb) (bufData p' ! i) = replicate (dataLenOut fb) 0"
proof -
  have i: "i < length (bufData p)" using assms(1,3) by (simp add: roomy_def pool_wf_def)
  have "FILE_BUFFER_SIZE \<le> length (bufData p ! i)" using assms(1) i by (simp add: roomy_def)
  then obtain p' where w: "write_slot i 0 (replicate (dataLenOut fb) 0) p = Inr p'"
    using write_slot_ok [OF i, of 0 "replicate (dataLenOut fb) 0"] unat_packetsPerBlock(3) [OF assms(2)] by auto
  then show thesis using roomy_write [OF assms(1) w] take_blit_append [OF write_slot_frame(8) [OF w]] by (intro that) simp_all
qed

lemma replace_struct_outcome:
  assumes inv: "sorter_inv st" and k: "k < N_FILE_BUFFERS_AT_A_TIME"
    and mv: "\<forall>f\<in>set (moves st). spares FILE_BUFFER_SIZE f"
  shows "replace_struct k st = Inl Blocked \<or> (\<exists>st'. replace_struct k st = Inr st' \<and> renewed k st st')"
proof -
  let ?l = "locals st ! k" and ?n = "dataLenOut (fbuf st)" and ?held = "held_except k (locals st)"
  note D = sorter_invD [OF inv]
  have l: "windex ?l = int (wdata ?l)" "wdata ?l < noBuffers (fpool st)" "orderNo (fpool st) ! wdata ?l = -1"
    using D(3) D(4) [of ?l] k by simp_all
  define p1 where "p1 = (fpool st)\<lparr>orderNo := (orderNo (fpool st))[wdata ?l := worder ?l],
    dataLen := (dataLen (fpool st))[wdata ?l := ?n], NReady := Suc (NReady (fpool st))\<rparr>"
  have r1: "returnBuffer (fpool st) (windex ?l) (worder ?l) ?n = Inr p1"
    using l D(2) by (simp add: returnBuffer_def p1_def roomy_def pool_wf_def)
  have rm: "roomy FILE_BUFFER_SIZE p1" by (rule roomy_publish [OF D(2) r1])
  have held: "int (wdata (locals st ! j)) \<in> set ?held \<and> orderNo p1 ! wdata (locals st ! j) = -1"
    if j: "j < length (locals st)" "j \<noteq> k" for j
  proof -
    have m: "locals st ! j \<in> set (locals st)" using j by simp
    moreover have "wdata (locals st ! j) \<noteq> wdata ?l"
      using blocks_okD(3) [OF sorter_inv_blocks_ok [OF inv] k, of j] j D(3) by simp
    ultimately show ?thesis using in_held_except [OF j] D(4) [OF m] by (simp add: p1_def)
  qed
  from fetchEmpty_spin_outcome [OF rm mv, of ?held] show ?thesis
  proof (elim disjE exE conjE)
    assume "fetchEmpty_spin ?held (moves st) p1 = Inl Blocked"
    then show ?thesis using r1 by (simp add: replace_struct_def)
  next
    fix i p2 es
    assume sp: "fetchEmpty_spin ?held (moves st) p1 = Inr (int i, p2, es)" "roomy FILE_BUFFER_SIZE p2"
      "i < noBuffers p1" "noBuffers p2 = noBuffers p1" "orderNo p2 ! i = -1" "set es \<subseteq> set (moves st)"
      "\<forall>j. int j \<in> set ?held \<and> orderNo p1 ! j = -1 \<longrightarrow> j \<noteq> i \<and> orderNo p2 ! j = -1 \<and> bufData p2 ! j = bufData p1 ! j"
    have "i < noBuffers p2" using sp(3,4) by simp
    then obtain p3 where w: "write_slot i 0 (replicate ?n 0) p2 = Inr p3" and rp: "roomy FILE_BUFFER_SIZE p3"
        and z: "take ?n (bufData p3 ! i) = replicate ?n 0" by (rule clear_slot [OF sp(2) D(1)])
    note f = write_slot_frame [OF w]
    have nb: "noBuffers p1 = noBuffers (fpool st)" "bufData p1 = bufData (fpool st)" by (simp_all add: p1_def)
    have keep: "wdata (locals st ! j) \<noteq> i \<and> orderNo p3 ! wdata (locals st ! j) = -1 \<and>
        bufData p3 ! wdata (locals st ! j) = bufData (fpool st) ! wdata (locals st ! j)"
      if "j < length (locals st)" "j \<noteq> k" for j
      using sp(7) held [OF that] f(1,6) nb(2) by metis
    have "renewed k st (set_fpool p3 (st\<lparr>
          locals := (locals st)[k := \<lparr>packetNo = nextStructPacketNo st, wdata = i,
            windex = int i, worder = next_order st, nToFull = int (packetsPerBlock (fbuf st))\<rparr>],
          next_order := next_order st + 1,
          nextStructPacketNo := (nextStructPacketNo st + of_nat TIME_INT_PER_BUFFER) AND PCKT_NO_MASK,
          moves := es\<rparr>))"
      unfolding renewed_def using rp sp(3-6) z keep f(1,4) nb(1)
      by (intro exI [of _ i] exI [of _ p3] exI [of _ es]) simp
    then show ?thesis using r1 sp(1) w by (simp add: replace_struct_def)
  qed
qed

lemma renewed_inv:
  assumes "sorter_inv st" "k < N_FILE_BUFFERS_AT_A_TIME" "renewed k st st'"
  shows "sorter_inv st'" "next_order st' = next_order st + 1" "set (moves st') \<subseteq> set (moves st)"
    "inpool st' = inpool st"
proof -
  note D = sorter_invD [OF assms(1)]
  from assms(3) obtain i p es where r: "roomy FILE_BUFFER_SIZE p" "noBuffers p = noBuffers (fpool st)"
     "i < noBuffers p" "orderNo p ! i = -1" "set es \<subseteq> set (moves st)"
    and keep: "\<And>j. j < length (locals st) \<Longrightarrow> j \<noteq> k \<Longrightarrow>
      wdata (locals st ! j) \<noteq> i \<and> orderNo p ! wdata (locals st ! j) = -1"
    and st': "st' = set_fpool p (st\<lparr>
          locals := (locals st)[k := \<lparr>packetNo = nextStructPacketNo st, wdata = i,
            windex = int i, worder = next_order st, nToFull = int (packetsPerBlock (fbuf st))\<rparr>],
          next_order := next_order st + 1,
          nextStructPacketNo := (nextStructPacketNo st + of_nat TIME_INT_PER_BUFFER) AND PCKT_NO_MASK,
          moves := es\<rparr>)" unfolding renewed_def by blast
  show "next_order st' = next_order st + 1" "set (moves st') \<subseteq> set (moves st)" "inpool st' = inpool st" using r(5) by (simp_all add: st')
  have len: "k < length (locals st)" using assms(2) D(3) by simp
  have "distinct ((map wdata (locals st))[k := i])"
    using assms(1) len keep by (intro distinct_update_fresh) (auto simp: sorter_inv_def)
  moreover have "distinct ((map worder (locals st))[k := next_order st])"
    using assms(1) len D(4) by (intro distinct_update_fresh) (auto simp: sorter_inv_def, metis less_irrefl nth_mem)
  moreover have "windex l = int (wdata l) \<and> wdata l < noBuffers p \<and> orderNo p ! wdata l = -1 \<and>
      0 < worder l \<and> worder l < next_order st + 1"
    if l: "l \<in> set (locals st')" for l
  proof -
    obtain j where j: "j < length (locals st)" "l = locals st' ! j" using l st' by (auto simp: in_set_conv_nth)
    have "0 < worder (locals st ! k)" "worder (locals st ! k) < next_order st" using D(4) [OF nth_mem [OF len]] by auto
    then show ?thesis using j len r(2-4) keep [OF j(1)] D(4) [of "locals st ! j"]
      by (cases "j = k") (auto simp: st')
  qed
  ultimately show "sorter_inv st'"
    using D(1,3) r(1) sorter_dims_cong [of "fbuf st'" "fbuf st"]
    by (simp add: sorter_inv_def st' map_update)
qed

section \<open>The sending loops\<close>

text \<open>
  A property of the worker that survives the renewal of a block survives both sending loops; the
  loops end in an error only by waiting for an empty buffer.
\<close>

locale renewal =
  fixes I :: "worker \<Rightarrow> bool"
  assumes inv: "I st \<Longrightarrow> sorter_inv st"
    and spared: "I st \<Longrightarrow> f \<in> set (moves st) \<Longrightarrow> spares FILE_BUFFER_SIZE f"
    and renew: "I st \<Longrightarrow> k < N_FILE_BUFFERS_AT_A_TIME \<Longrightarrow> renewed k st st' \<Longrightarrow>
      replace_struct k st = Inr st' \<Longrightarrow> I st'"
    and set_last: "I st \<Longrightarrow> I (st\<lparr>lastSentPacketNo := x\<rparr>)"
    and set_missing: "I st \<Longrightarrow> I (st\<lparr>noMissing := y\<rparr>)"
begin

lemma replace_outcome:
  assumes "I st" "k < N_FILE_BUFFERS_AT_A_TIME"
  shows "waits_or I (replace_struct k st)"
  using replace_struct_outcome [OF inv [OF assms(1)] assms(2)] spared [OF assms(1)] renew [OF assms]
  unfolding waits_or_def by blast

lemma send_full_outcome:
  assumes "I st" "\<forall>k\<in>set iKs. k < N_FILE_BUFFERS_AT_A_TIME"
  shows "waits_or (\<lambda>(m, st'). I st') (send_full_loop iKs n st)"
  using assms
proof (induction iKs arbitrary: n st)
  case Nil
  then show ?case by simp
next
  case (Cons k iKs)
  then have k: "k < N_FILE_BUFFERS_AT_A_TIME" and ks: "\<forall>k\<in>set iKs. k < N_FILE_BUFFERS_AT_A_TIME" by auto
  note r = replace_outcome [OF set_last [OF Cons.prems(1)] k, of "packetNo (locals st ! k)"]
  show ?case using Cons.IH [OF _ ks] Cons.prems(1) by (auto intro!: waits_or_bind [OF r])
qed

lemma send_earlier_outcome:
  assumes "I st" "\<forall>k\<in>set iKs. k < N_FILE_BUFFERS_AT_A_TIME"
  shows "waits_or I (send_earlier_loop iKs st)"
  using assms
proof (induction iKs arbitrary: st)
  case Nil
  then show ?case by simp
next
  case (Cons k iKs)
  then have k: "k < N_FILE_BUFFERS_AT_A_TIME" and ks: "\<forall>k\<in>set iKs. k < N_FILE_BUFFERS_AT_A_TIME" by auto
  note r = replace_outcome [OF set_missing [OF Cons.prems(1)] k, of "noMissing st + word_of_int (nToFull (locals st ! k))"]
  show ?case using Cons.IH [OF _ ks] Cons.prems(1) by (auto intro!: waits_or_bind [OF r])
qed

lemma send_blocks_outcome:
  assumes "I st"
  shows "waits_or I (send_blocks st)"
proof -
  have ks: "\<forall>k\<in>set [0..<N_FILE_BUFFERS_AT_A_TIME]. k < N_FILE_BUFFERS_AT_A_TIME" by simp
  have "I (mark_half n st')" if "I st'" for n st'
    using that set_last by (simp add: mark_half_def)
  then show ?thesis unfolding send_blocks_def
    by (intro waits_or_bind [OF send_full_outcome [OF assms ks]]) (auto intro!: send_earlier_outcome)
qed

end

definition worker_ok :: "worker \<Rightarrow> bool" where
  "worker_ok st \<longleftrightarrow> sorter_inv st \<and> input_ok (inpool st) \<and>
     (\<forall>f\<in>set (moves st). spares FILE_BUFFER_SIZE f)"

text \<open>The block with order \<open>o\<close> starts at packet \<open>start + 128 (o - 1)\<close>, in 38 bits.\<close>

definition order_packet :: "u64 \<Rightarrow> int \<Rightarrow> u64" where
  "order_packet start ord = (start + 128 * word_of_int (ord - 1)) AND PCKT_NO_MASK"

definition numbered :: "u64 \<Rightarrow> worker \<Rightarrow> bool" where
  "numbered start st \<longleftrightarrow> worker_ok st \<and> nextStructPacketNo st = order_packet start (next_order st) \<and>
     (\<forall>l\<in>set (locals st). packetNo l = order_packet start (worder l))"

lemma order_packet_Suc: "(order_packet start ord + 128) AND PCKT_NO_MASK = order_packet start (ord + 1)"
proof -
  let ?x = "start + 128 * word_of_int (ord - 1) :: u64"
  have "take_bit 38 (take_bit 38 ?x + 128) = take_bit 38 (?x + 128)"
    by (rule take_bit_add_left) simp
  also have "?x + 128 = start + 128 * word_of_int (ord + 1 - 1)" by (simp add: distrib_left)
  finally show ?thesis
    unfolding order_packet_def mask_eqs take_bit_eq_mask [symmetric] .
qed

interpretation sorter: renewal worker_ok
proof unfold_locales
  fix st st' k assume "worker_ok st" "k < N_FILE_BUFFERS_AT_A_TIME" "renewed k st st'"
  then show "worker_ok st'" using renewed_inv [of st k st'] by (auto simp: worker_ok_def)
qed (auto simp: worker_ok_def sorter_inv_def fpool_def)

interpretation numbering: renewal "numbered start" for start
proof unfold_locales
  fix st st' k assume n: "numbered start st" and k: "k < N_FILE_BUFFERS_AT_A_TIME" and r: "renewed k st st'"
  then have ok: "worker_ok st'" using renewed_inv [of st k st'] by (auto simp: numbered_def worker_ok_def)
  from r obtain l where l: "locals st' = (locals st)[k := l]" "packetNo l = nextStructPacketNo st"
    "worder l = next_order st" "next_order st' = next_order st + 1"
    "nextStructPacketNo st' = (nextStructPacketNo st + of_nat TIME_INT_PER_BUFFER) AND PCKT_NO_MASK"
    unfolding renewed_def by auto
  have "packetNo l' = order_packet start (worder l')" if "l' \<in> set (locals st')" for l'
  proof -
    have "l' = l \<or> l' \<in> set (locals st)" using that l(1) set_update_subset_insert by fastforce
    then show ?thesis using n l(2,3) by (auto simp: numbered_def)
  qed
  moreover have "nextStructPacketNo st' = order_packet start (next_order st')"
    using n l(4,5) order_packet_Suc [of start "next_order st"]
    by (simp add: numbered_def TIME_INT_PER_BUFFER_def)
  ultimately show "numbered start st'" using ok by (simp add: numbered_def)
qed (auto simp: numbered_def worker_ok_def sorter_inv_def fpool_def)

section \<open>A pass of the worker\<close>

lemma place_packet_safe:
  assumes "sorter_dims fb" "blocks_ok ls p" "length payload = RX_DATA_LEN"
  shows "\<exists>ls' p'. place_packet fb tab hdr payload ls p = Inr (ls', p') \<and> same_blocks ls ls' \<and>
    blocks_ok ls' p' \<and> same_books (wdata ` set ls) p p'"
  using assms(1)
proof (cases rule: place_packet_cases [where tab = tab and hdr = hdr and ls = ls and p = p and payload = payload])
  case ignored
  then show ?thesis using assms(2) by (auto simp: same_books_refl same_blocks_refl)
next
  case (placed k)
  have len: "length ls = N_FILE_BUFFERS_AT_A_TIME" using assms(2) by (simp add: blocks_ok_def)
  let ?ls = "ls[k := (ls ! k)\<lparr>nToFull := nToFull (ls ! k) - 1\<rparr>]"
  have sb: "same_blocks ls ?ls" using placed(2) len by (auto simp: same_blocks_def nth_list_update)
  obtain p' where r: "place_packet fb tab hdr payload ls p = Inr (?ls, p')"
    and w: "write_slot (wdata (ls ! k))
      (block_offset (unat (nAnts fb)) (unat (nchans fb)) (packet_cell fb tab hdr)) payload p = Inr p'"
    using place_packet_step [OF assms placed(1-4)] by blast
  have "wdata (ls ! k) \<in> wdata ` set ls" using placed(2) len by simp
  with r sb same_books_write [OF w] blocks_ok_write [OF assms(2) w same_blocksD(1) [OF sb]]
  show ?thesis by blast
qed

lemma place_list_safe:
  assumes "sorter_dims fb" "blocks_ok ls p" "\<forall>pkt\<in>set pkts. length (snd pkt) = RX_DATA_LEN"
  shows "\<exists>ls' p'. place_list fb tab pkts ls p = Inr (ls', p') \<and> same_blocks ls ls' \<and>
    blocks_ok ls' p' \<and> same_books (wdata ` set ls) p p'"
  using assms(2,3)
proof (induction pkts arbitrary: ls p)
  case Nil
  then show ?case by (simp add: same_books_refl same_blocks_refl)
next
  case (Cons pkt pkts)
  obtain hdr payload where pkt: "pkt = (hdr, payload)" by fastforce
  have "length payload = RX_DATA_LEN" using Cons.prems(2) pkt by simp
  from place_packet_safe [OF assms(1) Cons.prems(1) this, of tab hdr]
  obtain ls1 p1 where s1: "place_packet fb tab hdr payload ls p = Inr (ls1, p1)" "same_blocks ls ls1"
    "blocks_ok ls1 p1" "same_books (wdata ` set ls) p p1" by blast
  have own: "wdata ` set ls1 = wdata ` set ls" using same_blocksD(1) [OF s1(2)] by (metis set_map)
  have "\<forall>pkt\<in>set pkts. length (snd pkt) = RX_DATA_LEN" using Cons.prems(2) by simp
  from Cons.IH [OF s1(3) this] s1 own show ?case
    using same_blocks_trans [OF s1(2)] same_books_trans [OF s1(4)] by (fastforce simp: pkt)
qed

lemma scan_loop_returns:
  assumes "n * RX_MSG_LEN \<le> length input" "\<forall>i\<in>set iKs. i < n"
  shows "\<exists>x tab'. scan_loop input na iKs lo tab = Inr (x, tab')"
  using assms(2) packet_reads(1) [OF assms(1)] by (induction iKs arbitrary: lo tab) simp_all

text \<open>The worker's state apart from the packet numbers and missing counts of its blocks.\<close>

definition same_worker :: "worker \<Rightarrow> worker \<Rightarrow> bool" where
  "same_worker st st' \<longleftrightarrow> map wdata (locals st') = map wdata (locals st) \<and>
     map windex (locals st') = map windex (locals st) \<and> map worder (locals st') = map worder (locals st) \<and>
     inpool st' = inpool st \<and> moves st' = moves st \<and> next_order st' = next_order st \<and>
     nAnts (fbuf st') = nAnts (fbuf st) \<and> nchans (fbuf st') = nchans (fbuf st) \<and>
     same_books (wdata ` set (locals st)) (fpool st) (fpool st') \<and>
     (blocks_ok (locals st) (fpool st) \<longrightarrow> blocks_ok (locals st') (fpool st'))"

lemma map_nth_eqD: "map f xs = map f ys \<Longrightarrow> i < length xs \<Longrightarrow> f (xs ! i) = f (ys ! i)"
  by (metis length_map nth_map)

lemma same_worker_inv:
  assumes "sorter_inv st" "same_worker st st'"
  shows "sorter_inv st'"
proof -
  note D = sorter_invD [OF assms(1)]
  have m: "map wdata (locals st') = map wdata (locals st)" "map windex (locals st') = map windex (locals st)"
    "map worder (locals st') = map worder (locals st)" using assms(2) by (simp_all add: same_worker_def)
  have len: "length (locals st') = length (locals st)" using m(1) by (metis length_map)
  have b: "blocks_ok (locals st') (fpool st')"
    using assms(2) sorter_inv_blocks_ok [OF assms(1)] by (simp add: same_worker_def)
  have "windex l = int (wdata l) \<and> wdata l < noBuffers (fpool st') \<and> orderNo (fpool st') ! wdata l = -1 \<and>
      0 < worder l \<and> worder l < next_order st'" if "l \<in> set (locals st')" for l
  proof -
    obtain i where i: "i < length (locals st')" "l = locals st' ! i" using \<open>l \<in> set (locals st')\<close> by (auto simp: in_set_conv_nth)
    have "wdata l = wdata (locals st ! i)" "windex l = windex (locals st ! i)" "worder l = worder (locals st ! i)"
      using map_nth_eqD [OF m(1) i(1)] map_nth_eqD [OF m(2) i(1)] map_nth_eqD [OF m(3) i(1)] i(2) by simp_all
    then show ?thesis using D(4) [of "locals st ! i"] i len assms(2) by (simp add: same_worker_def same_books_def)
  qed
  moreover have "roomy FILE_BUFFER_SIZE (fpool st')"
    using D(2) b assms(2) by (simp add: roomy_def blocks_ok_def same_worker_def same_books_def pool_wf_def)
  moreover have "sorter_dims (fbuf st')" using D(1) assms(2) by (simp add: same_worker_def sorter_dims_def)
  moreover have "distinct (map wdata (locals st'))" "distinct (map worder (locals st'))"
    using assms by (simp_all add: sorter_inv_def same_worker_def)
  ultimately show ?thesis using D(3) len by (simp add: sorter_inv_def)
qed

lemma first_scan_safe:
  assumes "length (locals st) = N_FILE_BUFFERS_AT_A_TIME" "n * RX_MSG_LEN \<le> length input"
  shows "\<exists>st'. first_scan input n st = Inr st' \<and> same_worker st st'"
proof (cases "first_loop_done st")
  case True
  then show ?thesis by (simp add: first_scan_def same_worker_def same_books_refl)
next
  case False
  obtain x tab where s: "scan_loop input (nAnts (fbuf st)) [0..<n] LONG_MAX (ants st) = Inr (x, tab)"
    using scan_loop_returns [OF assms(2), of "[0..<n]"] by fastforce
  have m: "map f (map (\<lambda>iK. (locals st ! iK)\<lparr>packetNo := g iK\<rparr>) [0..<N_FILE_BUFFERS_AT_A_TIME]) = map f (locals st)"
    if "\<And>l v. f (l\<lparr>packetNo := v\<rparr>) = f l" for f :: "work_local_struct \<Rightarrow> 'a" and g
    using assms(1) that by (auto intro!: nth_equalityI)
  obtain st' where r: "first_scan input n st = Inr st'" using s False by (simp add: first_scan_def Let_def)
  then have L: "locals st' = map (\<lambda>iK. (locals st ! iK)\<lparr>packetNo := GET_PACKET_FILTER x + of_nat (iK * TIME_INT_PER_BUFFER)\<rparr>)
      [0..<N_FILE_BUFFERS_AT_A_TIME]"
    and F: "fpool st' = fpool st" "inpool st' = inpool st" "moves st' = moves st" "next_order st' = next_order st"
    "nAnts (fbuf st') = nAnts (fbuf st)" "nchans (fbuf st') = nchans (fbuf st)"
    using s False by (auto simp: first_scan_def fpool_def Let_def)
  have maps: "map wdata (locals st') = map wdata (locals st)" "map windex (locals st') = map windex (locals st)"
    "map worder (locals st') = map worder (locals st)" unfolding L by (rule m; simp)+
  have "set (map wdata (locals st')) = set (map wdata (locals st))" unfolding maps ..
  then have "blocks_ok (locals st) (fpool st) \<longrightarrow> blocks_ok (locals st') (fpool st')"
    using maps(1) by (auto simp: blocks_ok_def F(1) L; metis (no_types) imageE imageI)
  with maps F r show ?thesis by (simp add: same_worker_def same_books_refl)
qed

lemma same_worker_trans:
  assumes "same_worker st st'" "same_worker st' st''"
  shows "same_worker st st''"
proof -
  have "wdata ` set (locals st') = wdata ` set (locals st)"
    using assms(1) unfolding same_worker_def by (metis set_map)
  then show ?thesis using assms same_books_trans unfolding same_worker_def by (metis (no_types, lifting))
qed

lemma sort_buffer_safe:
  assumes "sorter_inv st" "n * RX_MSG_LEN \<le> length input"
  shows "\<exists>st'. sort_buffer input n st = Inr st' \<and> same_worker st st'"
proof -
  note D = sorter_invD [OF assms(1)]
  obtain st1 where s1: "first_scan input n st = Inr st1" "same_worker st st1"
    using first_scan_safe [OF D(3) assms(2)] by blast
  note inv1 = same_worker_inv [OF assms(1) s1(2)]
  have payloads: "\<forall>pkt\<in>set (map (packet_at input) [0..<n]). length (snd pkt) = RX_DATA_LEN"
    using packet_reads(3) [OF assms(2)] by auto
  obtain ls p where pl: "place_list (fbuf st1) (ants st1) (map (packet_at input) [0..<n]) (locals st1) (fpool st1) = Inr (ls, p)"
    "same_blocks (locals st1) ls" "blocks_ok ls p" "same_books (wdata ` set (locals st1)) (fpool st1) p"
    using place_list_safe [OF sorter_invD(1) [OF inv1] sorter_inv_blocks_ok [OF inv1] payloads] by blast
  have "place_loop input (fbuf st1) (ants st1) [0..<n] (locals st1) (fpool st1) = Inr (ls, p)"
    using place_loop_list [OF assms(2), of "[0..<n]"] pl(1) by simp
  then have "sort_buffer input n st = Inr (set_fpool p (st1\<lparr>locals := ls\<rparr>))"
    using s1(1) by (simp add: sort_buffer_def)
  moreover have "same_worker st1 (set_fpool p (st1\<lparr>locals := ls\<rparr>))"
    using pl same_blocksD [OF pl(2)] by (simp add: same_worker_def)
  ultimately show ?thesis using same_worker_trans [OF s1(2)] by blast
qed

lemma give_back_safe:
  assumes "input_ok (inpool st)" "i < noBuffers (inpool st)" "orderNo (inpool st) ! i = -1" "spares_input during"
  shows "\<exists>p. give_back during (int i) st = Inr (st\<lparr>inpool := p\<rparr>) \<and> input_ok p"
proof -
  let ?p = "during [int i] (inpool st)"
  have m: "input_ok ?p" "noBuffers ?p = noBuffers (inpool st)" "orderNo ?p ! i = -1"
    using assms unfolding spares_input_def by auto
  have "i < length (orderNo ?p)" using m assms(2) by (simp add: input_ok_def pool_wf_def)
  moreover from this have "input_ok (?p\<lparr>orderNo := (orderNo ?p)[i := 0]\<rparr>)"
    using m by (auto simp: input_ok_def pool_wf_def nth_list_update)
  ultimately show ?thesis using m(3) by (auto simp: give_back_def returnEmptyBuffer_def)
qed

text \<open>
  A property that is also kept by the sorting of a buffer and by the exchange of the input pool is
  kept by a whole pass.
\<close>

locale sorting = renewal +
  assumes input: "I st \<Longrightarrow> input_ok (inpool st)"
    and sort: "I st \<Longrightarrow> n * RX_MSG_LEN \<le> length bytes \<Longrightarrow> sort_buffer bytes n st = Inr st' \<Longrightarrow> I st'"
    and set_input: "I st \<Longrightarrow> input_ok p \<Longrightarrow> I (st\<lparr>inpool := p\<rparr>)"
begin

lemma pass_outcome:
  assumes "I st" "\<forall>(e, kg)\<in>set es. \<forall>q. input_ok q \<longrightarrow> input_ok (e q)"
    "\<forall>q. input_ok q \<longrightarrow> input_ok (between q)" "spares_input during"
  shows "waits_or I (worker_pass es between during st)"
  unfolding worker_pass_def Let_def
proof (rule waits_or_bind [OF fetchBuffer_outcome [OF input [OF assms(1)] assms(2,3)]], clarify)
  fix r p es' assume ok: "input_ok p" and r: "case r of None \<Rightarrow> True | Some (index, ord, len) \<Rightarrow>
      \<exists>i<noBuffers p. index = int i \<and> orderNo p ! i = -1 \<and> len \<le> length (bufData p ! i)"
  let ?st = "st\<lparr>inpool := p\<rparr>"
  have I0: "I ?st" by (rule set_input [OF assms(1) ok])
  show "waits_or I (case r of None \<Rightarrow> Inr ?st | Some (indexIn, order, len) \<Rightarrow>
      if len div RX_MSG_LEN = 0 then give_back during indexIn ?st
      else cbind (sort_buffer (bufData p ! nat indexIn) (len div RX_MSG_LEN) ?st)
             (\<lambda>st1. cbind (give_back during indexIn st1) send_blocks))"
  proof (cases r)
    case None
    with I0 show ?thesis by simp
  next
    case (Some x)
    with r obtain i ord len where x: "x = (int i, ord, len)" "i < noBuffers p" "orderNo p ! i = -1"
      "len \<le> length (bufData p ! i)" by (cases x) auto
    have ret: "waits_or I (give_back during (int i) st')" if "I st'" "inpool st' = p" for st'
      using give_back_safe [of st' i during] ok x assms(4) that set_input [OF that(1)] by auto
    have fit: "len div RX_MSG_LEN * RX_MSG_LEN \<le> length (bufData p ! i)"
      using x(4) by (meson div_times_less_eq_dividend order_trans)
    obtain st1 where s1: "sort_buffer (bufData p ! i) (len div RX_MSG_LEN) ?st = Inr st1" "same_worker ?st st1"
      using sort_buffer_safe [OF inv [OF I0] fit] by blast
    have "I st1" "inpool st1 = p" using sort [OF I0 fit s1(1)] s1(2) by (simp_all add: same_worker_def)
    then have "waits_or I (cbind (give_back during (int i) st1) send_blocks)"
      by (intro waits_or_bind [OF ret] send_blocks_outcome)
    with ret [OF I0] s1(1) show ?thesis by (simp add: Some x(1))
  qed
qed

end

interpretation sorter_pass: sorting worker_ok
proof unfold_locales
  fix st st' n and bytes :: "u8 list"
  assume "worker_ok st" "n * RX_MSG_LEN \<le> length bytes" "sort_buffer bytes n st = Inr st'"
  then show "worker_ok st'"
    using sort_buffer_safe [of st n bytes] same_worker_inv [of st st'] by (auto simp: worker_ok_def same_worker_def)
qed (auto simp: worker_ok_def sorter_inv_def fpool_def)

text \<open>
  A pass of the worker never ends the process and never leaves a buffer, whatever the received
  bytes are and however the other threads interleave, as long as these respect the slots the worker
  holds: it either still waits, for a received buffer or for an empty one, or it returns in a state
  that again satisfies the invariant (six blocks in six distinct slots that the worker holds, with
  distinct orders below the next one).
\<close>

lemma worker_pass_safe:
  assumes "worker_ok st" "\<forall>(e, kg)\<in>set es. \<forall>q. input_ok q \<longrightarrow> input_ok (e q)"
    "\<forall>q. input_ok q \<longrightarrow> input_ok (between q)" "spares_input during"
  shows "worker_pass es between during st = Inl Blocked \<or>
    (\<exists>st'. worker_pass es between during st = Inr st' \<and> worker_ok st')"
  using sorter_pass.pass_outcome [OF assms] by (simp add: waits_or_def)

definition example_worker :: worker where
  "example_worker = \<lparr>inpool = \<lparr>bufData = [replicate 8200 0], dataLen = [8200], orderNo = [1], NReady = 1,
     noBuffers = 1\<rparr>, fbuf = example_fb, locals = example_locals, ants = [3, -1, -1, -1], next_order = 7,
     nextStructPacketNo = 768, lastSentPacketNo = 0, noMissing = 0, first_loop_done = True, moves = [\<lambda>held p. p]\<rparr>"

lemma spares_id: "spares n (\<lambda>held p. p)" "spares_input (\<lambda>held p. p)"
  by (simp_all add: spares_def spares_input_def)

lemma example_worker_ok: "worker_ok example_worker"
  by (simp add: worker_ok_def sorter_inv_def spares_id example_worker_def input_ok_def pool_wf_def fpool_def
      roomy_def example_blocks)
    (simp add: example_fb_def example_locals_def upt_six cconst nth_append)

section \<open>Orders and packet numbers\<close>

lemma sort_buffer_done:
  assumes "sorter_inv st" "n * RX_MSG_LEN \<le> length input" "first_loop_done st" "sort_buffer input n st = Inr st'"
  shows "\<exists>ls p. st' = set_fpool p (st\<lparr>locals := ls\<rparr>) \<and> same_blocks (locals st) ls"
proof -
  have payloads: "\<forall>pkt\<in>set (map (packet_at input) [0..<n]). length (snd pkt) = RX_DATA_LEN"
    using packet_reads(3) [OF assms(2)] by auto
  obtain ls p where "place_list (fbuf st) (ants st) (map (packet_at input) [0..<n]) (locals st) (fpool st) = Inr (ls, p)"
    "same_blocks (locals st) ls"
    using place_list_safe [OF sorter_invD(1) [OF assms(1)] sorter_inv_blocks_ok [OF assms(1)] payloads] by blast
  then show ?thesis
    using place_loop_list [OF assms(2), of "[0..<n]"] assms(3,4)
    by (intro exI [of _ ls] exI [of _ p]) (simp add: sort_buffer_def first_scan_def)
qed

definition running :: "u64 \<Rightarrow> worker \<Rightarrow> bool" where
  "running start st \<longleftrightarrow> numbered start st \<and> first_loop_done st"

lemma renewed_done: "renewed k st st' \<Longrightarrow> first_loop_done st' = first_loop_done st"
  unfolding renewed_def by auto

interpretation numbering_pass: sorting "running start" for start
proof unfold_locales
  fix st st' n and bytes :: "u8 list"
  assume r: "running start st" and n: "n * RX_MSG_LEN \<le> length bytes" and s: "sort_buffer bytes n st = Inr st'"
  have inv: "sorter_inv st" using r by (simp add: running_def numbered_def worker_ok_def)
  have ok: "worker_ok st'" using sorter_pass.sort [OF _ n s] r by (simp add: running_def numbered_def)
  obtain ls p where st': "st' = set_fpool p (st\<lparr>locals := ls\<rparr>)" and sb: "same_blocks (locals st) ls"
    using sort_buffer_done [OF inv n _ s] r by (auto simp: running_def)
  note m = same_blocksD [OF sb]
  have "packetNo l = order_packet start (worder l)" if "l \<in> set ls" for l
  proof -
    obtain i where i: "i < length ls" "l = ls ! i" using \<open>l \<in> set ls\<close> by (auto simp: in_set_conv_nth)
    then show ?thesis
      using map_nth_eqD [OF m(2) i(1)] map_nth_eqD [OF m(4) i(1)] r m(5) by (simp add: running_def numbered_def)
  qed
  then show "running start st'" using ok r by (simp add: running_def numbered_def st')
next
  fix st st' k assume "running start st" "k < N_FILE_BUFFERS_AT_A_TIME" "renewed k st st'"
    "replace_struct k st = Inr st'"
  then show "running start st'"
    using numbering.renew [of start st k st'] renewed_done [of k st st'] by (simp add: running_def)
qed (auto simp: running_def numbered_def worker_ok_def sorter_inv_def fpool_def)

lemma order_packet_inject:
  assumes "order_packet start a = order_packet start b" "0 < a" "a \<le> 2 ^ 31" "0 < b" "b \<le> 2 ^ 31"
  shows "a = b"
proof -
  have e: "unat (order_packet start c) = (unat start + 128 * nat (c - 1)) mod 2 ^ 38"
    if c: "0 < c" "c \<le> 2 ^ 31" for c :: int
  proof -
    have "unat (word_of_int (c - 1) :: u64) = nat (c - 1)"
      using c unat_word_of_int [of "nat (c - 1)", where ?'a=64] by simp
    then have "unat (start + 128 * word_of_int (c - 1)) = (unat start + 128 * nat (c - 1)) mod 2 ^ 64"
      by (simp only: unat_word_ariths) (simp add: mod_simps)
    then show ?thesis unfolding order_packet_def mask_eqs take_bit_eq_mask [symmetric] unat_take_bit_mod
      by (simp add: mod_mod_cancel)
  qed
  have "(unat start + 128 * nat (a - 1)) mod 2 ^ 38 = (unat start + 128 * nat (b - 1)) mod 2 ^ 38"
    using e [of a] e [of b] assms by simp
  then have "128 * nat (a - 1) = 128 * nat (b - 1)"
    by (rule mod_add_cancel_small) (use assms in simp_all)
  then show ?thesis using assms by simp
qed

text \<open>
  C12: once the first buffer has been seen, every pass keeps order and packet number in step: the
  block with order \<open>o\<close> collects the 128 packets from \<open>start + 128 (o - 1)\<close> on (in the 38 bits of
  the packet number), and so does the next block to be started. As long as fewer than \<open>2\<^sup>3\<^sup>1\<close> blocks
  have been started no two blocks collect the same packets.
\<close>

theorem worker_pass_numbering:
  assumes "running start st" "\<forall>(e, kg)\<in>set es. \<forall>q. input_ok q \<longrightarrow> input_ok (e q)"
    "\<forall>q. input_ok q \<longrightarrow> input_ok (between q)" "spares_input during"
    "worker_pass es between during st = Inr st'"
  shows "nextStructPacketNo st' = order_packet start (next_order st') \<and>
    (\<forall>l\<in>set (locals st'). packetNo l = order_packet start (worder l)) \<and> running start st' \<and>
    (next_order st' \<le> 2 ^ 31 \<longrightarrow> distinct (map packetNo (locals st')))"
proof -
  have r: "running start st'" using numbering_pass.pass_outcome [OF assms(1-4)] assms(5) by simp
  then have D: "sorter_inv st'" and n: "\<forall>l\<in>set (locals st'). packetNo l = order_packet start (worder l)"
    by (simp_all add: running_def numbered_def worker_ok_def)
  have "distinct (map packetNo (locals st'))" if "next_order st' \<le> 2 ^ 31"
  proof -
    have "inj_on (order_packet start) (worder ` set (locals st'))"
      using sorter_invD(4) [OF D] that by (force intro!: inj_onI dest!: order_packet_inject)
    moreover have "map packetNo (locals st') = map (order_packet start) (map worder (locals st'))" using n by simp
    ultimately show ?thesis using D by (simp add: distinct_map sorter_inv_def comp_inj_on del: map_map)
  qed
  with r n show ?thesis by (simp add: running_def numbered_def)
qed

lemma example_running: "running 0 example_worker"
proof -
  have "packetNo l = order_packet 0 (worder l)" if "l \<in> set example_locals" for l
    using that by (auto simp: example_locals_def upt_six order_packet_def cconst)
  then show ?thesis
    using example_worker_ok by (simp add: running_def numbered_def) (simp add: example_worker_def order_packet_def cconst)
qed

text \<open>A pass that finds the receive thread finished leaves the blocks as they are.\<close>

theorem worker_pass_numbering_witness:
  "\<exists>st'. worker_pass [(\<lambda>p. p\<lparr>NReady := 0\<rparr>, False)] (\<lambda>p. p) (\<lambda>held p. p) example_worker = Inr st' \<and>
    distinct (map packetNo (locals st')) \<and> nextStructPacketNo st' = order_packet 0 7"
proof -
  let ?es = "[(\<lambda>p. p\<lparr>NReady := 0\<rparr>, False)]"
  have e: "\<forall>(e, kg)\<in>set ?es. \<forall>q. input_ok q \<longrightarrow> input_ok (e q)" by (simp add: input_ok_def pool_wf_def)
  obtain st' where st': "worker_pass ?es (\<lambda>p. p) (\<lambda>held p. p) example_worker = Inr st'" "next_order st' = 7"
    by (simp add: worker_pass_def fetchBuffer_def fetchBuffer_poll_def example_worker_def)
  show ?thesis using worker_pass_numbering [OF example_running e _ spares_id(2) st'(1)] st' by simp
qed

lemma scan_loop_min:
  assumes "n * RX_MSG_LEN \<le> length input" "\<forall>i\<in>set iKs. i < n" "scan_loop input na iKs lo tab = Inr (x, tab')"
  shows "x \<le> lo \<and> (\<forall>i\<in>set iKs. x \<le> GET_PCKT_NO (fst (packet_at input i))) \<and>
    (x = lo \<or> (\<exists>i\<in>set iKs. x = GET_PCKT_NO (fst (packet_at input i))))"
  using assms(2,3)
proof (induction iKs arbitrary: lo tab)
  case Nil
  then show ?case by simp
next
  case (Cons i iKs)
  let ?g = "GET_PCKT_NO (fst (packet_at input i))"
  obtain tab1 where s: "scan_loop input na iKs (min lo ?g) tab1 = Inr (x, tab')"
    using Cons.prems packet_reads(1) [OF assms(1), of i] by auto
  have "\<forall>i\<in>set iKs. i < n" using Cons.prems(1) by simp
  note IH = Cons.IH [OF this s]
  moreover have "min lo ?g = lo \<or> min lo ?g = ?g" by (simp add: min_def)
  moreover have "x \<le> lo" "x \<le> ?g" using IH by (meson min.boundedE)+
  ultimately show ?case by (metis list.set_intros(1) list.set_intros(2) set_ConsD)
qed

text \<open>The worker before its first buffer: orders one to six.\<close>

definition fresh :: "worker \<Rightarrow> bool" where
  "fresh st \<longleftrightarrow> worker_ok st \<and> \<not> first_loop_done st \<and> map worder (locals st) = [1, 2, 3, 4, 5, 6] \<and> next_order st = 7"

lemma order_packet_small:
  assumes "unat start + 128 * k < 2 ^ 38"
  shows "start + of_nat (k * 128) = order_packet start (int k + 1)"
proof -
  let ?w = "start + of_nat (k * 128) :: u64"
  have "unat (of_nat (k * 128) :: u64) = k * 128" using assms by (intro unat_of_nat_small) simp
  then have "unat ?w = unat start + k * 128" using assms by (subst unat_add_small) simp_all
  then have "take_bit 38 ?w = ?w" using assms by (intro take_bit_small) simp
  then show ?thesis unfolding order_packet_def mask_eqs take_bit_eq_mask [symmetric] by (simp add: mult.commute)
qed

lemma scan_loop_lowest:
  assumes "0 < n" "n * RX_MSG_LEN \<le> length input"
  obtains m tab where "m < n" "scan_loop input na [0..<n] LONG_MAX tab0 = Inr (GET_PCKT_NO (fst (packet_at input m)), tab)"
    "\<forall>i<n. GET_PCKT_NO (fst (packet_at input m)) \<le> GET_PCKT_NO (fst (packet_at input i))"
proof -
  obtain x tab where sc: "scan_loop input na [0..<n] LONG_MAX tab0 = Inr (x, tab)"
    using scan_loop_returns [OF assms(2), of "[0..<n]"] by fastforce
  have small: "GET_PCKT_NO h < LONG_MAX" for h
    using unat_GET_PCKT_NO_less [of h] by (simp add: word_less_nat_alt LONG_MAX_def)
  have x: "\<forall>i<n. x \<le> GET_PCKT_NO (fst (packet_at input i))" "x = LONG_MAX \<or> (\<exists>i<n. x = GET_PCKT_NO (fst (packet_at input i)))"
    using scan_loop_min [OF assms(2) _ sc] by auto
  have "x \<noteq> LONG_MAX" using x(1) assms(1) small by (metis not_le)
  with x(2) obtain m where "m < n" "x = GET_PCKT_NO (fst (packet_at input m))" by blast
  with sc x(1) show thesis by (intro that [of m tab]) simp_all
qed

text \<open>
  C13: the scan of the first buffer starts the recording at the lowest packet number in it, rounded
  down to a multiple of 128 (no packet of the buffer is older than the first block); the six blocks
  and the next one are then numbered from there, provided the six blocks stay below \<open>2\<^sup>3\<^sup>8\<close>. The
  code does not reduce the six numbers to 38 bits: a block that starts at or above \<open>2\<^sup>3\<^sup>8\<close> matches no
  packet at all.
\<close>

theorem first_scan_numbers:
  assumes "fresh st" "0 < n" "n * RX_MSG_LEN \<le> length input"
  shows "\<exists>st' m. first_scan input n st = Inr st' \<and> m < n \<and>
    (\<forall>i<n. GET_PCKT_NO (fst (packet_at input m)) \<le> GET_PCKT_NO (fst (packet_at input i))) \<and>
    packetStart (fbuf st') = packet_block (fst (packet_at input m)) \<and>
    (unat (packetStart (fbuf st')) + 640 < 2 ^ 38 \<longrightarrow> running (packetStart (fbuf st')) st') \<and>
    (\<forall>k<6. 2 ^ 38 \<le> unat (packetStart (fbuf st')) + 128 * k \<longrightarrow>
      (\<forall>hdr. packetNo (locals st' ! k) \<noteq> packet_block hdr))"
proof -
  have ok: "worker_ok st" and nd: "\<not> first_loop_done st" and ords: "map worder (locals st) = [1, 2, 3, 4, 5, 6]"
    and no: "next_order st = 7" using assms(1) by (simp_all add: fresh_def)
  have len: "length (locals st) = N_FILE_BUFFERS_AT_A_TIME" using ok by (simp add: worker_ok_def sorter_inv_def)
  obtain st' where st': "first_scan input n st = Inr st'" "same_worker st st'"
    using first_scan_safe [OF len assms(3)] by blast
  obtain m tab where m: "m < n" "scan_loop input (nAnts (fbuf st)) [0..<n] LONG_MAX (ants st) =
        Inr (GET_PCKT_NO (fst (packet_at input m)), tab)"
      "\<forall>i<n. GET_PCKT_NO (fst (packet_at input m)) \<le> GET_PCKT_NO (fst (packet_at input i))"
    by (rule scan_loop_lowest [OF assms(2,3)])
  let ?start = "GET_PACKET_FILTER (GET_PCKT_NO (fst (packet_at input m)))"
  have F: "packetStart (fbuf st') = ?start" "first_loop_done st'" "next_order st' = 7"
    "nextStructPacketNo st' = (?start + of_nat (6 * 128)) AND PCKT_NO_MASK"
    "locals st' = map (\<lambda>iK. (locals st ! iK)\<lparr>packetNo := ?start + of_nat (iK * 128)\<rparr>) [0..<6]"
    using st'(1) m(2) nd no by (auto simp: first_scan_def Let_def cconst)
  have nth: "packetNo (locals st' ! k) = ?start + of_nat (k * 128)" "worder (locals st' ! k) = int k + 1" if "k < 6" for k
  proof -
    have "worder (locals st ! k) = [1, 2, 3, 4, 5, 6] ! k" using ords that len by (metis N_FILE_BUFFERS_AT_A_TIME_def nth_map)
    then show "worder (locals st' ! k) = int k + 1" using that unfolding F(5) by (auto simp: less_Suc_eq numeral_eq_Suc)
    show "packetNo (locals st' ! k) = ?start + of_nat (k * 128)" using that unfolding F(5) by simp
  qed
  have small_start: "unat ?start < 2 ^ 38"
    using unat_GET_PCKT_NO_less [of "fst (packet_at input m)"] unfolding unat_GET_PACKET_FILTER by linarith
  have "running ?start st'" if s: "unat ?start + 640 < 2 ^ 38"
  proof -
    have "packetNo l = order_packet ?start (worder l)" if "l \<in> set (locals st')" for l
    proof -
      obtain k where k: "k < 6" "l = locals st' ! k" using \<open>l \<in> set (locals st')\<close> F(5) by (auto simp: in_set_conv_nth)
      then show ?thesis using nth [OF k(1)] order_packet_small [of ?start k] s by simp
    qed
    moreover have "nextStructPacketNo st' = order_packet ?start 7" unfolding F(4) order_packet_def by simp
    moreover have "worker_ok st'"
      using ok st'(2) same_worker_inv [of st st'] by (auto simp: worker_ok_def same_worker_def)
    ultimately show ?thesis using F(2,3) by (simp add: running_def numbered_def)
  qed
  moreover have "packetNo (locals st' ! k) \<noteq> packet_block hdr" if k: "k < 6" "2 ^ 38 \<le> unat ?start + 128 * k" for k hdr
  proof -
    have "unat (of_nat (k * 128) :: u64) = k * 128" using k(1) by (intro unat_of_nat_small) simp
    then have "unat (packetNo (locals st' ! k)) = unat ?start + k * 128"
      unfolding nth(1) [OF k(1)] using small_start k(1) by (subst unat_add_small) simp_all
    moreover have "unat (packet_block hdr) < 2 ^ 38"
      using unat_GET_PCKT_NO_less [of hdr] unfolding unat_GET_PACKET_FILTER by linarith
    ultimately show ?thesis using k(2) by auto
  qed
  ultimately show ?thesis using st'(1) m(1,3) F(1) by auto
qed

theorem first_scan_numbers_witness:
  "\<exists>st' m. first_scan (replicate 8200 0) 1 (example_worker\<lparr>first_loop_done := False\<rparr>) = Inr st' \<and> m < 1 \<and>
    packetStart (fbuf st') = packet_block (fst (packet_at (replicate 8200 0) m))"
proof -
  have "worker_ok (example_worker\<lparr>first_loop_done := False\<rparr>)"
    using example_worker_ok by (simp add: worker_ok_def sorter_inv_def fpool_def)
  then have "fresh (example_worker\<lparr>first_loop_done := False\<rparr>)"
    by (simp add: fresh_def) (simp add: example_worker_def example_locals_def upt_six)
  from first_scan_numbers [OF this, of 1 "replicate 8200 0"] show ?thesis by (auto simp: cconst)
qed

section \<open>Progress\<close>

definition frees :: "held_move \<Rightarrow> bool" where
  "frees f \<longleftrightarrow> (\<forall>held p. roomy FILE_BUFFER_SIZE p \<and> length held < noBuffers p \<longrightarrow>
     (\<exists>i<noBuffers (f held p). orderNo (f held p) ! i = 0))"

lemma fetchEmpty_spin_frees:
  assumes "roomy FILE_BUFFER_SIZE p" "spares FILE_BUFFER_SIZE f" "frees f" "length held < noBuffers p"
  shows "\<exists>index p'. fetchEmpty_spin held (f # es) p = Inr (index, p', es)"
proof -
  have "pool_wf (f held p)" using sparesD(1) [OF assms(2,1)] by (simp add: roomy_def)
  then show ?thesis
  proof (cases rule: acquire_slot_cases)
    case none
    with assms(1,3,4) have False unfolding frees_def by blast
    then show ?thesis ..
  next
    case (some i)
    then show ?thesis by simp
  qed
qed

lemma write_slot_not_Blocked: "write_slot i off src p \<noteq> Inl Blocked"
  by (auto simp: write_slot_def blit_def)

lemma sorter_inv_slots:
  assumes "sorter_inv st" "k < N_FILE_BUFFERS_AT_A_TIME"
  shows "length (held_except k (locals st)) < noBuffers (fpool st)"
proof -
  note D = sorter_invD [OF assms(1)]
  have "set (map wdata (locals st)) \<subseteq> {..<noBuffers (fpool st)}" using D(4) by auto
  then have "card (set (map wdata (locals st))) \<le> noBuffers (fpool st)"
    using card_mono [of "{..<noBuffers (fpool st)}"] by simp
  moreover have "card (set (map wdata (locals st))) = N_FILE_BUFFERS_AT_A_TIME"
    using assms(1) D(3) by (metis distinct_card length_map sorter_inv_def)
  ultimately show ?thesis using assms(2) D(3) by (simp add: held_except_def)
qed

lemma replace_struct_progress:
  assumes "worker_ok st" "k < N_FILE_BUFFERS_AT_A_TIME" "\<forall>f\<in>set (moves st). frees f" "moves st \<noteq> []"
  shows "\<exists>st'. replace_struct k st = Inr st' \<and> worker_ok st' \<and> moves st' = tl (moves st)"
proof -
  let ?l = "locals st ! k" and ?held = "held_except k (locals st)"
  obtain f es where m: "moves st = f # es" using assms(4) by (cases "moves st") auto
  have f: "spares FILE_BUFFER_SIZE f" "frees f" using sorter.spared [OF assms(1)] assms(3) by (simp_all add: m)
  from sorter.replace_outcome [OF assms(1,2)] show ?thesis
  proof (cases rule: waits_or_cases)
    case waits
    show ?thesis
    proof (cases "returnBuffer (fpool st) (windex ?l) (worder ?l) (dataLenOut (fbuf st))")
      case (Inl e)
      then show ?thesis using waits by (auto simp: replace_struct_def returnBuffer_def Let_def split: if_splits)
    next
      case (Inr p1)
      have "roomy FILE_BUFFER_SIZE p1"
        using roomy_publish [OF _ Inr] assms(1) by (simp add: worker_ok_def sorter_inv_def)
      moreover have "length ?held < noBuffers p1"
        using Inr sorter_inv_slots [OF sorter.inv [OF assms(1)] assms(2)] by (auto simp: returnBuffer_def split: if_splits)
      ultimately obtain i p' where
        "fetchEmpty_spin ?held (f # es) p1 = Inr (i, p', es)" using fetchEmpty_spin_frees [OF _ f] by blast
      then have "write_slot (nat i) 0 (replicate (dataLenOut (fbuf st)) 0) p' = Inl Blocked"
        using waits Inr by (auto simp: replace_struct_def Let_def m cbind_def split: sum.splits)
      then show ?thesis using write_slot_not_Blocked by blast
    qed
  next
    case (returns st')
    then obtain p1 where p1: "returnBuffer (fpool st) (windex ?l) (worder ?l) (dataLenOut (fbuf st)) = Inr p1"
      by (auto simp: replace_struct_def Let_def cbind_eq_Inr_iff)
    have "roomy FILE_BUFFER_SIZE p1"
      using roomy_publish [OF _ p1] assms(1) by (simp add: worker_ok_def sorter_inv_def)
    moreover have "length ?held < noBuffers p1"
      using p1 sorter_inv_slots [OF sorter.inv [OF assms(1)] assms(2)] by (auto simp: returnBuffer_def split: if_splits)
    ultimately obtain i p' where "fetchEmpty_spin ?held (f # es) p1 = Inr (i, p', es)"
      using fetchEmpty_spin_frees [OF _ f] by blast
    then have "moves st' = es" using returns(1) p1 by (auto simp: replace_struct_def Let_def m cbind_eq_Inr_iff)
    with returns show ?thesis by (simp add: m)
  qed
qed

text \<open>
  A supply of empty buffers: \<open>able n\<close> says that the worker can renew \<open>n\<close> blocks. A pass renews at most
  twelve.
\<close>

locale provision =
  fixes able :: "nat \<Rightarrow> worker \<Rightarrow> bool"
  assumes renews: "able (Suc n) st \<Longrightarrow> k < N_FILE_BUFFERS_AT_A_TIME \<Longrightarrow> \<exists>st'. replace_struct k st = Inr st' \<and> able n st'"
    and marks: "able n st \<Longrightarrow> able n (st\<lparr>lastSentPacketNo := x\<rparr>)" "able n st \<Longrightarrow> able n (st\<lparr>noMissing := y\<rparr>)"
    and less: "able (Suc n) st \<Longrightarrow> able n st"
begin

lemma send_full_able:
  "able (length iKs + n) st \<Longrightarrow> \<forall>k\<in>set iKs. k < N_FILE_BUFFERS_AT_A_TIME \<Longrightarrow>
   \<exists>m st'. send_full_loop iKs c st = Inr (m, st') \<and> able n st'"
proof (induction iKs arbitrary: c st)
  case Nil
  then show ?case by simp
next
  case (Cons k iKs)
  let ?st = "st\<lparr>lastSentPacketNo := packetNo (locals st ! k)\<rparr>"
  have "able (Suc (length iKs + n)) ?st" using Cons.prems(1) marks(1) by simp
  then obtain st1 where "replace_struct k ?st = Inr st1" "able (length iKs + n) st1"
    using renews Cons.prems(2) by fastforce
  moreover have "able (length iKs + n) st" using Cons.prems(1) less by simp
  ultimately show ?case using Cons.IH Cons.prems(2) by simp
qed

lemma send_earlier_able:
  "able (length iKs + n) st \<Longrightarrow> \<forall>k\<in>set iKs. k < N_FILE_BUFFERS_AT_A_TIME \<Longrightarrow>
   \<exists>st'. send_earlier_loop iKs st = Inr st' \<and> able n st'"
proof (induction iKs arbitrary: st)
  case Nil
  then show ?case by simp
next
  case (Cons k iKs)
  let ?st = "st\<lparr>noMissing := noMissing st + word_of_int (nToFull (locals st ! k))\<rparr>"
  have "able (Suc (length iKs + n)) ?st" using Cons.prems(1) marks(2) by simp
  then obtain st1 where "replace_struct k ?st = Inr st1" "able (length iKs + n) st1"
    using renews Cons.prems(2) by fastforce
  moreover have "able (length iKs + n) st" using Cons.prems(1) less by simp
  ultimately show ?case using Cons.IH Cons.prems(2) by simp
qed

lemma send_blocks_able:
  assumes "able 12 st"
  shows "\<exists>st'. send_blocks st = Inr st' \<and> able 0 st'"
proof -
  have "able (length [0..<N_FILE_BUFFERS_AT_A_TIME] + 6) st" using assms by (simp add: cconst)
  then obtain m st1 where s1: "send_full_loop [0..<N_FILE_BUFFERS_AT_A_TIME] 0 st = Inr (m, st1)" "able 6 st1"
    using send_full_able by fastforce
  have "able (length [0..<N_FILE_BUFFERS_AT_A_TIME] + 0) (mark_half m st1)"
    using s1(2) marks(1) by (simp add: mark_half_def cconst)
  then obtain st2 where "send_earlier_loop [0..<N_FILE_BUFFERS_AT_A_TIME] (mark_half m st1) = Inr st2" "able 0 st2"
    using send_earlier_able by fastforce
  with s1(1) show ?thesis by (auto simp: send_blocks_def)
qed

end

text \<open>First supply: every move of the file thread leaves some slot empty.\<close>

definition fed :: "nat \<Rightarrow> worker \<Rightarrow> bool" where
  "fed n st \<longleftrightarrow> worker_ok st \<and> (\<forall>f\<in>set (moves st). frees f) \<and> n \<le> length (moves st)"

interpretation emptying: provision fed
proof unfold_locales
  fix n st k assume f: "fed (Suc n) st" "k < N_FILE_BUFFERS_AT_A_TIME"
  then have "moves st \<noteq> []" by (auto simp: fed_def)
  then obtain g es where m: "moves st = g # es" by (cases "moves st") auto
  with replace_struct_progress [of st k] f show "\<exists>st'. replace_struct k st = Inr st' \<and> fed n st'" by (fastforce simp: fed_def)
qed (auto simp: fed_def intro: sorter.set_last sorter.set_missing)

text \<open>
  Second supply: the file thread does nothing any more, and there are empty slots in stock.
\<close>

definition empty_slots :: "udpBuffStruct \<Rightarrow> nat set" where
  "empty_slots p = {i. i < noBuffers p \<and> orderNo p ! i = 0}"

definition stocked :: "nat \<Rightarrow> worker \<Rightarrow> bool" where
  "stocked n st \<longleftrightarrow> worker_ok st \<and> (\<forall>f\<in>set (moves st). f = (\<lambda>held p. p)) \<and> n \<le> length (moves st) \<and>
     n \<le> card (empty_slots (fpool st))"

lemma replace_struct_stock:
  assumes "worker_ok st" "k < N_FILE_BUFFERS_AT_A_TIME" "moves st = (\<lambda>held p. p) # es" "empty_slots (fpool st) \<noteq> {}"
  shows "\<exists>st'. replace_struct k st = Inr st' \<and> worker_ok st' \<and> moves st' = es \<and>
    card (empty_slots (fpool st)) \<le> Suc (card (empty_slots (fpool st')))"
proof -
  let ?l = "locals st ! k" and ?held = "held_except k (locals st)"
  have inv: "sorter_inv st" using assms(1) by (simp add: worker_ok_def)
  have l: "?l \<in> set (locals st)" using inv assms(2) by (simp add: sorter_inv_def)
  then have at: "windex ?l = int (wdata ?l)" "wdata ?l < noBuffers (fpool st)" "orderNo (fpool st) ! wdata ?l = -1"
    "0 < worder ?l" using inv by (auto simp: sorter_inv_def)
  have wf: "pool_wf (fpool st)" using inv by (simp add: sorter_inv_def roomy_def)
  obtain p1 where p1: "returnBuffer (fpool st) (windex ?l) (worder ?l) (dataLenOut (fbuf st)) = Inr p1"
    "orderNo p1 = (orderNo (fpool st))[wdata ?l := worder ?l]" "noBuffers p1 = noBuffers (fpool st)" "pool_wf p1"
    using at wf by (auto simp: returnBuffer_def pool_wf_def)
  have e1: "empty_slots p1 = empty_slots (fpool st)"
    using at wf p1(2,3) by (auto simp: empty_slots_def pool_wf_def nth_list_update)
  from p1(4) show ?thesis
  proof (cases rule: acquire_slot_cases)
    case none
    then show ?thesis using assms(4) e1 by (auto simp: empty_slots_def)
  next
    case (some i)
    let ?p2 = "p1\<lparr>orderNo := (orderNo p1)[i := -1]\<rparr>"
    have spin: "fetchEmpty_spin ?held (moves st) p1 = Inr (int i, ?p2, es)" using some(1) assms(3) by simp
    have e2: "empty_slots ?p2 = empty_slots p1 - {i}"
      using some p1(4) by (auto simp: empty_slots_def pool_wf_def nth_list_update)
    from sorter.replace_outcome [OF assms(1,2)] show ?thesis
    proof (cases rule: waits_or_cases)
      case waits
      then have "write_slot i 0 (replicate (dataLenOut (fbuf st)) 0) ?p2 = Inl Blocked"
        using p1(1) spin by (auto simp: replace_struct_def Let_def cbind_def split: sum.splits)
      then show ?thesis using write_slot_not_Blocked by blast
    next
      case (returns st')
      then obtain p3 where p3: "write_slot i 0 (replicate (dataLenOut (fbuf st)) 0) ?p2 = Inr p3" "fpool st' = p3" "moves st' = es"
        using p1(1) spin by (auto simp: replace_struct_def Let_def cbind_eq_Inr_iff set_fpool_def fpool_def)
      have "empty_slots (fpool st') = empty_slots (fpool st) - {i}"
        using write_slot_frame [OF p3(1)] p3(2) e1 e2 by (simp add: empty_slots_def)
      then have "card (empty_slots (fpool st)) \<le> Suc (card (empty_slots (fpool st')))"
        by (simp add: card_Diff_singleton_if) linarith
      with returns p3(3) show ?thesis by blast
    qed
  qed
qed

interpretation stock: provision stocked
proof unfold_locales
  fix n st k assume f: "stocked (Suc n) st" "k < N_FILE_BUFFERS_AT_A_TIME"
  then obtain es where m: "moves st = (\<lambda>held p. p) # es" by (cases "moves st") (auto simp: stocked_def)
  have "empty_slots (fpool st) \<noteq> {}" using f(1) by (auto simp: stocked_def)
  with replace_struct_stock [OF _ f(2) m] f(1) m show "\<exists>st'. replace_struct k st = Inr st' \<and> stocked n st'"
    by (fastforce simp: stocked_def)
qed (auto simp: stocked_def fpool_def intro: sorter.set_last sorter.set_missing)

text \<open>
  C14: the worker is not stuck. While the file thread keeps emptying buffers - each of its next twelve
  turns leaves some slot of the file pool empty - publishing the full and the overtaken blocks of a
  pass comes to an end, because it needs at most twelve empty buffers. And the last pass ends even
  when the file thread has already ended, if it has left twelve empty slots: of the recorder's twenty
  slots the worker holds six, and the file thread ends only when no slot is ready.
\<close>

theorem send_blocks_progress:
  assumes "worker_ok st" "12 \<le> length (moves st)"
    "(\<forall>f\<in>set (moves st). frees f) \<or> (\<forall>f\<in>set (moves st). f = (\<lambda>held p. p)) \<and> 12 \<le> card (empty_slots (fpool st))"
  shows "\<exists>st'. send_blocks st = Inr st' \<and> worker_ok st'"
  using assms emptying.send_blocks_able [of st] stock.send_blocks_able [of st] by (auto simp: fed_def stocked_def)

text \<open>A file thread that empties every buffer the worker does not hold.\<close>

definition empty_others :: held_move where
  "empty_others held p =
     p\<lparr>orderNo := fold (\<lambda>j xs. if int j \<in> set held then xs else xs[j := 0]) [0..<noBuffers p] (orderNo p)\<rparr>"

lemma fold_empty:
  "length (fold (\<lambda>j xs. if int j \<in> H then xs else xs[j := 0]) js xs) = length xs"
  "int i \<in> H \<Longrightarrow> fold (\<lambda>j xs. if int j \<in> H then xs else xs[j := 0]) js xs ! i = xs ! i"
  "int i \<notin> H \<Longrightarrow> i < length xs \<Longrightarrow> i \<in> set js \<or> xs ! i = (0::int) \<Longrightarrow>
     fold (\<lambda>j xs. if int j \<in> H then xs else xs[j := 0]) js xs ! i = 0"
proof (induction js arbitrary: xs)
  case (Cons j js)
  {
    case 1
    show ?case using Cons.IH(1) by simp
  next
    case 2
    show ?case using Cons.IH(2) [OF 2] 2 by (cases "i = j") auto
  next
    case 3
    show ?case using Cons.IH(3) [OF 3(1)] 3 by (cases "i = j") auto
  }
qed auto

lemma empty_others_spares: "spares n empty_others" "frees empty_others"
proof -
  show "spares n empty_others"
    using fold_empty(1,2) by (auto simp: spares_def empty_others_def intro!: roomy_orders)
  show "frees empty_others"
    unfolding frees_def
  proof (intro allI impI)
    fix held :: "int list" and p assume p: "roomy FILE_BUFFER_SIZE p \<and> length held < noBuffers p"
    have "\<not> int ` {..<noBuffers p} \<subseteq> set held"
    proof
      assume "int ` {..<noBuffers p} \<subseteq> set held"
      then have "card (int ` {..<noBuffers p}) \<le> card (set held)" by (intro card_mono) simp_all
      also have "\<dots> \<le> length held" by (rule card_length)
      finally show False using p by (simp add: card_image)
    qed
    then obtain i where i: "i < noBuffers p" "int i \<notin> set held" by auto
    have "i < length (orderNo p)" using p i(1) by (simp add: roomy_def pool_wf_def)
    with i have "orderNo (empty_others held p) ! i = 0" by (simp add: empty_others_def fold_empty(3))
    then show "\<exists>i<noBuffers (empty_others held p). orderNo (empty_others held p) ! i = 0"
      using i(1) by (intro exI [of _ i]) (simp add: empty_others_def)
  qed
qed

theorem send_blocks_progress_witness:
  "\<exists>st'. send_blocks (example_worker\<lparr>moves := replicate 12 empty_others\<rparr>) = Inr st' \<and> worker_ok st'"
proof (rule send_blocks_progress)
  show "worker_ok (example_worker\<lparr>moves := replicate 12 empty_others\<rparr>)"
    using example_worker_ok empty_others_spares(1) by (simp add: worker_ok_def sorter_inv_def fpool_def)
qed (simp_all add: empty_others_spares)

section \<open>Which blocks are overtaken\<close>

text \<open>
  C15: for block numbers in the 38-bit range (multiples of 128) the test for an overtaken block is the
  plain comparison with the last sent one, except when that is 0: then the blocks of the upper half
  of the range count as overtaken. So the wrap-around of the packet number is handled for the block
  0 alone: with the last block before the wrap sent, the fresh block 0 counts as overtaken, and
  with block 128 sent, an unfinished block from before the wrap does not.
\<close>

theorem overtaken_exact:
  assumes "unat sent < 2 ^ 38" "128 dvd unat sent" "unat pkt < 2 ^ 38" "128 dvd unat pkt"
  shows "(overtaken sent pkt \<longleftrightarrow> (if sent = 0 then 2 ^ 37 \<le> unat pkt else unat pkt < unat sent)) \<and>
    overtaken (2 ^ 38 - 128) 0 \<and> \<not> overtaken 128 (2 ^ 38 - 128)"
proof -
  have s: "sint sent = int (unat sent)"
    unfolding sint_cases uint_nat using assms(1) by (simp del: of_nat_unat)
  have "overtaken sent pkt \<longleftrightarrow> (if sent = 0 then 2 ^ 37 \<le> unat pkt else unat pkt < unat sent)"
  proof (cases "sent = 0")
    case True
    have "drop_bit 1 PCKT_NO_MASK < pkt \<longleftrightarrow> 2 ^ 37 \<le> unat pkt"
      by (auto simp: cconst word_less_nat_alt)
    moreover have "pkt < PCKT_NO_MASK - 3 \<longleftrightarrow> unat pkt < 2 ^ 38 - 4" by (simp add: cconst word_less_nat_alt)
    moreover have "unat pkt < 2 ^ 38 - 4"
    proof -
      obtain c where "unat pkt = 128 * c" using assms(4) by blast
      with assms(3) show ?thesis by simp
    qed
    ultimately show ?thesis using True by (simp add: overtaken_def cconst)
  next
    case False
    then have "unat sent \<noteq> 0" by (simp add: unat_eq_0)
    with assms(2) have "128 \<le> unat sent" by (intro dvd_imp_le) auto
    then have "sint sent > 3" unfolding s by (simp del: of_nat_unat)
    then show ?thesis using False by (simp add: overtaken_def cconst word_less_nat_alt)
  qed
  moreover have "overtaken (2 ^ 38 - 128) 0" "\<not> overtaken 128 (2 ^ 38 - 128)"
    by (simp_all add: overtaken_def cconst)
  ultimately show ?thesis by blast
qed

theorem overtaken_exact_witness: "overtaken 384 256 \<and> \<not> overtaken 384 384"
  using overtaken_exact [of 384 256] overtaken_exact [of 384 384] by simp

section \<open>The start of the worker\<close>

text \<open>The pool and the array of blocks after \<open>k\<close> buffers have been taken.\<close>

definition taken :: "nat \<Rightarrow> nat \<Rightarrow> fileBuffStruct \<Rightarrow> work_local_struct list \<Rightarrow> udpBuffStruct \<Rightarrow> bool" where
  "taken n k fb ls p \<longleftrightarrow> roomy FILE_BUFFER_SIZE p \<and> noBuffers p = n \<and> length ls = N_FILE_BUFFERS_AT_A_TIME \<and>
     (\<forall>j<n. orderNo p ! j = (if j < k then -1 else 0)) \<and>
     (\<forall>j<k. wdata (ls ! j) = j \<and> windex (ls ! j) = int j \<and> worder (ls ! j) = int j + 1 \<and>
        nToFull (ls ! j) = int (packetsPerBlock fb) \<and>
        take (dataLenOut fb) (bufData p ! j) = replicate (dataLenOut fb) 0)"

lemma taken_fetch:
  assumes "taken n k fb ls p" "k < n"
  shows "fetchEmptyBuffer p = (0, int k, p\<lparr>orderNo := (orderNo p)[k := -1]\<rparr>)"
proof -
  have wf: "pool_wf p" "noBuffers p = n" using assms(1) by (simp_all add: taken_def roomy_def)
  have ord: "orderNo p ! j = (if j < k then -1 else 0)" if "j < n" for j using assms(1) that by (simp add: taken_def)
  from wf(1) show ?thesis
  proof (cases rule: acquire_slot_cases)
    case none
    with ord [of k] assms(2) wf(2) show ?thesis by auto
  next
    case (some i)
    have "\<not> k < i" using some(5) [of k] ord [of k] assms(2) by auto
    moreover have "\<not> i < k" using some(3,4) ord [of i] wf(2) by auto
    ultimately show ?thesis using some(1) by (simp add: linorder_neq_iff)
  qed
qed

lemma init_locals_takes:
  assumes "taken n k fb ls p" "sorter_dims fb" "k \<le> m" "m \<le> N_FILE_BUFFERS_AT_A_TIME" "m \<le> n"
  shows "\<exists>ls' p'. init_locals fb [k..<m] ls p = Inr (ls', p') \<and> taken n m fb ls' p'"
  using assms
proof (induction "m - k" arbitrary: k ls p)
  case 0
  then show ?case by auto
next
  case (Suc d)
  then have k: "k < m" "k < n" by auto
  have t: "roomy FILE_BUFFER_SIZE p" "pool_wf p" "noBuffers p = n" "length ls = N_FILE_BUFFERS_AT_A_TIME"
    using Suc.prems(1) by (simp_all add: taken_def roomy_def)
  have ord: "orderNo p ! j = (if j < k then -1 else 0)" if "j < n" for j using Suc.prems(1) that by (simp add: taken_def)
  let ?p = "p\<lparr>orderNo := (orderNo p)[k := -1]\<rparr>"
  have f: "fetchEmptyBuffer p = (0, int k, ?p)" by (rule taken_fetch [OF Suc.prems(1) k(2)])
  have rm: "roomy FILE_BUFFER_SIZE ?p" by (rule roomy_orders [OF t(1)]) simp
  have i: "k < noBuffers ?p" "k < length (orderNo p)" using t k by (simp_all add: pool_wf_def)
  obtain p' where w: "write_slot k 0 (replicate (dataLenOut fb) 0) ?p = Inr p'" and rp: "roomy FILE_BUFFER_SIZE p'"
      and z: "take (dataLenOut fb) (bufData p' ! k) = replicate (dataLenOut fb) 0" by (rule clear_slot [OF rm assms(2) i(1)])
  note fr = write_slot_frame [OF w]
  let ?ls = "ls[k := (ls ! k)\<lparr>wdata := k, windex := int k, nToFull := int (packetsPerBlock fb), worder := int k + 1\<rparr>]"
  have kl: "k < length ls" using k(1) Suc.prems(4) t(4) by simp
  have "taken n (Suc k) fb ?ls p'" unfolding taken_def
  proof (intro conjI allI impI)
    show "roomy FILE_BUFFER_SIZE p'" by (rule rp)
    show "noBuffers p' = n" "length ?ls = N_FILE_BUFFERS_AT_A_TIME" using fr(4) t by simp_all
    show "orderNo p' ! j = (if j < Suc k then -1 else 0)" if "j < n" for j
      using ord [OF that] fr(1) i(2) by (auto simp: nth_list_update less_Suc_eq)
    fix j assume j: "j < Suc k"
    then have old: "j \<noteq> k \<Longrightarrow> wdata (ls ! j) = j \<and> windex (ls ! j) = int j \<and> worder (ls ! j) = int j + 1 \<and>
        nToFull (ls ! j) = int (packetsPerBlock fb) \<and> take (dataLenOut fb) (bufData p ! j) = replicate (dataLenOut fb) 0"
      using Suc.prems(1) by (simp add: taken_def)
    show "wdata (?ls ! j) = j" "windex (?ls ! j) = int j" "worder (?ls ! j) = int j + 1"
      "nToFull (?ls ! j) = int (packetsPerBlock fb)" using old kl by (cases "j = k"; simp)+
    show "take (dataLenOut fb) (bufData p' ! j) = replicate (dataLenOut fb) 0"
      using old z fr(6) [of j] by (cases "j = k") simp_all
  qed
  moreover have "d = m - Suc k" using Suc.hyps(2) by simp
  ultimately obtain ls' p'' where r: "init_locals fb [Suc k..<m] ?ls p' = Inr (ls', p'')" "taken n m fb ls' p''"
    using Suc.hyps(1) [of "Suc k" ?ls p'] Suc.prems(2-) k by auto
  have "init_locals fb [k..<m] ls p = init_locals fb [Suc k..<m] ?ls p'"
    using k(1) f w by (simp add: upt_conv_Cons)
  with r show ?case by simp
qed

text \<open>
  The worker starts in its invariant: with a configuration that passes the test and a file
  pool of at least six empty buffers, large enough, it gets six different buffers, all zero over
  the length of a block, with the orders 1 to 6, and every packet missing.
\<close>

lemma worker_init_lemma:
  assumes "worker_config_ok fb" "roomy FILE_BUFFER_SIZE (udpBuff fb)" "6 \<le> noBuffers (udpBuff fb)"
    "\<forall>j<noBuffers (udpBuff fb). orderNo (udpBuff fb) ! j = 0" "length junk = 6" "input_ok ip"
    "\<forall>f\<in>set es. spares FILE_BUFFER_SIZE f"
  shows "\<exists>st. worker_init junk x y ip fb es = Inr st \<and> fresh st \<and>
    (\<forall>k<6. nToFull (locals st ! k) = int (packetsPerBlock fb) \<and>
      take (dataLenOut fb) (bufData (fpool st) ! wdata (locals st ! k)) = replicate (dataLenOut fb) 0)"
proof -
  have dims: "sorter_dims fb" using assms(1) by (simp add: worker_config_ok_dims)
  have six: "N_FILE_BUFFERS_AT_A_TIME = 6" by (simp add: cconst)
  have "taken (noBuffers (udpBuff fb)) 0 fb junk (udpBuff fb)" using assms(2,4,5) by (simp add: taken_def six)
  from init_locals_takes [OF this dims, of 6] assms(3) obtain ls p where
    il: "init_locals fb [0..<6] junk (udpBuff fb) = Inr (ls, p)" and t: "taken (noBuffers (udpBuff fb)) 6 fb ls p"
    by (auto simp: six)
  have len: "length ls = 6" using t by (simp add: taken_def six)
  have nth: "wdata (ls ! j) = j" "windex (ls ! j) = int j" "worder (ls ! j) = int j + 1" if "j < 6" for j
    using t that by (simp_all add: taken_def)
  have maps: "map wdata ls = [0..<6]" "map worder ls = map (\<lambda>j. int j + 1) [0..<6]"
    by (rule nth_equalityI; use len nth in simp)+
  have d: "distinct (map wdata ls)" "distinct (map worder ls)" "map worder ls = [1, 2, 3, 4, 5, 6]"
    unfolding maps by (simp_all add: upt_six)
  let ?st = "\<lparr>inpool = ip, fbuf = fb\<lparr>udpBuff := p\<rparr>, locals = ls, ants = replicate MAX_NO_ANTS (-1),
    next_order = 7, nextStructPacketNo = x, lastSentPacketNo = y, noMissing = 0, first_loop_done = False, moves = es\<rparr>"
  have "sorter_dims (fbuf ?st)" using dims by (simp add: sorter_dims_def)
  moreover have "roomy FILE_BUFFER_SIZE p" "noBuffers p = noBuffers (udpBuff fb)" using t by (simp_all add: taken_def)
  moreover have "windex l = int (wdata l) \<and> wdata l < noBuffers p \<and> orderNo p ! wdata l = -1 \<and> 0 < worder l \<and> worder l < 7"
    if "l \<in> set ls" for l
  proof -
    obtain j where "j < 6" "l = ls ! j" using \<open>l \<in> set ls\<close> len by (auto simp: in_set_conv_nth)
    then show ?thesis using nth [of j] t assms(3) by (simp add: taken_def)
  qed
  ultimately have "worker_ok ?st" using assms(6,7) d(1,2) len by (simp add: worker_ok_def sorter_inv_def fpool_def six)
  moreover have "worker_init junk x y ip fb es = Inr ?st" using il by (simp add: worker_init_def six)
  moreover have "\<forall>k<6. nToFull (ls ! k) = int (packetsPerBlock fb) \<and>
      take (dataLenOut fb) (bufData p ! wdata (ls ! k)) = replicate (dataLenOut fb) 0"
    using t nth by (simp add: taken_def)
  ultimately show ?thesis using d(3) by (auto simp: fresh_def fpool_def)
qed

end
