(* ===== verification/File_Thread.thy ===== *)
theory File_Thread
  imports Common "HOL-Library.Sublist"
begin

text \<open>
  The model of full_custom/file_thread.c: the writer takes the published blocks in the order of
  their numbers, waits when the next number is missing, starts a new file when it has waited too
  often, and writes the file header that the converter reads. The results of \<^verbatim>\<open>open\<close> and
  \<^verbatim>\<open>write\<close> are inputs of the model: a write of result \<open>r\<close> has appended \<open>r\<close> bytes, and -1 is a
  failure.
\<close>

section \<open>State\<close>

record file_writer =
  sink :: fileBuffStruct
  part :: string
  consec_file :: nat
  nMisses :: nat
  lastOrd :: int
  cur :: string
  disk :: "string \<rightharpoonup> u8 list"
  io :: "int list"

definition wpool :: "file_writer \<Rightarrow> udpBuffStruct" where
  "wpool st = udpBuff (sink st)"

definition set_wpool :: "udpBuffStruct \<Rightarrow> file_writer \<Rightarrow> file_writer" where
  "set_wpool p st = st\<lparr>sink := (sink st)\<lparr>udpBuff := p\<rparr>\<rparr>"

section \<open>Files\<close>

text \<open>The file name, cut to its buffer by \<^verbatim>\<open>snprintf\<close>.\<close>

definition file_name :: "string \<Rightarrow> nat \<Rightarrow> string" where
  "file_name p n = take (MAX_FILE + 19) (p @ ''_'' @ dec n @ ''.'' @ FILE_EXTENSION)"

text \<open>
  The result of \<^verbatim>\<open>write\<close> is signed, the length it is compared with unsigned: the comparison is
  unsigned.
\<close>

definition short_write :: "int \<Rightarrow> nat \<Rightarrow> bool" where
  "short_write r n \<longleftrightarrow> unat (word_of_int r :: u64) < n"

definition sys_open :: "file_writer \<Rightarrow> file_writer cres" where
  "sys_open st =
     (let name = file_name (part st) (consec_file st) in
      case io st of [] \<Rightarrow> Inl Blocked
      | r # rs \<Rightarrow> if r < 0 then Inl (Fatal ''open'')
          else Inr (st\<lparr>io := rs, cur := name, disk := (disk st)(name \<mapsto> [])\<rparr>))"

definition sys_write :: "u8 list \<Rightarrow> file_writer \<Rightarrow> file_writer cres" where
  "sys_write bytes st =
     (case io st of [] \<Rightarrow> Inl Blocked
      | r # rs \<Rightarrow> if short_write r (length bytes) then Inl (Fatal ''write'')
          else Inr (st\<lparr>io := rs, disk := (disk st)(cur st \<mapsto> the (disk st (cur st)) @ take (nat r) bytes)\<rparr>))"

text \<open>The five fields, each in the machine's (little-endian) byte order.\<close>

definition ants_bytes :: "u32 list \<Rightarrow> u8 list" where
  "ants_bytes xs = concat (map (le_bytes 4) xs)"

definition writeHeader :: "file_writer \<Rightarrow> file_writer cres" where
  "writeHeader st =
     (let fb = sink st in
      cbind (sys_write (le_bytes 4 (nAnts fb)) st) (\<lambda>st1.
      cbind (if unat (nAnts fb) \<le> length (antNumbers fb)
             then sys_write (ants_bytes (take (unat (nAnts fb)) (antNumbers fb))) st1 else Inl Overrun) (\<lambda>st2.
      cbind (sys_write (le_bytes 4 (nchans fb)) st2) (\<lambda>st3.
      cbind (sys_write (le_bytes 4 (firstChan fb)) st3) (\<lambda>st4.
        sys_write (le_bytes 8 (packetStart fb)) st4)))))"

section \<open>The thread\<close>

definition start_file :: "file_writer \<Rightarrow> file_writer cres" where
  "start_file st = cbind (sys_open st) writeHeader"

text \<open>The new file after too many misses: its number, its packet start, and the order before it.\<close>

definition skip_to :: "int \<Rightarrow> file_writer \<Rightarrow> file_writer" where
  "skip_to order st = st\<lparr>nMisses := 0, consec_file := Suc (consec_file st),
     sink := (sink st)\<lparr>packetStart := word_of_int order * of_nat TIME_INT_PER_BUFFER + packetStart (sink st) - 1\<rparr>,
     lastOrd := order - 1\<rparr>"

text \<open>The end of a pass: the block goes to the file and its buffer back to the pool.\<close>

definition write_block :: "held_move \<Rightarrow> int \<Rightarrow> int \<Rightarrow> nat \<Rightarrow> file_writer \<Rightarrow> file_writer cres" where
  "write_block during indexIn order len st =
     cbind (if lastOrd st = 0 then start_file st else Inr st) (\<lambda>st1.
     cbind (let input = bufData (wpool st1) ! nat indexIn in
            if len \<le> length input then sys_write (take len input) (st1\<lparr>lastOrd := order\<rparr>) else Inl Overrun) (\<lambda>st2.
     cbind (returnEmptyBuffer (during [indexIn] (wpool st2)) indexIn) (\<lambda>p.
       Inr (set_wpool p st2))))"

definition handle_block :: "held_move \<Rightarrow> int \<Rightarrow> int \<Rightarrow> nat \<Rightarrow> file_writer \<Rightarrow> file_writer cres" where
  "handle_block during indexIn order len st =
     (if lastOrd st + 1 \<noteq> order then
        (if order \<le> lastOrd st then
           cbind (returnEmptyBuffer (during [indexIn] (wpool st)) indexIn) (\<lambda>p. Inr (set_wpool p st))
         else if lastOrd st \<noteq> 0 \<and> Suc (nMisses st) > MAX_ORDER_MISSES then
           cbind (start_file (skip_to order st)) (write_block during indexIn order len)
         else
           cbind (returnBuffer (during [indexIn] (wpool st)) indexIn order len) (\<lambda>p.
             Inr (set_wpool p (st\<lparr>nMisses := Suc (nMisses st)\<rparr>))))
      else write_block during indexIn order len (st\<lparr>nMisses := 0\<rparr>))"

definition file_writer_pass ::
  "(pool_move \<times> bool) list \<Rightarrow> pool_move \<Rightarrow> held_move \<Rightarrow> file_writer \<Rightarrow> file_writer cres" where
  "file_writer_pass es between during st =
     cbind (fetchBuffer es between (wpool st)) (\<lambda>(r, p, es').
       case r of None \<Rightarrow> Inr (set_wpool p st)
       | Some (indexIn, order, len) \<Rightarrow> handle_block during indexIn order len (set_wpool p st))"

text \<open>The loop: it goes on while the recorder runs or buffers are ready.\<close>

fun file_writer_main ::
  "(bool \<times> (pool_move \<times> bool) list \<times> pool_move \<times> held_move) list \<Rightarrow> file_writer \<Rightarrow> file_writer cres" where
  "file_writer_main [] st = Inl Blocked"
| "file_writer_main ((keep_going, es, between, during) # sched) st =
     (if keep_going \<or> anyBufFull (wpool st) \<noteq> 0
      then cbind (file_writer_pass es between during st) (file_writer_main sched)
      else Inr st)"

definition writer_start :: "fileBuffStruct \<Rightarrow> string \<Rightarrow> (string \<rightharpoonup> u8 list) \<Rightarrow> int list \<Rightarrow> file_writer" where
  "writer_start fb p d results = \<lparr>sink = fb, part = p, consec_file = 0, nMisses = 0, lastOrd = 0, cur = [],
     disk = d, io = results\<rparr>"

definition file_writer_work ::
  "(bool \<times> (pool_move \<times> bool) list \<times> pool_move \<times> held_move) list \<Rightarrow> fileBuffStruct \<Rightarrow> string \<Rightarrow>
   (string \<rightharpoonup> u8 list) \<Rightarrow> int list \<Rightarrow> file_writer cres" where
  "file_writer_work sched fb p d results = file_writer_main sched (writer_start fb p d results)"

section \<open>Decimal numbers and file names\<close>

lemma dec_nonempty: "dec n \<noteq> []"
  by (subst dec.simps) simp

lemma dec_length: "n < 10 ^ k \<Longrightarrow> 0 < k \<Longrightarrow> length (dec n) \<le> k"
proof (induction k arbitrary: n)
  case 0
  then show ?case by simp
next
  case (Suc k)
  show ?case
  proof (cases "n < 10")
    case True
    then show ?thesis by (simp add: dec.simps [of n])
  next
    case False
    then have "0 < k" using Suc.prems(1) by (cases k) auto
    moreover have "n div 10 < 10 ^ k" using Suc.prems(1) by (simp add: less_mult_imp_div_less mult.commute)
    ultimately show ?thesis using Suc.IH [of "n div 10"] False by (simp add: dec.simps [of n])
  qed
qed

lemma dec_char_inject: "a < 10 \<Longrightarrow> b < 10 \<Longrightarrow> char_of (48 + a) = (char_of (48 + b) :: char) \<Longrightarrow> a = (b::nat)"
proof -
  assume "a < 10" "b < 10" "char_of (48 + a) = (char_of (48 + b) :: char)"
  then have "(of_char (char_of (48 + a) :: char) :: nat) = of_char (char_of (48 + b) :: char)" by simp
  then show "a = b" using \<open>a < 10\<close> \<open>b < 10\<close> by simp
qed

lemma dec_inject: "dec m = dec n \<Longrightarrow> m = n"
proof (induction m arbitrary: n rule: dec.induct)
  case (1 m)
  show ?case
  proof (cases "m < 10"; cases "n < 10")
    assume "m < 10" "n < 10"
    then show ?thesis using "1.prems" dec_char_inject by (simp add: dec.simps [of m] dec.simps [of n])
  next
    assume "m < 10" "\<not> n < 10"
    then show ?thesis using "1.prems" dec_nonempty [of "n div 10"] by (simp add: dec.simps [of m] dec.simps [of n])
  next
    assume "\<not> m < 10" "n < 10"
    then show ?thesis using "1.prems" dec_nonempty [of "m div 10"] by (simp add: dec.simps [of m] dec.simps [of n])
  next
    assume a: "\<not> m < 10" "\<not> n < 10"
    then have "dec (m div 10) = dec (n div 10)" "char_of (48 + m mod 10) = (char_of (48 + n mod 10) :: char)"
      using "1.prems" by (simp_all add: dec.simps [of m] dec.simps [of n])
    then have "m div 10 = n div 10" "m mod 10 = n mod 10" using "1.IH" [OF a(1)] dec_char_inject by simp_all
    then show ?thesis by (metis div_mult_mod_eq)
  qed
qed

lemma file_name_full:
  assumes "length p < MAX_FILE" "n < 10 ^ 10"
  shows "file_name p n = p @ ''_'' @ dec n @ ''.'' @ FILE_EXTENSION"
  using assms dec_length [of n 10] by (simp add: file_name_def cconst)

lemma file_name_inject:
  assumes "length p < MAX_FILE" "m < 10 ^ 10" "n < 10 ^ 10" "file_name p m = file_name p n"
  shows "m = n"
  using assms(4) dec_inject [of m n] unfolding file_name_full [OF assms(1,2)] file_name_full [OF assms(1,3)] by simp

section \<open>Writing without loss\<close>

definition results_ok :: "int list \<Rightarrow> bool" where
  "results_ok rs \<longleftrightarrow> (\<forall>r\<in>set rs. 0 \<le> r \<and> r < 2 ^ 63)"

definition header_bytes :: "fileBuffStruct \<Rightarrow> u8 list" where
  "header_bytes fb = le_bytes 4 (nAnts fb) @ ants_bytes (take (unat (nAnts fb)) (antNumbers fb)) @
     le_bytes 4 (nchans fb) @ le_bytes 4 (firstChan fb) @ le_bytes 8 (packetStart fb)"

text \<open>Bytes appended to the current file, some results of system calls consumed.\<close>

definition appended :: "u8 list \<Rightarrow> file_writer \<Rightarrow> file_writer \<Rightarrow> bool" where
  "appended bytes st st' \<longleftrightarrow> (\<exists>rs. set rs \<subseteq> set (io st) \<and>
     st' = st\<lparr>io := rs, disk := (disk st)(cur st \<mapsto> the (disk st (cur st)) @ bytes)\<rparr>)"

lemma sys_write_appended:
  assumes "sys_write bytes st = Inr st'" "results_ok (io st)"
  shows "appended bytes st st'"
proof -
  obtain r rs where io: "io st = r # rs" and ns: "\<not> short_write r (length bytes)"
    and st': "st' = st\<lparr>io := rs, disk := (disk st)(cur st \<mapsto> the (disk st (cur st)) @ take (nat r) bytes)\<rparr>"
    using assms(1) by (auto simp: sys_write_def split: list.splits if_splits)
  have r: "0 \<le> r" "r < 2 ^ 63" using assms(2) io by (auto simp: results_ok_def)
  have "unat (word_of_int r :: u64) = nat r" using r unat_word_of_int [of "nat r", where ?'a=64] by simp
  then have "length bytes \<le> nat r"
    using ns by (simp add: short_write_def)
  then show ?thesis unfolding appended_def using st' io by (intro exI [of _ rs]) auto
qed

lemma appended_trans:
  assumes "appended a st st1" "appended b st1 st2"
  shows "appended (a @ b) st st2"
proof -
  obtain rs where 1: "set rs \<subseteq> set (io st)"
    "st1 = st\<lparr>io := rs, disk := (disk st)(cur st \<mapsto> the (disk st (cur st)) @ a)\<rparr>"
    using assms(1) by (auto simp: appended_def)
  obtain rs' where 2: "set rs' \<subseteq> set (io st1)"
    "st2 = st1\<lparr>io := rs', disk := (disk st1)(cur st1 \<mapsto> the (disk st1 (cur st1)) @ b)\<rparr>"
    using assms(2) by (auto simp: appended_def)
  show ?thesis unfolding appended_def using 1 2 by (intro exI [of _ rs']) auto
qed

lemma appended_frame:
  assumes "appended a st st'"
  shows "sink st' = sink st" "results_ok (io st) \<Longrightarrow> results_ok (io st')" "cur st' = cur st" "part st' = part st"
    "consec_file st' = consec_file st" "lastOrd st' = lastOrd st" "nMisses st' = nMisses st"
    "disk st' = (disk st)(cur st \<mapsto> the (disk st (cur st)) @ a)" "wpool st' = wpool st"
  using assms by (auto simp: appended_def results_ok_def wpool_def)

lemma ants_bytes_length: "length (ants_bytes xs) = 4 * length xs"
  by (induction xs) (simp_all add: ants_bytes_def)

lemma writeHeaderE:
  assumes "writeHeader st = Inr st'"
  obtains st1 st2 st3 st4 where "sys_write (le_bytes 4 (nAnts (sink st))) st = Inr st1"
    "sys_write (ants_bytes (take (unat (nAnts (sink st))) (antNumbers (sink st)))) st1 = Inr st2"
    "sys_write (le_bytes 4 (nchans (sink st))) st2 = Inr st3" "sys_write (le_bytes 4 (firstChan (sink st))) st3 = Inr st4"
    "sys_write (le_bytes 8 (packetStart (sink st))) st4 = Inr st'"
  using assms by (auto simp: writeHeader_def Let_def cbind_eq_Inr_iff split: if_splits)

lemma writeHeader_appended:
  assumes "writeHeader st = Inr st'" "results_ok (io st)"
  shows "appended (header_bytes (sink st)) st st'"
proof -
  let ?fb = "sink st"
  obtain st1 st2 st3 st4 where w: "sys_write (le_bytes 4 (nAnts ?fb)) st = Inr st1"
    "sys_write (ants_bytes (take (unat (nAnts ?fb)) (antNumbers ?fb))) st1 = Inr st2"
    "sys_write (le_bytes 4 (nchans ?fb)) st2 = Inr st3" "sys_write (le_bytes 4 (firstChan ?fb)) st3 = Inr st4"
    "sys_write (le_bytes 8 (packetStart ?fb)) st4 = Inr st'"
    using writeHeaderE [OF assms(1)] by blast
  have a1: "appended (le_bytes 4 (nAnts ?fb)) st st1" by (rule sys_write_appended [OF w(1) assms(2)])
  note r1 = appended_frame(2) [OF a1 assms(2)]
  have a2: "appended (ants_bytes (take (unat (nAnts ?fb)) (antNumbers ?fb))) st1 st2"
    by (rule sys_write_appended [OF w(2) r1])
  note r2 = appended_frame(2) [OF a2 r1]
  have a3: "appended (le_bytes 4 (nchans ?fb)) st2 st3" by (rule sys_write_appended [OF w(3) r2])
  note r3 = appended_frame(2) [OF a3 r2]
  have a4: "appended (le_bytes 4 (firstChan ?fb)) st3 st4" by (rule sys_write_appended [OF w(4) r3])
  note r4 = appended_frame(2) [OF a4 r3]
  have a5: "appended (le_bytes 8 (packetStart ?fb)) st4 st'" by (rule sys_write_appended [OF w(5) r4])
  from appended_trans [OF a1 appended_trans [OF a2 appended_trans [OF a3 appended_trans [OF a4 a5]]]]
  show ?thesis by (simp add: header_bytes_def)
qed

text \<open>Writes that are complete, one after the other.\<close>

lemma sys_write_complete:
  assumes "io st = int (length bytes) # rs" "length bytes < 2 ^ 63"
  shows "sys_write bytes st = Inr (st\<lparr>io := rs, disk := (disk st)(cur st \<mapsto> the (disk st (cur st)) @ bytes)\<rparr>)"
proof -
  have "unat (word_of_int (int (length bytes)) :: u64) = length bytes"
    using assms(2) unat_word_of_int [of "length bytes", where ?'a=64] by simp
  then show ?thesis using assms(1) by (simp add: sys_write_def short_write_def)
qed

text \<open>The results of \<^verbatim>\<open>open\<close> and of the five complete writes of a header.\<close>

definition header_results :: "int \<Rightarrow> fileBuffStruct \<Rightarrow> int list" where
  "header_results fd fb = [fd, 4, 4 * int (unat (nAnts fb)), 4, 4, 8]"

lemma start_file_complete:
  assumes "io st = header_results fd (sink st) @ rs" "0 \<le> fd" "unat (nAnts (sink st)) \<le> length (antNumbers (sink st))"
  shows "start_file st = Inr (st\<lparr>io := rs, cur := file_name (part st) (consec_file st),
    disk := (disk st)(file_name (part st) (consec_file st) \<mapsto> header_bytes (sink st))\<rparr>)"
proof -
  let ?name = "file_name (part st) (consec_file st)" and ?ants = "ants_bytes (take (unat (nAnts (sink st))) (antNumbers (sink st)))"
  have len: "length ?ants = 4 * unat (nAnts (sink st))" using assms(3) by (simp add: ants_bytes_length)
  moreover have "4 * unat (nAnts (sink st)) < 2 ^ 63" using unat_less_exp [of "nAnts (sink st)"] by simp
  ultimately have a: "sys_write ?ants x = Inr (x\<lparr>io := rs', disk := (disk x)(cur x \<mapsto> the (disk x (cur x)) @ ?ants)\<rparr>)"
    if "io x = 4 * int (unat (nAnts (sink st))) # rs'" for x rs'
    using that by (intro sys_write_complete) simp_all
  have w: "sys_write bytes x = Inr (x\<lparr>io := rs', disk := (disk x)(cur x \<mapsto> the (disk x (cur x)) @ bytes)\<rparr>)"
    if "io x = r # rs'" "r = int (length bytes)" "length bytes \<le> 8" for x bytes r rs'
    using that by (intro sys_write_complete) simp_all
  show ?thesis
    using assms(1-3) by (simp add: header_results_def start_file_def sys_open_def writeHeader_def Let_def w a header_bytes_def)
qed

text \<open>A started file holds the header alone.\<close>

lemma start_file_header:
  assumes "start_file st = Inr st'" "results_ok (io st)"
  shows "\<exists>rs. set rs \<subseteq> set (io st) \<and> st' = st\<lparr>io := rs, cur := file_name (part st) (consec_file st),
    disk := (disk st)(file_name (part st) (consec_file st) \<mapsto> header_bytes (sink st))\<rparr>"
proof -
  obtain st1 where o1: "sys_open st = Inr st1" and w: "writeHeader st1 = Inr st'"
    using assms(1) by (auto simp: start_file_def cbind_eq_Inr_iff)
  obtain r rs where s1: "io st = r # rs" "st1 = st\<lparr>io := rs, cur := file_name (part st) (consec_file st),
      disk := (disk st)(file_name (part st) (consec_file st) \<mapsto> [])\<rparr>"
    using o1 by (auto simp: sys_open_def Let_def split: list.splits if_splits)
  have "results_ok (io st1)" using assms(2) s1 by (simp add: results_ok_def)
  from writeHeader_appended [OF w this] show ?thesis using s1 by (auto simp: appended_def)
qed

section \<open>What a pass does to the files\<close>

definition input_bytes :: "file_writer \<Rightarrow> int \<Rightarrow> nat \<Rightarrow> u8 list" where
  "input_bytes st indexIn len = take len (bufData (wpool st) ! nat indexIn)"

lemma write_block_appends:
  assumes "write_block during indexIn order len st = Inr st'" "results_ok (io st)" "lastOrd st \<noteq> 0"
  shows "\<exists>rs p. set rs \<subseteq> set (io st) \<and> st' = set_wpool p (st\<lparr>lastOrd := order, io := rs,
    disk := (disk st)(cur st \<mapsto> the (disk st (cur st)) @ input_bytes st indexIn len)\<rparr>)"
proof -
  let ?st = "st\<lparr>lastOrd := order\<rparr>"
  obtain st2 p where w: "sys_write (input_bytes st indexIn len) ?st = Inr st2" and st': "st' = set_wpool p st2"
    using assms(1,3) by (auto simp: write_block_def Let_def cbind_eq_Inr_iff input_bytes_def split: if_splits)
  have "appended (input_bytes st indexIn len) ?st st2"
    by (rule sys_write_appended [OF w]) (use assms(2) in simp)
  then obtain rs where "set rs \<subseteq> set (io st)" "st2 = st\<lparr>lastOrd := order, io := rs,
      disk := (disk st)(cur st \<mapsto> the (disk st (cur st)) @ input_bytes st indexIn len)\<rparr>"
    by (auto simp: appended_def)
  then show ?thesis using st' by blast
qed

lemma write_block_first:
  assumes "write_block during indexIn order len st = Inr st'" "results_ok (io st)" "lastOrd st = 0"
  shows "\<exists>rs p. set rs \<subseteq> set (io st) \<and> st' = set_wpool p (st\<lparr>cur := file_name (part st) (consec_file st),
    lastOrd := order, io := rs, disk := (disk st)(file_name (part st) (consec_file st) \<mapsto>
      header_bytes (sink st) @ input_bytes st indexIn len)\<rparr>)"
proof -
  obtain st1 where s1: "start_file st = Inr st1" using assms(1,3) by (auto simp: write_block_def cbind_eq_Inr_iff)
  from start_file_header [OF s1 assms(2)] obtain rs1 where r1: "set rs1 \<subseteq> set (io st)"
    "st1 = st\<lparr>io := rs1, cur := file_name (part st) (consec_file st),
      disk := (disk st)(file_name (part st) (consec_file st) \<mapsto> header_bytes (sink st))\<rparr>" by blast
  have in1: "input_bytes st1 indexIn len = input_bytes st indexIn len" by (simp add: r1 input_bytes_def wpool_def)
  let ?st = "st1\<lparr>lastOrd := order\<rparr>"
  obtain st2 p where w: "sys_write (input_bytes st indexIn len) ?st = Inr st2" and st': "st' = set_wpool p st2"
    using assms(1,3) s1 in1 by (auto simp: write_block_def Let_def cbind_eq_Inr_iff input_bytes_def split: if_splits)
  have "results_ok (io ?st)" using assms(2) r1 by (auto simp: results_ok_def)
  from sys_write_appended [OF w this] obtain rs2 where r2: "set rs2 \<subseteq> set rs1"
    "st2 = ?st\<lparr>io := rs2, disk := (disk ?st)(cur ?st \<mapsto> the (disk ?st (cur ?st)) @ input_bytes st indexIn len)\<rparr>"
    by (auto simp: appended_def r1)
  show ?thesis using r1(1) r2 st' by (intro exI [of _ rs2] exI [of _ p]) (auto simp: r1(2))
qed

lemma handle_block_skip:
  assumes "handle_block during indexIn order len st = Inr st'" "results_ok (io st)"
    "order > lastOrd st + 1" "0 < lastOrd st" "MAX_ORDER_MISSES \<le> nMisses st"
  shows "\<exists>rs p. set rs \<subseteq> set (io st) \<and>
    st' = set_wpool p ((skip_to order st)\<lparr>cur := file_name (part st) (Suc (consec_file st)),
         lastOrd := order, io := rs, disk := (disk st)(file_name (part st) (Suc (consec_file st)) \<mapsto>
           header_bytes (sink (skip_to order st)) @ input_bytes st indexIn len)\<rparr>)"
proof -
  let ?st = "skip_to order st"
  obtain st1 where s1: "start_file ?st = Inr st1" and w: "write_block during indexIn order len st1 = Inr st'"
    using assms(1,3-5) by (auto simp: handle_block_def cbind_eq_Inr_iff)
  from start_file_header [OF s1] assms(2) obtain rs1 where r1: "set rs1 \<subseteq> set (io st)"
    "st1 = ?st\<lparr>io := rs1, cur := file_name (part st) (Suc (consec_file st)),
      disk := (disk st)(file_name (part st) (Suc (consec_file st)) \<mapsto> header_bytes (sink ?st))\<rparr>"
    by (auto simp: skip_to_def)
  have b: "input_bytes st1 indexIn len = input_bytes st indexIn len"
    by (simp add: r1(2) input_bytes_def wpool_def skip_to_def)
  have "results_ok (io st1)" using assms(2) r1 by (auto simp: results_ok_def)
  moreover have "lastOrd st1 \<noteq> 0" using assms(3,4) by (auto simp: r1(2) skip_to_def)
  ultimately obtain rs p where "set rs \<subseteq> set (io st1)" "st' = set_wpool p (st1\<lparr>lastOrd := order, io := rs,
      disk := (disk st1)(cur st1 \<mapsto> the (disk st1 (cur st1)) @ input_bytes st indexIn len)\<rparr>)"
    using write_block_appends [OF w] b by auto
  then show ?thesis using r1 by (intro exI [of _ rs] exI [of _ p]) auto
qed

lemma handle_block_cases:
  assumes "handle_block during indexIn order len st = Inr st'" "results_ok (io st)"
    "0 \<le> lastOrd st"
  obtains (old) p where "order \<le> lastOrd st" "st' = set_wpool p st"
  | (gap) p where "order > lastOrd st + 1" "lastOrd st = 0 \<or> nMisses st < MAX_ORDER_MISSES"
      "st' = set_wpool p (st\<lparr>nMisses := Suc (nMisses st)\<rparr>)"
  | (succ) rs p where "order = lastOrd st + 1" "lastOrd st \<noteq> 0" "set rs \<subseteq> set (io st)"
      "st' = set_wpool p (st\<lparr>nMisses := 0, lastOrd := order, io := rs,
         disk := (disk st)(cur st \<mapsto> the (disk st (cur st)) @ input_bytes st indexIn len)\<rparr>)"
  | (first) rs p where "lastOrd st = 0" "order = 1" "set rs \<subseteq> set (io st)"
      "st' = set_wpool p (st\<lparr>nMisses := 0, cur := file_name (part st) (consec_file st),
         lastOrd := order, io := rs, disk := (disk st)(file_name (part st) (consec_file st) \<mapsto>
           header_bytes (sink st) @ input_bytes st indexIn len)\<rparr>)"
  | (skip) rs p where "order > lastOrd st + 1" "lastOrd st \<noteq> 0" "nMisses st \<ge> MAX_ORDER_MISSES" "set rs \<subseteq> set (io st)"
      "st' = set_wpool p ((skip_to order st)\<lparr>cur := file_name (part st) (Suc (consec_file st)),
         lastOrd := order, io := rs, disk := (disk st)(file_name (part st) (Suc (consec_file st)) \<mapsto>
           header_bytes (sink (skip_to order st)) @ input_bytes st indexIn len)\<rparr>)"
proof (cases "order = lastOrd st + 1")
  case True
  let ?st = "st\<lparr>nMisses := 0\<rparr>"
  have w: "write_block during indexIn order len ?st = Inr st'" using assms(1) True by (simp add: handle_block_def)
  have b: "input_bytes ?st indexIn len = input_bytes st indexIn len" by (simp add: input_bytes_def wpool_def)
  show thesis
  proof (cases "lastOrd st = 0")
    case True
    from write_block_first [OF w] assms(2) True b first show thesis using \<open>order = lastOrd st + 1\<close> by auto
  next
    case False
    from write_block_appends [OF w] assms(2) False b succ show thesis using \<open>order = lastOrd st + 1\<close> by auto
  qed
next
  case ne: False
  show thesis
  proof (cases "order > lastOrd st \<and> lastOrd st \<noteq> 0 \<and> Suc (nMisses st) > MAX_ORDER_MISSES")
    case True
    then have gap: "lastOrd st + 1 < order" "0 < lastOrd st" "MAX_ORDER_MISSES \<le> nMisses st" "lastOrd st \<noteq> 0"
      using ne assms(3) by auto
    from handle_block_skip [OF assms(1,2) gap(1-3)] skip [OF gap(1,4,3)] show thesis by blast
  next
    case False
    then consider "order \<le> lastOrd st" | "order > lastOrd st + 1" "lastOrd st = 0 \<or> nMisses st < MAX_ORDER_MISSES"
      using ne assms(3) by linarith
    then show thesis
    proof cases
      case 1
      then show thesis using assms(1) ne old by (auto simp: handle_block_def cbind_eq_Inr_iff)
    next
      case 2
      then show thesis using assms(1) ne gap by (auto simp: handle_block_def cbind_eq_Inr_iff split: if_splits)
    qed
  qed
qed

section \<open>The files as a log of blocks\<close>

text \<open>
  A log entry is the number of the file, the order of the block and its bytes. The files on disk
  are, at any time, the headers followed by the blocks of the log.
\<close>

type_synonym entry = "nat \<times> int \<times> u8 list"

definition blocks_in :: "nat \<Rightarrow> entry list \<Rightarrow> u8 list" where
  "blocks_in n log = concat (map (\<lambda>(f, ord, b). b) (filter (\<lambda>(f, ord, b). f = n) log))"

text \<open>Orders increase; within a file they are consecutive.\<close>

fun consecutive :: "entry list \<Rightarrow> bool" where
  "consecutive ((f, ord, b) # (f', ord', b') # log) \<longleftrightarrow>
     (f' = f \<and> ord' = ord + 1 \<or> f' = Suc f \<and> ord + 1 < ord') \<and> consecutive ((f', ord', b') # log)"
| "consecutive log \<longleftrightarrow> True"

lemma consecutive_snoc:
  "consecutive (log @ [(f, ord, b)]) \<longleftrightarrow> consecutive log \<and>
     (log = [] \<or> (\<exists>f0 ord0 b0. last log = (f0, ord0, b0) \<and> (f = f0 \<and> ord = ord0 + 1 \<or> f = Suc f0 \<and> ord0 + 1 < ord)))"
  by (induction log rule: consecutive.induct) auto

lemma blocks_in_snoc: "blocks_in n (log @ [(f, ord, b)]) = blocks_in n log @ (if f = n then b else [])"
  by (simp add: blocks_in_def)

definition disk_inv :: "(nat \<Rightarrow> u64) \<Rightarrow> entry list \<Rightarrow> file_writer \<Rightarrow> bool" where
  "disk_inv ps log st \<longleftrightarrow> (\<forall>n\<le>consec_file st. disk st (file_name (part st) n) =
     Some (header_bytes ((sink st)\<lparr>packetStart := ps n\<rparr>) @ blocks_in n log))"

definition log_inv :: "(nat \<Rightarrow> u64) \<Rightarrow> entry list \<Rightarrow> file_writer \<Rightarrow> bool" where
  "log_inv ps log st \<longleftrightarrow> results_ok (io st) \<and> length (part st) < MAX_FILE \<and> consecutive log \<and>
     (\<forall>(f, ord, b)\<in>set log. f \<le> consec_file st) \<and> 0 \<le> lastOrd st \<and>
     (log = [] \<longrightarrow> lastOrd st = 0 \<and> consec_file st = 0) \<and>
     (log \<noteq> [] \<longrightarrow> (\<exists>b. hd log = (0, 1, b)) \<and> (\<exists>b. last log = (consec_file st, lastOrd st, b)) \<and> 0 < lastOrd st \<and>
        cur st = file_name (part st) (consec_file st) \<and> disk_inv ps log st)"

lemma log_inv_pool: "log_inv ps log (set_wpool p (st\<lparr>nMisses := n\<rparr>)) \<longleftrightarrow> log_inv ps log st"
  by (auto simp: log_inv_def disk_inv_def set_wpool_def header_bytes_def)

lemma header_bytes_start: "header_bytes (fb\<lparr>packetStart := x\<rparr>\<lparr>packetStart := y\<rparr>) = header_bytes (fb\<lparr>packetStart := y\<rparr>)"
  "header_bytes (fb\<lparr>udpBuff := p\<rparr>) = header_bytes fb"
  by (simp_all add: header_bytes_def)

lemma log_inv_next:
  assumes "log_inv ps log st" "lastOrd st \<noteq> 0" "set rs \<subseteq> set (io st)" "consec_file st < 10 ^ 10"
  shows "log_inv ps (log @ [(consec_file st, lastOrd st + 1, bytes)])
    (st\<lparr>lastOrd := lastOrd st + 1, io := rs, disk := (disk st)(cur st \<mapsto> the (disk st (cur st)) @ bytes)\<rparr>)"
proof -
  have ne: "log \<noteq> []" using assms(1,2) by (auto simp: log_inv_def)
  then have d: "disk st (file_name (part st) n) = Some (header_bytes ((sink st)\<lparr>packetStart := ps n\<rparr>) @ blocks_in n log)"
    if "n \<le> consec_file st" for n using assms(1) that by (simp add: log_inv_def disk_inv_def)
  have other: "file_name (part st) n \<noteq> cur st" if "n \<le> consec_file st" "n \<noteq> consec_file st" for n
    using file_name_inject [of "part st" n "consec_file st"] that assms(1,4) ne by (auto simp: log_inv_def)
  have c: "cur st = file_name (part st) (consec_file st)" using assms(1) ne by (simp add: log_inv_def)
  let ?st = "st\<lparr>lastOrd := lastOrd st + 1, io := rs, disk := (disk st)(cur st \<mapsto> the (disk st (cur st)) @ bytes)\<rparr>"
  let ?log = "log @ [(consec_file st, lastOrd st + 1, bytes)]"
  have "disk ?st (file_name (part st) n) = Some (header_bytes ((sink ?st)\<lparr>packetStart := ps n\<rparr>) @ blocks_in n ?log)"
    if "n \<le> consec_file st" for n
    using d [OF that] other [OF that] d [of "consec_file st"] by (cases "n = consec_file st") (auto simp: blocks_in_snoc c)
  then have "disk_inv ps ?log ?st" unfolding disk_inv_def by (simp del: fun_upd_apply)
  then show ?thesis using assms(1,3) ne by (auto simp: log_inv_def consecutive_snoc results_ok_def)
qed

lemma log_inv_first:
  assumes "log_inv ps log st" "lastOrd st = 0" "set rs \<subseteq> set (io st)"
  shows "log_inv (ps(0 := packetStart (sink st))) [(0, 1, bytes)]
    (st\<lparr>cur := file_name (part st) (consec_file st), lastOrd := 1, io := rs,
       disk := (disk st)(file_name (part st) (consec_file st) \<mapsto> header_bytes (sink st) @ bytes)\<rparr>)"
proof -
  have "log = []" using assms(1,2) by (auto simp: log_inv_def)
  then have "consec_file st = 0" using assms(1) by (simp add: log_inv_def)
  then show ?thesis using assms(1,3) by (auto simp: log_inv_def disk_inv_def results_ok_def blocks_in_def)
qed

lemma log_inv_skip:
  assumes "log_inv ps log st" "lastOrd st \<noteq> 0" "lastOrd st + 1 < order" "set rs \<subseteq> set (io st)" "Suc (consec_file st) < 10 ^ 10"
  shows "log_inv (ps(Suc (consec_file st) := packetStart (sink (skip_to order st))))
    (log @ [(Suc (consec_file st), order, bytes)])
    ((skip_to order st)\<lparr>cur := file_name (part st) (Suc (consec_file st)), lastOrd := order, io := rs,
       disk := (disk st)(file_name (part st) (Suc (consec_file st)) \<mapsto> header_bytes (sink (skip_to order st)) @ bytes)\<rparr>)"
proof -
  let ?n = "Suc (consec_file st)"
  have ne: "log \<noteq> []" using assms(1,2) by (auto simp: log_inv_def)
  then have d: "disk st (file_name (part st) n) = Some (header_bytes ((sink st)\<lparr>packetStart := ps n\<rparr>) @ blocks_in n log)"
    if "n \<le> consec_file st" for n using assms(1) that by (simp add: log_inv_def disk_inv_def)
  have other: "file_name (part st) n \<noteq> file_name (part st) ?n" if "n \<le> consec_file st" for n
    using file_name_inject [of "part st" n ?n] that assms(1,5) by (auto simp: log_inv_def)
  have none: "blocks_in ?n log = []"
  proof -
    have "filter (\<lambda>(f, ord, b). f = ?n) log = []" using assms(1) by (auto simp: log_inv_def filter_empty_conv)
    then show ?thesis by (simp add: blocks_in_def)
  qed
  let ?st = "(skip_to order st)\<lparr>cur := file_name (part st) ?n, lastOrd := order, io := rs,
       disk := (disk st)(file_name (part st) ?n \<mapsto> header_bytes (sink (skip_to order st)) @ bytes)\<rparr>"
  let ?ps = "ps(?n := packetStart (sink (skip_to order st)))" and ?log = "log @ [(?n, order, bytes)]"
  have "disk ?st (file_name (part st) n) = Some (header_bytes ((sink ?st)\<lparr>packetStart := ?ps n\<rparr>) @ blocks_in n ?log)"
    if "n \<le> ?n" for n
    using d [of n] other [of n] none that
    by (cases "n = ?n") (auto simp: blocks_in_snoc header_bytes_start skip_to_def)
  then have "disk_inv ?ps ?log ?st" unfolding disk_inv_def by (simp add: skip_to_def del: fun_upd_apply)
  moreover have "\<forall>(f, ord, b)\<in>set ?log. f \<le> ?n" using assms(1) by (fastforce simp: log_inv_def)
  ultimately show ?thesis using assms(1,3,4) ne
    by (auto simp: log_inv_def consecutive_snoc results_ok_def skip_to_def)
qed

lemma set_wpool_log: "log_inv ps log (set_wpool p st) \<longleftrightarrow> log_inv ps log st"
  using log_inv_pool [of ps log p "nMisses st" st] by simp

lemma file_writer_pass_mono:
  assumes "file_writer_pass es between during st = Inr st'" "results_ok (io st)" "0 \<le> lastOrd st"
  shows "consec_file st \<le> consec_file st' \<and> results_ok (io st') \<and> 0 \<le> lastOrd st'"
proof -
  have h: "consec_file s \<le> consec_file s' \<and> results_ok (io s') \<and> 0 \<le> lastOrd s'"
    if "handle_block during i ord len s = Inr s'" "results_ok (io s)" "0 \<le> lastOrd s" for i ord len s s'
    by (rule handle_block_cases [OF that]) (use that(2,3) in \<open>auto simp: set_wpool_def skip_to_def results_ok_def\<close>)
  from assms show ?thesis
    by (auto simp: file_writer_pass_def cbind_eq_Inr_iff set_wpool_def split: option.splits dest!: h)
qed

lemma file_writer_main_mono:
  "file_writer_main sched st = Inr st' \<Longrightarrow> results_ok (io st) \<Longrightarrow> 0 \<le> lastOrd st \<Longrightarrow> consec_file st \<le> consec_file st'"
proof (induction sched st rule: file_writer_main.induct)
  case (1 st)
  then show ?case by simp
next
  case (2 kg es between during sched st)
  then show ?case
    by (auto simp: cbind_eq_Inr_iff split: if_splits dest!: file_writer_pass_mono intro: order_trans)
qed

section \<open>What the writer should record\<close>

text \<open>
  The recording as a function of the fetched blocks alone. A tape has, per file, the packet start in
  its header, then the log, and the misses counted since the last written block. A block that is not newer than the last
  one is left out; the next in order goes to the current file; a block after a gap is counted as a miss,
  or opens the next file when there were enough of them and something was written before.
\<close>

record tape =
  starts :: "u64 list"
  entries :: "entry list"
  missed :: nat

definition last_order :: "tape \<Rightarrow> int" where
  "last_order t = (if entries t = [] then 0 else fst (snd (last (entries t))))"

definition tape_step :: "u64 \<Rightarrow> int \<times> u8 list \<Rightarrow> tape \<Rightarrow> tape" where
  "tape_step start = (\<lambda>(ord, b) t.
     if ord \<le> last_order t then t
     else if ord = last_order t + 1 then
       (if entries t = [] then \<lparr>starts = [start], entries = [(0, ord, b)], missed = 0\<rparr>
        else t\<lparr>entries := entries t @ [(length (starts t) - 1, ord, b)], missed := 0\<rparr>)
     else if entries t \<noteq> [] \<and> MAX_ORDER_MISSES \<le> missed t then
       \<lparr>starts = starts t @ [word_of_int ord * 128 + last (starts t) - 1],
         entries = entries t @ [(length (starts t), ord, b)], missed = 0\<rparr>
     else t\<lparr>missed := Suc (missed t)\<rparr>)"

definition tape_from :: "u64 \<Rightarrow> (int \<times> u8 list) list \<Rightarrow> tape \<Rightarrow> tape" where
  "tape_from start bs t = fold (tape_step start) bs t"

definition tape_of :: "u64 \<Rightarrow> (int \<times> u8 list) list \<Rightarrow> tape" where
  "tape_of start bs = tape_from start bs \<lparr>starts = [], entries = [], missed = 0\<rparr>"

text \<open>The blocks the passes of a thread get from the pool, with their bytes in the pool at that moment.\<close>

fun fetched ::
  "(bool \<times> (pool_move \<times> bool) list \<times> pool_move \<times> held_move) list \<Rightarrow> file_writer \<Rightarrow> (int \<times> u8 list) list" where
  "fetched [] st = []"
| "fetched ((keep_going, es, between, during) # sched) st =
     (if keep_going \<or> anyBufFull (wpool st) \<noteq> 0
      then (case fetchBuffer es between (wpool st) of
              Inr (Some (i, ord, len), p, es') \<Rightarrow> [(ord, take len (bufData p ! nat i))]
            | _ \<Rightarrow> []) @
           (case file_writer_pass es between during st of Inr st' \<Rightarrow> fetched sched st' | Inl e \<Rightarrow> [])
      else [])"

lemma tape_from_simps [simp]:
  "tape_from start [] t = t" "tape_from start (b # bs) t = tape_from start bs (tape_step start b t)"
  by (simp_all add: tape_from_def)

text \<open>Entries are only added, each a block that was given, and no block twice.\<close>

lemma tape_step_adds: "\<exists>new. entries (tape_step start b t) = entries t @ new \<and> subseq (map snd new) [b]"
  by (cases b) (simp add: tape_step_def)

lemma tape_from_adds: "\<exists>new. entries (tape_from start bs t) = entries t @ new \<and> subseq (map snd new) bs"
proof (induction bs arbitrary: t)
  case (Cons b bs)
  obtain new where n: "entries (tape_step start b t) = entries t @ new" "subseq (map snd new) [b]"
    using tape_step_adds by blast
  obtain new' where n': "entries (tape_from start bs (tape_step start b t)) = entries (tape_step start b t) @ new'"
    "subseq (map snd new') bs" using Cons.IH by blast
  have "subseq (map snd new @ map snd new') ([b] @ bs)" using n(2) n'(2) by (rule list_emb_append_mono)
  then show ?case using n(1) n'(1) by (intro exI [of _ "new @ new'"]) simp
qed simp

lemma tape_of_fetched: "subseq (map snd (entries (tape_of start bs))) bs"
  using tape_from_adds [of start bs "\<lparr>starts = [], entries = [], missed = 0\<rparr>"] by (auto simp: tape_of_def)

lemma consecutive_increasing: "consecutive log \<Longrightarrow> sorted_wrt (<) (map (\<lambda>(f, ord, b). ord) log)"
proof (induction log rule: consecutive.induct)
  case (1 f ord b f' ord' b' log)
  have "ord < ord'" "consecutive ((f', ord', b') # log)" using 1(2) by auto
  then show ?case using "1.IH" by fastforce
qed simp_all

section \<open>The writer records that\<close>

definition taped :: "fileBuffStruct \<Rightarrow> string \<Rightarrow> (string \<rightharpoonup> u8 list) \<Rightarrow> tape \<Rightarrow> file_writer \<Rightarrow> bool" where
  "taped fb p d t st \<longleftrightarrow> log_inv (\<lambda>n. starts t ! n) (entries t) st \<and> part st = p \<and> nMisses st = missed t \<and>
     lastOrd st = last_order t \<and> consec_file st = length (starts t) - 1 \<and> (starts t = [] \<longleftrightarrow> entries t = []) \<and>
     nAnts (sink st) = nAnts fb \<and> antNumbers (sink st) = antNumbers fb \<and> nchans (sink st) = nchans fb \<and>
     firstChan (sink st) = firstChan fb \<and> packetStart (sink st) = (if starts t = [] then packetStart fb else last (starts t)) \<and>
     (\<forall>name. name \<notin> file_name p ` {..<length (starts t)} \<longrightarrow> disk st name = d name)"

lemma log_inv_cong:
  assumes "log_inv ps log st" "\<forall>n\<le>consec_file st. ps n = ps' n"
  shows "log_inv ps' log st"
  using assms by (simp add: log_inv_def disk_inv_def)

lemma log_inv_misses: "log_inv ps log (st\<lparr>nMisses := n\<rparr>) \<longleftrightarrow> log_inv ps log st"
  by (auto simp: log_inv_def disk_inv_def)

lemma taped_pool: "taped fb p d t (set_wpool q st) \<longleftrightarrow> taped fb p d t st"
  by (auto simp: taped_def set_wpool_log) (simp_all add: set_wpool_def wpool_def)

lemma taped_start: "results_ok results \<Longrightarrow> length p < MAX_FILE \<Longrightarrow>
    taped fb p d \<lparr>starts = [], entries = [], missed = 0\<rparr> (writer_start fb p d results)"
  by (simp add: taped_def log_inv_def last_order_def writer_start_def wpool_def)

lemma taped_next:
  assumes t: "taped fb p d t st" and "lastOrd st \<noteq> 0" "set rs \<subseteq> set (io st)" "consec_file st < 10 ^ 10"
  shows "taped fb p d (tape_step start (lastOrd st + 1, bytes) t)
    (st\<lparr>nMisses := 0, lastOrd := lastOrd st + 1, io := rs, disk := (disk st)(cur st \<mapsto> the (disk st (cur st)) @ bytes)\<rparr>)"
    (is "taped _ _ _ ?t' ?st")
proof -
  have l: "log_inv (\<lambda>n. starts t ! n) (entries t) st" using t by (simp add: taped_def)
  have ne: "entries t \<noteq> []" "starts t \<noteq> []" and o: "last_order t = lastOrd st"
    using t assms(2) by (auto simp: taped_def last_order_def)
  have t': "?t' = t\<lparr>entries := entries t @ [(consec_file st, lastOrd st + 1, bytes)], missed := 0\<rparr>"
    using t ne(1) o by (simp add: tape_step_def taped_def)
  have "?st = st\<lparr>lastOrd := lastOrd st + 1, io := rs, disk := (disk st)(cur st \<mapsto> the (disk st (cur st)) @ bytes)\<rparr>\<lparr>nMisses := 0\<rparr>"
    by simp
  then have "log_inv (\<lambda>n. starts t ! n) (entries t @ [(consec_file st, lastOrd st + 1, bytes)]) ?st"
    using log_inv_next [OF l assms(2-4), of bytes] by (simp only: log_inv_misses)
  moreover have "cur st = file_name p (consec_file st)" "consec_file st < length (starts t)"
    using t l ne by (auto simp: taped_def log_inv_def)
  ultimately show ?thesis using t ne unfolding t' by (auto simp: taped_def last_order_def wpool_def)
qed

lemma taped_first:
  assumes t: "taped fb p d t st" and "lastOrd st = 0" "set rs \<subseteq> set (io st)"
  shows "taped fb p d (tape_step (packetStart fb) (1, bytes) t)
    (st\<lparr>nMisses := 0, cur := file_name (part st) (consec_file st), lastOrd := 1, io := rs,
       disk := (disk st)(file_name (part st) (consec_file st) \<mapsto> header_bytes (sink st) @ bytes)\<rparr>)" (is "taped _ _ _ ?t' ?st")
proof -
  have l: "log_inv (\<lambda>n. starts t ! n) (entries t) st" using t by (simp add: taped_def)
  have e: "entries t = []" "starts t = []" "consec_file st = 0" and o: "last_order t = 0" and s: "packetStart (sink st) = packetStart fb"
    using t assms(2) by (auto simp: taped_def log_inv_def)
  have t': "?t' = \<lparr>starts = [packetStart fb], entries = [(0, 1, bytes)], missed = 0\<rparr>" using e o by (simp add: tape_step_def)
  have "log_inv (\<lambda>n. [packetStart fb] ! n) [(0, 1, bytes)]
      (st\<lparr>cur := file_name (part st) (consec_file st), lastOrd := 1, io := rs,
       disk := (disk st)(file_name (part st) (consec_file st) \<mapsto> header_bytes (sink st) @ bytes)\<rparr>)"
    by (rule log_inv_cong [OF log_inv_first [OF l assms(2,3)]]) (simp add: e s)
  moreover have "?st = st\<lparr>cur := file_name (part st) (consec_file st), lastOrd := 1, io := rs,
       disk := (disk st)(file_name (part st) (consec_file st) \<mapsto> header_bytes (sink st) @ bytes)\<rparr>\<lparr>nMisses := 0\<rparr>" by simp
  ultimately have "log_inv (\<lambda>n. [packetStart fb] ! n) [(0, 1, bytes)] ?st" by (simp only: log_inv_misses)
  then show ?thesis using t e unfolding t' by (auto simp: taped_def last_order_def wpool_def)
qed

lemma taped_skip:
  assumes t: "taped fb p d t st" and "lastOrd st \<noteq> 0" "lastOrd st + 1 < order" "MAX_ORDER_MISSES \<le> nMisses st"
    "set rs \<subseteq> set (io st)" "Suc (consec_file st) < 10 ^ 10"
  shows "taped fb p d (tape_step start (order, bytes) t)
    ((skip_to order st)\<lparr>cur := file_name (part st) (Suc (consec_file st)), lastOrd := order, io := rs,
       disk := (disk st)(file_name (part st) (Suc (consec_file st)) \<mapsto> header_bytes (sink (skip_to order st)) @ bytes)\<rparr>)"
    (is "taped _ _ _ ?t' ?st")
proof -
  let ?start = "packetStart (sink (skip_to order st))"
  have l: "log_inv (\<lambda>n. starts t ! n) (entries t) st" using t by (simp add: taped_def)
  have ne: "entries t \<noteq> []" "starts t \<noteq> []" and o: "last_order t = lastOrd st"
    using t assms(2) by (auto simp: taped_def last_order_def)
  have n: "length (starts t) = Suc (consec_file st)" using t ne by (cases "starts t") (auto simp: taped_def)
  have "packetStart (sink st) = last (starts t)" using t ne by (simp add: taped_def)
  then have s: "?start = word_of_int order * 128 + last (starts t) - 1" by (simp add: skip_to_def cconst)
  have t': "?t' = \<lparr>starts = starts t @ [?start], entries = entries t @ [(Suc (consec_file st), order, bytes)], missed = 0\<rparr>"
    using t ne(1) o assms(3,4) n by (simp add: tape_step_def s taped_def)
  have "log_inv (\<lambda>n. (starts t @ [?start]) ! n) (entries t @ [(Suc (consec_file st), order, bytes)]) ?st"
    by (rule log_inv_cong [OF log_inv_skip [OF l assms(2,3,5,6)]]) (auto simp: n nth_append skip_to_def)
  then show ?thesis using t ne n unfolding t' by (auto simp: taped_def last_order_def wpool_def skip_to_def s lessThan_Suc)
qed

lemma handle_block_taped:
  assumes t: "taped fb p d t st" and h: "handle_block during indexIn order len st = Inr st'" and small: "consec_file st' < 10 ^ 10"
  shows "taped fb p d (tape_step (packetStart fb) (order, input_bytes st indexIn len) t) st'"
proof -
  have ok: "results_ok (io st)" "0 \<le> lastOrd st" using t by (simp_all add: taped_def log_inv_def)
  have o: "last_order t = lastOrd st" "missed t = nMisses st" "entries t = [] \<longleftrightarrow> lastOrd st = 0"
    using t by (auto simp: taped_def log_inv_def)
  from h ok show ?thesis
  proof (cases rule: handle_block_cases)
    case (old q)
    then show ?thesis using t o by (simp add: taped_pool tape_step_def)
  next
    case (gap q)
    have "taped fb p d (t\<lparr>missed := Suc (missed t)\<rparr>) (st\<lparr>nMisses := Suc (nMisses st)\<rparr>)"
      using t log_inv_pool [of "\<lambda>n. starts t ! n" "entries t" "wpool st" "Suc (nMisses st)" st]
      by (auto simp: taped_def last_order_def wpool_def set_wpool_def)
    then show ?thesis using gap o by (auto simp: taped_pool tape_step_def)
  next
    case (succ rs q)
    have "consec_file st < 10 ^ 10" using small by (simp add: succ set_wpool_def)
    from taped_next [OF t succ(2,3) this] show ?thesis using succ(1,4) by (simp add: taped_pool)
  next
    case (first rs q)
    from taped_first [OF t first(1,3)] show ?thesis using first(2,4) by (simp add: taped_pool)
  next
    case (skip rs q)
    have "Suc (consec_file st) < 10 ^ 10" using small by (simp add: skip set_wpool_def skip_to_def)
    from taped_skip [OF t skip(2,1,3,4) this] show ?thesis using skip(5) by (simp add: taped_pool)
  qed
qed

lemma file_writer_main_taped:
  "file_writer_main sched st = Inr st' \<Longrightarrow> taped fb p d t st \<Longrightarrow> consec_file st' < 10 ^ 10 \<Longrightarrow>
   taped fb p d (tape_from (packetStart fb) (fetched sched st) t) st'"
proof (induction sched st arbitrary: t rule: file_writer_main.induct)
  case (1 st)
  then show ?case by simp
next
  case (2 kg es between during sched st)
  show ?case
  proof (cases "kg \<or> anyBufFull (wpool st) \<noteq> 0")
    case False
    then show ?thesis using 2 by simp
  next
    case True
    then obtain st1 where s1: "file_writer_pass es between during st = Inr st1" "file_writer_main sched st1 = Inr st'"
      using "2.prems"(1) by (auto simp: cbind_eq_Inr_iff)
    have "results_ok (io st)" "0 \<le> lastOrd st" using "2.prems"(2) by (simp_all add: taped_def log_inv_def)
    from file_writer_main_mono [OF s1(2)] file_writer_pass_mono [OF s1(1) this] "2.prems"(3)
    have small: "consec_file st1 < 10 ^ 10" by linarith
    obtain r q es' where f: "fetchBuffer es between (wpool st) = Inr (r, q, es')"
      using s1(1) by (auto simp: file_writer_pass_def cbind_eq_Inr_iff)
    show ?thesis
    proof (cases r)
      case None
      then have "st1 = set_wpool q st" using s1(1) f by (simp add: file_writer_pass_def)
      then have "taped fb p d t st1" using "2.prems"(2) by (simp add: taped_pool)
      from "2.IH" [OF True s1(2) this "2.prems"(3)] show ?thesis using True f None s1(1) by simp
    next
      case (Some x)
      obtain i ord len where x: "x = (i, ord, len)" by (cases x)
      have h: "handle_block during i ord len (set_wpool q st) = Inr st1"
        using s1(1) f Some x by (simp add: file_writer_pass_def)
      have "taped fb p d t (set_wpool q st)" using "2.prems"(2) by (simp add: taped_pool)
      from "2.IH" [OF True s1(2) handle_block_taped [OF this h small] "2.prems"(3)]
      show ?thesis using True f Some x s1(1) by (simp add: input_bytes_def wpool_def set_wpool_def)
    qed
  qed
qed

text \<open>
  C16: whatever the other threads do, the files of a recording are, when the writer ends, those that
  the blocks its passes fetched from the pool make up, with the bytes they had in the pool: the tape
  of these blocks. File \<open>n\<close> (named by its number) holds one header, with the packet start of
  the tape, followed by the blocks of its log entries; every other file is as it was. The blocks on
  the tape are some of the fetched ones, in the order they were fetched and none twice; their orders increase, the first is 1, within a file they are consecutive,
  and a gap starts the next file. The system calls must not fail (their results are not negative).
\<close>

theorem file_writer_log:
  assumes "file_writer_work sched fb p d results = Inr st" "results_ok results" "length p < MAX_FILE"
    "consec_file st < 10 ^ 10"
  shows "let blocks = fetched sched (writer_start fb p d results); t = tape_of (packetStart fb) blocks in
    (\<forall>n<length (starts t). disk st (file_name p n) =
       Some (header_bytes (fb\<lparr>packetStart := starts t ! n\<rparr>) @ blocks_in n (entries t))) \<and>
    (\<forall>name. name \<notin> file_name p ` {..<length (starts t)} \<longrightarrow> disk st name = d name) \<and>
    lastOrd st = last_order t \<and> nMisses st = missed t \<and> consec_file st = length (starts t) - 1 \<and>
    subseq (map snd (entries t)) blocks \<and> sorted_wrt (<) (map (\<lambda>(f, ord, b). ord) (entries t)) \<and>
    consecutive (entries t) \<and> (entries t \<noteq> [] \<longrightarrow> (\<exists>b. hd (entries t) = (0, 1, b)))"
proof -
  let ?blocks = "fetched sched (writer_start fb p d results)"
  let ?t = "tape_of (packetStart fb) ?blocks"
  have t: "taped fb p d ?t st"
    using file_writer_main_taped [OF _ taped_start [OF assms(2,3)] assms(4)] assms(1)
    by (simp add: file_writer_work_def tape_of_def)
  have l: "log_inv (\<lambda>n. starts ?t ! n) (entries ?t) st" using t by (simp add: taped_def)
  have "disk st (file_name p n) = Some (header_bytes (fb\<lparr>packetStart := starts ?t ! n\<rparr>) @ blocks_in n (entries ?t))"
    if "n < length (starts ?t)" for n
  proof -
    have "entries ?t \<noteq> []" "n \<le> consec_file st" using t that by (auto simp: taped_def)
    then have "disk st (file_name p n) = Some (header_bytes ((sink st)\<lparr>packetStart := starts ?t ! n\<rparr>) @ blocks_in n (entries ?t))"
      using l t by (simp add: log_inv_def disk_inv_def taped_def)
    moreover have "header_bytes ((sink st)\<lparr>packetStart := x\<rparr>) = header_bytes (fb\<lparr>packetStart := x\<rparr>)" for x
      using t by (simp add: header_bytes_def taped_def)
    ultimately show ?thesis by simp
  qed
  then show ?thesis
    using t l tape_of_fetched consecutive_increasing [of "entries ?t"] by (auto simp: Let_def taped_def log_inv_def)
qed

text \<open>A recording of one block of four bytes.\<close>

definition example_sink :: fileBuffStruct where
  "example_sink = \<lparr>nAnts = 1, antNumbers = [3, 0, 0, 0], nchans = 1, firstChan = 0, packetStart = 256,
     udpBuff = \<lparr>bufData = [[1, 2, 3, 4]], dataLen = [4], orderNo = [1], NReady = 1, noBuffers = 1\<rparr>\<rparr>"

lemma example_write:
  "\<exists>st. file_writer_work [(True, [(\<lambda>p. p, True)], \<lambda>p. p, \<lambda>held p. p), (False, [], \<lambda>p. p, \<lambda>held p. p)]
     example_sink ''x'' Map.empty [3, 4, 4, 4, 4, 8, 4] = Inr st \<and> consec_file st = 0 \<and> lastOrd st = 1"
  by (simp add: file_writer_work_def writer_start_def file_writer_pass_def fetchBuffer_def fetchBuffer_poll_def fetchBuffer_pick_def
      findLowest_def findLowest_loop.simps wpool_def set_wpool_def example_sink_def handle_block_def write_block_def
      start_file_def sys_open_def writeHeader_def sys_write_def short_write_def ants_bytes_def anyBufFull_def
      returnEmptyBuffer_def cconst Let_def)

theorem file_writer_log_witness:
  "\<exists>st. file_writer_work [(True, [(\<lambda>p. p, True)], \<lambda>p. p, \<lambda>held p. p), (False, [], \<lambda>p. p, \<lambda>held p. p)]
     example_sink ''x'' Map.empty [3, 4, 4, 4, 4, 8, 4] = Inr st \<and>
   disk st ''x_0.bin'' = Some (header_bytes example_sink @ [1, 2, 3, 4]) \<and> lastOrd st = 1"
proof -
  let ?sched = "[(True, [(\<lambda>p. p, True)], \<lambda>p. p, \<lambda>held p. p), (False, [], \<lambda>p. p, \<lambda>held p. p)]"
    and ?rs = "[3, 4, 4, 4, 4, 8, 4] :: int list"
  obtain st where st: "file_writer_work ?sched example_sink ''x'' Map.empty ?rs = Inr st" "consec_file st = 0" "lastOrd st = 1"
    using example_write by blast
  have h: "results_ok ?rs" "length ''x'' < MAX_FILE" "consec_file st < 10 ^ 10"
    using st(2) by (simp_all add: results_ok_def cconst)
  have "fetched ?sched (writer_start example_sink ''x'' Map.empty ?rs) = [(1, [1, 2, 3, 4])]"
    by (simp add: writer_start_def example_sink_def file_writer_pass_def fetchBuffer_def fetchBuffer_poll_def fetchBuffer_pick_def
      findLowest_def findLowest_loop.simps wpool_def set_wpool_def handle_block_def write_block_def
      start_file_def sys_open_def writeHeader_def sys_write_def short_write_def ants_bytes_def anyBufFull_def
      returnEmptyBuffer_def cconst Let_def)
  moreover have "tape_of 256 [(1, [1, 2, 3, 4])] = \<lparr>starts = [256], entries = [(0, 1, [1, 2, 3, 4])], missed = 0\<rparr>"
    by (simp add: tape_of_def tape_step_def last_order_def)
  moreover have "packetStart example_sink = 256" "header_bytes (example_sink\<lparr>packetStart := 256\<rparr>) = header_bytes example_sink"
    by (simp_all add: example_sink_def)
  moreover have "file_name ''x'' 0 = ''x_0.bin''" by (simp add: file_name_def dec.simps [of 0] cconst char_of_def bit_0)
  ultimately show ?thesis
    using file_writer_log [OF st(1) h, unfolded Let_def] st(1,3) by (intro exI [of _ st]) (simp add: blocks_in_def del: fetched.simps)
qed

section \<open>One block\<close>

text \<open>What a pass does to the pool: the slot is published again, or emptied.\<close>

lemma sink_kept:
  "sys_write bytes st = Inr st' \<Longrightarrow> sink st' = sink st" "sys_open st = Inr st' \<Longrightarrow> sink st' = sink st"
  by (auto simp: sys_write_def sys_open_def Let_def split: list.splits if_splits)

lemma start_file_sink: "start_file st = Inr st' \<Longrightarrow> sink st' = sink st"
  by (auto simp: start_file_def cbind_eq_Inr_iff dest!: sink_kept(2) elim!: writeHeaderE dest!: sink_kept(1))

lemma returned_slots:
  "returnEmptyBuffer p i = Inr q \<Longrightarrow> q = p\<lparr>orderNo := (orderNo p)[nat i := 0]\<rparr>"
  "returnBuffer p i order len = Inr q \<Longrightarrow>
     q = p\<lparr>orderNo := (orderNo p)[nat i := order], dataLen := (dataLen p)[nat i := len], NReady := Suc (NReady p)\<rparr>"
  by (auto simp: returnEmptyBuffer_def returnBuffer_def split: if_splits)

lemma write_block_pool:
  assumes "write_block during indexIn order len st = Inr st'"
  shows "wpool st' = (during [indexIn] (wpool st))\<lparr>orderNo := (orderNo (during [indexIn] (wpool st)))[nat indexIn := 0]\<rparr>"
proof -
  obtain st1 st2 q where 1: "(if lastOrd st = 0 then start_file st else Inr st) = Inr st1"
    and 2: "sys_write (take len (bufData (wpool st1) ! nat indexIn)) (st1\<lparr>lastOrd := order\<rparr>) = Inr st2"
    and 3: "returnEmptyBuffer (during [indexIn] (wpool st2)) indexIn = Inr q" "st' = set_wpool q st2"
    using assms by (auto simp: write_block_def Let_def cbind_eq_Inr_iff split: if_splits)
  have "sink st1 = sink st" using 1 start_file_sink by (auto split: if_splits)
  then have "wpool st2 = wpool st" using sink_kept(1) [OF 2] by (simp add: wpool_def)
  then show ?thesis using 3 returned_slots(1) [OF 3(1)] by (simp add: set_wpool_def wpool_def)
qed

lemma handle_block_pool:
  assumes "handle_block during indexIn order len st = Inr st'"
  shows "wpool st' = (let p = during [indexIn] (wpool st); i = nat indexIn in
    if order > lastOrd st + 1 \<and> (lastOrd st = 0 \<or> nMisses st < MAX_ORDER_MISSES)
    then p\<lparr>orderNo := (orderNo p)[i := order], dataLen := (dataLen p)[i := len], NReady := Suc (NReady p)\<rparr>
    else p\<lparr>orderNo := (orderNo p)[i := 0]\<rparr>)"
proof -
  consider (written) st1 where "write_block during indexIn order len st1 = Inr st'" "wpool st1 = wpool st"
      "\<not> (order > lastOrd st + 1 \<and> (lastOrd st = 0 \<or> nMisses st < MAX_ORDER_MISSES))"
    | (emptied) q where "returnEmptyBuffer (during [indexIn] (wpool st)) indexIn = Inr q" "wpool st' = q" "order \<le> lastOrd st"
    | (again) q where "returnBuffer (during [indexIn] (wpool st)) indexIn order len = Inr q" "wpool st' = q"
      "order > lastOrd st + 1" "lastOrd st = 0 \<or> nMisses st < MAX_ORDER_MISSES"
  proof (cases "lastOrd st + 1 = order")
    case True
    then show thesis using assms written [of "st\<lparr>nMisses := 0\<rparr>"] by (simp add: handle_block_def wpool_def)
  next
    case ne: False
    show thesis
    proof (cases "order \<le> lastOrd st")
      case True
      then show thesis using assms ne emptied by (auto simp: handle_block_def cbind_eq_Inr_iff set_wpool_def wpool_def)
    next
      case new: False
      show thesis
      proof (cases "lastOrd st \<noteq> 0 \<and> Suc (nMisses st) > MAX_ORDER_MISSES")
        case True
        then obtain st1 where "start_file (skip_to order st) = Inr st1" "write_block during indexIn order len st1 = Inr st'"
          using assms ne new by (auto simp: handle_block_def cbind_eq_Inr_iff)
        moreover have "wpool (skip_to order st) = wpool st" by (simp add: skip_to_def wpool_def)
        ultimately show thesis using True written [of st1] start_file_sink [of "skip_to order st" st1] by (simp add: wpool_def)
      next
        case False
        then show thesis using assms ne new again by (auto simp: handle_block_def cbind_eq_Inr_iff set_wpool_def wpool_def)
      qed
    qed
  qed
  then show ?thesis
  proof cases
    case written
    then show ?thesis using write_block_pool [OF written(1)] by (auto simp: Let_def)
  next
    case emptied
    then show ?thesis using returned_slots(1) [OF emptied(1)] by (simp add: Let_def)
  next
    case again
    then show ?thesis using returned_slots(2) [OF again(1)] by (simp add: Let_def)
  qed
qed


text \<open>The writer after two hundred misses, holding the block of order 5.\<close>

definition example_writer :: "int list \<Rightarrow> file_writer" where
  "example_writer results = \<lparr>sink = example_sink\<lparr>udpBuff := (udpBuff example_sink)\<lparr>orderNo := [-1]\<rparr>\<rparr>, part = ''x'',
     consec_file = 0, nMisses = 200, lastOrd = 1, cur = ''x_0.bin'', disk = [''x_0.bin'' \<mapsto> []], io = results\<rparr>"

lemmas writer_eval = handle_block_def write_block_def start_file_def sys_open_def writeHeader_def sys_write_def
  short_write_def ants_bytes_def returnEmptyBuffer_def wpool_def set_wpool_def skip_to_def example_writer_def
  example_sink_def cconst Let_def


text \<open>
  C18: a failing \<^verbatim>\<open>write\<close> is not noticed. When the call that writes the next block returns -1, the
  comparison of the signed result with the unsigned length does not hold, so the pass returns as if
  the block had been written: the order counts as written and the buffer goes back empty, but the
  files are unchanged.
\<close>

theorem failed_write_unnoticed:
  assumes "io st = -1 # rs" "lastOrd st \<noteq> 0" "i < length (orderNo (wpool st))" "orderNo (wpool st) ! i = -1"
    "len \<le> length (bufData (wpool st) ! i)" "len < 2 ^ 64" "disk st (cur st) = Some content"
  shows "\<exists>st'. handle_block (\<lambda>held p. p) (int i) (lastOrd st + 1) len st = Inr st' \<and>
    lastOrd st' = lastOrd st + 1 \<and> disk st' = disk st \<and> orderNo (wpool st') ! i = 0"
proof -
  have "unat (word_of_int (-1) :: u64) = 2 ^ 64 - 1" by (simp add: unsigned_minus_1_eq_mask mask_eq_exp_minus_1)
  then have "\<not> short_write (-1) len" using assms(6) unfolding short_write_def by linarith
  moreover have "(disk st)(cur st \<mapsto> content) = disk st" using assms(7) by auto
  ultimately show ?thesis
    using assms by (simp add: handle_block_def write_block_def sys_write_def wpool_def set_wpool_def
      returnEmptyBuffer_def Let_def min_absorb1)
qed

theorem failed_write_unnoticed_witness:
  "\<exists>st'. handle_block (\<lambda>held p. p) (int 0) 2 4 (example_writer [-1]) = Inr st' \<and> lastOrd st' = 2 \<and>
    disk st' = [''x_0.bin'' \<mapsto> []]"
  using failed_write_unnoticed [of "example_writer [-1]" "[]" 0 4 "[]"]
  by (auto simp: example_writer_def example_sink_def wpool_def)

end
