(* ===== verification/Pool_Threads.thy ===== *)
theory Pool_Threads
  imports Pool_System Udp_Thread Worker_Invariants File_Thread
begin

text \<open>
  The receive thread and the file writer as threads of the pool system; the worker follows in its
  own theory. In one
  direction, every run of the other threads is a move of the kind the models of the threads are
  given, and it keeps what their theorems rely on. In the other direction, everything a thread
  does to a pool is a run of the pool system: it writes to and returns only slots it holds,
  records positive orders and lengths that fit, and claims a buffer before it picks one. So the
  threads provide for each other what each of them relies on.
\<close>

section \<open>Moves of the others keep what a thread relies on\<close>

lemma frames_roomy: "frames H p q \<Longrightarrow> roomy n p \<Longrightarrow> pool_wf q \<Longrightarrow> roomy n q"
proof -
  assume f: "frames H p q" and r: "roomy n p" and wf: "pool_wf q"
  have "length ` set (bufData q) = length ` set (bufData p)"
    using f unfolding frames_def by (metis set_map)
  then have "n \<le> length b" if "b \<in> set (bufData q)" for b
    using r that unfolding roomy_def by (metis image_iff)
  then show "roomy n q" using wf by (simp add: roomy_def)
qed

lemma roomy_nth: "roomy n p \<Longrightarrow> i < noBuffers p \<Longrightarrow> m \<le> n \<Longrightarrow> m \<le> length (bufData p ! i)"
  by (metis le_trans nth_mem pool_wf_def roomy_def)

lemma pool_run_roomy:
  assumes "pool_run A S T" "pool_inv S" "roomy n (pool S)"
  shows "roomy n (pool T) \<and> noBuffers (pool T) = noBuffers (pool S)"
  using assms
proof (induction rule: pool_run.induct)
  case (stay S)
  then show ?case by simp
next
  case (move S T t U)
  have inv: "pool_inv T" by (rule pool_run_inv [OF move(1) move.prems(1)])
  then have f: "frames (held T (Suc t)) (pool T) (pool U)" using pool_step_frames(1) [OF move(3), of "Suc t"] by (simp add: pool_inv_def)
  have wf: "pool_wf (pool U)" using pool_step_inv [OF move(3) inv] by (simp add: pool_inv_def input_ok_def)
  from frames_roomy [OF f _ wf] f show ?case using move.IH [OF move.prems] by (simp add: frames_def)
qed

lemma others_move_input: "others_move w c hs e \<Longrightarrow> input_ok q \<Longrightarrow> input_ok (e q)"
  by (erule stands_or_idle [of w c hs e q]) (auto simp: pool_inv_def)

lemma others_move_spares:
  assumes "\<And>hs. others_move w c hs (f hs)"
  shows "spares n f" "spares_input f"
proof -
  have keep: "noBuffers (f hs p) = noBuffers p \<and> (pool_wf p \<longrightarrow> pool_wf (f hs p)) \<and> (roomy n p \<longrightarrow> roomy n (f hs p)) \<and>
      (\<forall>i. int i \<in> set hs \<longrightarrow> orderNo (f hs p) ! i = orderNo p ! i \<and> bufData (f hs p) ! i = bufData p ! i)" for hs p
    using assms [of hs]
  proof (cases rule: stands_or_idle [where p = p])
    case idle
    then show ?thesis by simp
  next
    case (moved S T)
    have wf: "pool_wf (f hs p)" using moved(2,4) by (simp add: pool_inv_def input_ok_def)
    have "i \<in> held S w" if "int i \<in> set hs" for i using that moved(6) by (metis image_iff of_nat_eq_iff)
    then show ?thesis using moved(5) wf frames_roomy [OF moved(5) _ wf] by (simp add: frames_def)
  qed
  show "spares n f" using keep by (simp add: spares_def)
  show "spares_input f" using keep others_move_input [OF assms] by (simp add: spares_input_def)
qed

text \<open>
  C3: the interleavings that the theorems on single threads quantify over are all there are. In
  every state the threads can reach on a pool, whatever run the threads other than \<open>w\<close> make next
  is a move of the others in the sense of the models of the threads, and this move satisfies what
  the worker and the file writer rely on: it leaves the slots that \<open>w\<close> holds alone, keeps the
  number and the sizes of the buffers, and keeps the recorded lengths within the buffers.
\<close>

theorem interleavings_covered:
  assumes "pool_reach S" "pool_run (- {w}) S T"
  shows "\<exists>f. (\<forall>hs. others_move w (w \<in> claimed S) hs (f hs)) \<and> spares n f \<and> spares_input f \<and>
    (\<forall>hs. set hs = int ` held S w \<longrightarrow> f hs (pool S) = pool T)"
proof -
  define f where "f hs = (if set hs = int ` held S w then (\<lambda>p. p)(pool S := pool T) else (\<lambda>p. p))" for hs :: "int list"
  have "others_move w (w \<in> claimed S) hs (f hs)" for hs
    using run_others_move [OF _ assms(2), of "w \<in> claimed S" hs] others_move_id pool_reach_inv [OF assms(1)]
    by (auto simp: f_def stands_def)
  moreover from this have "spares n f" "spares_input f" by (rule others_move_spares)+
  ultimately show ?thesis by (intro exI [of _ f]) (simp add: f_def)
qed

text \<open>The holder of the only buffer publishes it while another thread looks on.\<close>

theorem interleavings_covered_witness:
  "\<exists>f. spares 1 f \<and> f [] \<lparr>bufData = [[1]], dataLen = [0], orderNo = [-1], NReady = 0, noBuffers = 1\<rparr> =
     \<lparr>bufData = [[1]], dataLen = [1], orderNo = [1], NReady = 1, noBuffers = 1\<rparr>"
proof -
  let ?S = "\<lparr>pool = \<lparr>bufData = [[1]], dataLen = [0], orderNo = [-1], NReady = 0, noBuffers = 1\<rparr>,
    held = (\<lambda>_. {})(5 := {0}), claimed = {}\<rparr> :: pool_sys"
  let ?p = "\<lparr>bufData = [[1]], dataLen = [1], orderNo = [1], NReady = 1, noBuffers = 1\<rparr> :: udpBuffStruct"
  have "pool_step 5 ?S (?S\<lparr>pool := ?p, held := (held ?S)(5 := held ?S 5 - {0})\<rparr>)"
    by (rule pool_step.publish [of _ _ _ 1 1]) (simp_all add: returnBuffer_def INT_MAX_def)
  from pool_run.move [OF pool_run.stay _ this, of "- {3}"]
  obtain T where "pool_run (- {3}) ?S T" "pool T = ?p" by simp
  with interleavings_covered [OF pool_reach_example this(1), of 1] show ?thesis by auto
qed

section \<open>The operations of a thread as steps of the system\<close>

lemma stands_Nil: "stands w c [] S \<longleftrightarrow> pool_inv S \<and> held S w = {} \<and> (w \<in> claimed S \<longleftrightarrow> c)"
  by (simp add: stands_def)

lemma stands_one: "stands w c [int i] S \<longleftrightarrow> pool_inv S \<and> held S w = {i} \<and> (w \<in> claimed S \<longleftrightarrow> c)"
proof -
  have "int ` held S w = int ` {i} \<longleftrightarrow> held S w = {i}" by (rule inj_image_eq_iff [OF inj_of_nat])
  then show ?thesis by (simp add: stands_def)
qed

lemma run_any: "pool_run A S T \<Longrightarrow> pool_run UNIV S T"
  by (rule pool_run_mono) simp_all

lemmas run_then = pool_run_trans [OF run_any]

lemma acquire_runs:
  assumes "pool_inv S" "fetchEmptyBuffer (pool S) = (rc, index, p')"
  obtains (none) "rc = -1" "p' = pool S"
    | (some) i T where "rc = 0" "index = int i" "pool_step w S T" "pool T = p'" "pool_inv T"
      "held T = (held S)(w := insert i (held S w))" "claimed T = claimed S" "i \<notin> held S w"
      "bufData p' = bufData (pool S)" "i < noBuffers p'"
proof -
  have wf: "pool_wf (pool S)" using assms(1) by (simp add: pool_inv_def input_ok_def)
  then show thesis
  proof (cases rule: acquire_slot_cases)
    case none
    then show thesis using assms(2) that(1) by simp
  next
    case (some i)
    have e: "rc = 0" "index = int i" "p' = pool S\<lparr>orderNo := (orderNo (pool S))[i := -1]\<rparr>" using assms(2) some(1) by auto
    let ?T = "S\<lparr>pool := p', held := (held S)(w := insert i (held S w))\<rparr>"
    have step: "pool_step w S ?T" using pool_step.acquire assms(2) by (simp add: e)
    have "i \<notin> held S w"
      using held_in_use [of S i] is_heldI [of i "held S" w] assms(1) some(4) by (auto simp: pool_inv_def slot_status_def)
    then show thesis using step pool_step_inv [OF step assms(1)] e(3) some(3) by (intro that(2) [OF e(1,2) step]) simp_all
  qed
qed

lemma fill_runs:
  assumes "pool_inv S" "i \<in> held S w" "write_slot i off src (pool S) = Inr p'"
  shows "pool_step w S (S\<lparr>pool := p'\<rparr>)" "pool_inv (S\<lparr>pool := p'\<rparr>)"
  using pool_step.fill [OF assms(2,3)] pool_step_inv assms(1) by blast+

lemma publish_runs:
  assumes "pool_inv S" "i \<in> held S w" "0 < ord" "ord < INT_MAX" "len \<le> length (bufData (pool S) ! i)"
  obtains p T where "returnBuffer (pool S) (int i) ord len = Inr p" "pool_step w S T" "pool T = p" "pool_inv T"
    "held T = (held S)(w := held S w - {i})" "claimed T = claimed S"
proof -
  have "i < noBuffers (pool S)" "slot_status (pool S) i = -1"
    using held_in_use [of S i] is_heldI [of i "held S" w] assms(1,2) by (auto simp: pool_inv_def)
  then obtain p where r: "returnBuffer (pool S) (int i) ord len = Inr p"
    using assms(1) by (auto simp: returnBuffer_def pool_inv_def input_ok_def pool_wf_def slot_status_def)
  note step = pool_step.publish [OF assms(2-5) r]
  show thesis by (rule that [OF r step _ pool_step_inv [OF step assms(1)]]) simp_all
qed

lemma recycle_runs:
  assumes "pool_inv S" "i \<in> held S w"
  obtains p T where "returnEmptyBuffer (pool S) (int i) = Inr p" "pool_step w S T" "pool T = p" "pool_inv T"
    "held T = (held S)(w := held S w - {i})" "claimed T = claimed S"
proof -
  have "i < noBuffers (pool S)" "slot_status (pool S) i = -1"
    using held_in_use [of S i] is_heldI [of i "held S" w] assms(1,2) by (auto simp: pool_inv_def)
  then obtain p where r: "returnEmptyBuffer (pool S) (int i) = Inr p"
    using assms(1) by (auto simp: returnEmptyBuffer_def pool_inv_def input_ok_def pool_wf_def slot_status_def)
  note step = pool_step.recycle [OF assms(2) r]
  show thesis by (rule that [OF r step _ pool_step_inv [OF step assms(1)]]) simp_all
qed

text \<open>Returning the one buffer a thread holds, after a move of the others.\<close>

lemma return_full_runs:
  assumes "stands w False [int i] S" "others_move w False [int i] e" "0 < ord" "ord < INT_MAX"
    "len \<le> length (bufData (pool S) ! i)"
  obtains p T where "returnBuffer (e (pool S)) (int i) ord len = Inr p" "pool_run UNIV S T" "pool T = p"
    "stands w False [] T"
proof -
  obtain S1 where S1: "pool_run (- {w}) S S1" "pool S1 = e (pool S)" "stands w False [int i] S1"
    "frames (held S w) (pool S) (pool S1)" using others_moveE [OF assms(2,1)] .
  have h: "pool_inv S1" "i \<in> held S1 w" "len \<le> length (bufData (pool S1) ! i)"
    using S1(3,4) assms(1,5) by (auto simp: stands_one frames_def)
  obtain p T where T: "returnBuffer (pool S1) (int i) ord len = Inr p" "pool_step w S1 T" "pool T = p" "pool_inv T"
    "held T = (held S1)(w := held S1 w - {i})" "claimed T = claimed S1"
    using publish_runs [OF h(1,2) assms(3,4) h(3)] .
  have "stands w False [] T" using T(4-6) S1(3) by (simp add: stands_Nil stands_one)
  moreover have "pool_run UNIV S T" using pool_run.move [OF run_any [OF S1(1)] _ T(2)] by simp
  ultimately show thesis using that T(1,3) S1(2) by simp
qed

lemma return_empty_runs:
  assumes "stands w False [int i] S" "others_move w False [int i] e"
  obtains p T where "returnEmptyBuffer (e (pool S)) (int i) = Inr p" "pool_run UNIV S T" "pool T = p"
    "stands w False [] T"
proof -
  obtain S1 where S1: "pool_run (- {w}) S S1" "pool S1 = e (pool S)" "stands w False [int i] S1"
    using others_moveE [OF assms(2,1)] .
  have h: "pool_inv S1" "i \<in> held S1 w" using S1(3) by (auto simp: stands_one)
  obtain p T where T: "returnEmptyBuffer (pool S1) (int i) = Inr p" "pool_step w S1 T" "pool T = p" "pool_inv T"
    "held T = (held S1)(w := held S1 w - {i})" "claimed T = claimed S1"
    using recycle_runs [OF h] .
  have "stands w False [] T" using T(4-6) S1(3) by (simp add: stands_Nil stands_one)
  moreover have "pool_run UNIV S T" using pool_run.move [OF run_any [OF S1(1)] _ T(2)] by simp
  ultimately show thesis using that T(1,3) S1(2) by simp
qed

section \<open>The receive thread\<close>

lemma udp_loop_runs:
  assumes "stands t False [int i] S" "roomy UDP_BUFFER_SIZE (pool S)" "Datagram [] \<notin> set rs"
    "iK \<le> N_READS_DEFAULT" "dataSize \<le> iK * RX_MSG_LEN"
  shows "waits_or (\<lambda>(rs', n, kg', p). \<exists>T. pool_run {t} S T \<and> pool T = p \<and> stands t False [int i] T \<and>
      roomy UDP_BUFFER_SIZE p \<and> n \<le> UDP_BUFFER_SIZE \<and> set rs' \<subseteq> set rs)
    (udp_recv_loop rs iK order (int i) dataSize kg (pool S))"
  using assms
proof (induction rs arbitrary: S iK dataSize)
  case Nil
  have "dataSize \<le> N_READS_DEFAULT * RX_MSG_LEN" using Nil.prems(4,5) by (meson le_trans mult_le_mono1)
  then show ?case using Nil.prems pool_run.stay udp_buffer_large_enough
    by (subst udp_recv_loop.simps) (auto simp: mult.commute)
next
  case (Cons r rs)
  have room: "dataSize \<le> UDP_BUFFER_SIZE"
    using Cons.prems(4,5) udp_buffer_large_enough by (metis le_trans mult.commute mult_le_mono1)
  show ?case
  proof (cases "\<exists>bs. r = Datagram bs \<and> iK < N_READS_DEFAULT \<and> (order = 1 \<and> iK = 0 \<or> length (take RX_MSG_LEN bs) = RX_MSG_LEN)")
    case False
    then show ?thesis using Cons.prems room pool_run.stay udp_buffer_large_enough
      by (subst udp_recv_loop.simps) (auto simp: Let_def cconst split: recv_result.splits)
  next
    case True
    then obtain bs where bs: "r = Datagram bs" "iK < N_READS_DEFAULT"
      "order = 1 \<and> iK = 0 \<or> length (take RX_MSG_LEN bs) = RX_MSG_LEN" by blast
    let ?rx = "take RX_MSG_LEN bs"
    have ne: "bs \<noteq> []" "0 < length ?rx" using Cons.prems(3) bs(1) by (auto simp: cconst)
    have fit: "dataSize + length ?rx \<le> Suc iK * RX_MSG_LEN" using Cons.prems(5) by simp
    have i: "i \<in> held S t" "i < length (bufData (pool S))" "pool_inv S"
      using Cons.prems(1) held_in_use [of S i] is_heldI [of i "held S" t]
      by (auto simp: stands_one pool_inv_def owners_inv_def pool_wf_def)
    have "Suc iK * RX_MSG_LEN \<le> UDP_BUFFER_SIZE"
      using bs(2) udp_buffer_large_enough by (metis Suc_leI le_trans mult.commute mult_le_mono1)
    then have "dataSize + length ?rx \<le> length (bufData (pool S) ! i)"
      using fit roomy_nth [OF Cons.prems(2)] i(2) Cons.prems(2) by (simp add: roomy_def pool_wf_def)
    from write_slot_ok [OF i(2) this] obtain p where w: "write_slot i dataSize ?rx (pool S) = Inr p" by blast
    let ?S = "S\<lparr>pool := p\<rparr>"
    note f = fill_runs [OF i(3,1) w]
    have st: "stands t False [int i] ?S" using Cons.prems(1) f(2) by (simp add: stands_one)
    have rm: "roomy UDP_BUFFER_SIZE (pool ?S)" using roomy_write [OF Cons.prems(2) w] by simp
    have nx: "udp_recv_loop (r # rs) iK order (int i) dataSize kg (pool S) =
        udp_recv_loop rs (Suc iK) order (int i) (dataSize + length ?rx) kg p"
      using bs ne w udp_buffer_large_enough by (subst udp_recv_loop.simps) (auto simp: Let_def)
    have "Datagram [] \<notin> set rs" "Suc iK \<le> N_READS_DEFAULT" using Cons.prems(3) bs(2) by auto
    from Cons.IH [OF st rm this fit] pool_run_trans [OF _ pool_run_step [OF f(1)], of "{t}"] show ?thesis
      unfolding nx waits_or_def by fastforce
  qed
qed

lemma udp_pass_runs:
  assumes "stands t False [] S" "roomy UDP_BUFFER_SIZE (pool S)" "Datagram [] \<notin> set rs"
    "\<And>hs. others_move t False hs (env hs)" "0 < order" "int order < INT_MAX"
  shows "waits_or (\<lambda>(rs', order', kg', p). \<exists>T. pool_run UNIV S T \<and> pool T = p \<and> stands t False [] T \<and>
      set rs' \<subseteq> set rs \<and> 0 < order' \<and> order' \<le> Suc order)
    (udp_recv_pass env rs order kg (pool S))"
proof -
  have inv: "pool_inv S" using assms(1) by (simp add: stands_Nil)
  obtain rc index p1 where f: "fetchEmptyBuffer (pool S) = (rc, index, p1)" by (metis prod_cases3)
  from inv f show ?thesis
  proof (cases rule: acquire_runs [where w = t])
    case none
    then show ?thesis using f assms(1,5) pool_run.stay by (auto simp: udp_recv_pass_def)
  next
    case (some i S1)
    have s1: "stands t False [int i] S1" using some assms(1) by (simp add: stands_one stands_Nil)
    have r1: "roomy UDP_BUFFER_SIZE (pool S1)"
      using assms(2) some(4,5,9) by (simp add: roomy_def pool_inv_def input_ok_def)
    have eq: "udp_recv_pass env rs order kg (pool S) = cbind (udp_recv_loop rs 0 order (int i) 0 kg (pool S1))
        (\<lambda>(rs', n, kg', s2). cbind (returnBuffer (env [int i] s2) (int i) (int order) n)
          (\<lambda>s3. Inr (rs', Suc order, kg', s3)))" by (simp add: udp_recv_pass_def f some(1,2,4))
    from udp_loop_runs [OF s1 r1 assms(3), of 0 0 order kg] show ?thesis unfolding eq
    proof (rule waits_or_bind)
      fix x assume "case x of (rs', n, kg', p) \<Rightarrow> \<exists>T. pool_run {t} S1 T \<and> pool T = p \<and> stands t False [int i] T \<and>
        roomy UDP_BUFFER_SIZE p \<and> n \<le> UDP_BUFFER_SIZE \<and> set rs' \<subseteq> set rs"
      then obtain rs' n kg' S2 where x: "x = (rs', n, kg', pool S2)" and S2: "pool_run {t} S1 S2" "stands t False [int i] S2" "roomy UDP_BUFFER_SIZE (pool S2)"
        "n \<le> UDP_BUFFER_SIZE" "set rs' \<subseteq> set rs" by (cases x) auto
      have "i < noBuffers (pool S2)"
        using S2(2) held_in_use [of S2 i] is_heldI [of i "held S2" t] by (auto simp: stands_one pool_inv_def)
      then have "n \<le> length (bufData (pool S2) ! i)" using roomy_nth [OF S2(3)] S2(4) by simp
      from return_full_runs [OF S2(2) assms(4) _ assms(6) this] assms(5)
      obtain p T where T: "returnBuffer (env [int i] (pool S2)) (int i) (int order) n = Inr p" "pool_run UNIV S2 T" "pool T = p"
        "stands t False [] T" by auto
      have "pool_run UNIV S T"
        using pool_run_trans [OF T(2) pool_run_trans [OF run_any [OF S2(1)] pool_run_step [OF some(3)]]] by simp
      then show "waits_or (\<lambda>(rs', order', kg', p). \<exists>T. pool_run UNIV S T \<and> pool T = p \<and> stands t False [] T \<and>
          set rs' \<subseteq> set rs \<and> 0 < order' \<and> order' \<le> Suc order)
        (case x of (rs', n, kg', s2) \<Rightarrow> cbind (returnBuffer (env [int i] s2) (int i) (int order) n)
          (\<lambda>s3. Inr (rs', Suc order, kg', s3)))"
        using T S2(5) by (auto simp: x)
    qed simp_all
  qed
qed

lemma udp_main_runs:
  assumes "stands t False [] S" "roomy UDP_BUFFER_SIZE (pool S)" "Datagram [] \<notin> set rs"
    "\<forall>(running, before, during)\<in>set sched. others_move t False [] before \<and> (\<forall>hs. others_move t False hs (during hs))"
    "0 < order" "int order + int (length sched) \<le> INT_MAX"
  shows "waits_or (\<lambda>(f, p). \<exists>T. pool_run UNIV S T \<and> pool T = p \<and> stands t False [] T)
    (udp_recv_main sched rs order kg (pool S))"
  using assms
proof (induction sched arbitrary: S rs order kg)
  case Nil
  then show ?case by (auto intro: pool_run.stay)
next
  case (Cons m sched)
  obtain running before during where m: "m = (running, before, during)" by (cases m)
  have b: "others_move t False [] before" and d: "\<And>hs. others_move t False hs (during hs)" using Cons.prems(4) m by auto
  obtain S1 where S1: "pool_run (- {t}) S S1" "pool S1 = before (pool S)" "stands t False [] S1"
    using others_moveE [OF b Cons.prems(1)] .
  have inv: "pool_inv S" using Cons.prems(1) by (simp add: stands_Nil)
  have r1: "roomy UDP_BUFFER_SIZE (pool S1)" using pool_run_roomy [OF S1(1) inv Cons.prems(2)] by simp
  have lt: "int order < INT_MAX" using Cons.prems(6) by simp
  note pass = udp_pass_runs [OF S1(3) r1 Cons.prems(3) d Cons.prems(5) lt, of kg]
  have "waits_or (\<lambda>(f, p). \<exists>T. pool_run UNIV S T \<and> pool T = p \<and> stands t False [] T)
      (cbind (udp_recv_pass during rs order kg (before (pool S))) (\<lambda>(rs', order', kg', s'). udp_recv_main sched rs' order' kg' s'))"
  proof (rule waits_or_bind [OF pass [unfolded S1(2)]], clarsimp)
    fix rs' order' kg' T
    assume T: "pool_run UNIV S1 T" "stands t False [] T" "set rs' \<subseteq> set rs" "0 < order'" "order' \<le> Suc order"
    have inv1: "pool_inv S1" using S1(3) by (simp add: stands_Nil)
    have "roomy UDP_BUFFER_SIZE (pool T)" using pool_run_roomy [OF T(1) inv1 r1] by simp
    moreover have "Datagram [] \<notin> set rs'" using T(3) Cons.prems(3) by blast
    moreover have "int order' + int (length sched) \<le> INT_MAX" using T(5) Cons.prems(6) by simp
    ultimately have "waits_or (\<lambda>(f, p). \<exists>U. pool_run UNIV T U \<and> pool U = p \<and> stands t False [] U)
        (udp_recv_main sched rs' order' kg' (pool T))"
      using Cons.IH [OF T(2) _ _ _ T(4)] Cons.prems(4) by simp
    then show "waits_or (\<lambda>(f, p). \<exists>U. pool_run UNIV S U \<and> pool U = p \<and> stands t False [] U)
        (udp_recv_main sched rs' order' kg' (pool T))"
      by (rule waits_or_mono) (use pool_run_trans T(1) run_any [OF S1(1)] in blast)
  qed
  then show ?case using Cons.prems(1) by (auto simp: m intro: pool_run.stay)
qed



section \<open>Fetching a ready buffer\<close>

lemma fetchBuffer_wait_runs:
  assumes "stands w False [] S" "\<forall>(e, kg)\<in>set es. others_move w False [] e"
  shows "waits_or (\<lambda>(r, p, es'). \<exists>T. pool_run UNIV S T \<and> pool T = p \<and> stands w (r \<noteq> Stop) [] T)
    (fetchBuffer_wait es (pool S))"
  using assms
proof (induction es arbitrary: S)
  case Nil
  then show ?case by simp
next
  case (Cons x es)
  obtain e kg where x: "x = (e, kg)" by fastforce
  have e: "others_move w False [] e" using Cons.prems(2) x by auto
  obtain S1 where S1: "pool_run (- {w}) S S1" "pool S1 = e (pool S)" "stands w False [] S1"
    using others_moveE [OF e Cons.prems(1)] .
  obtain r p where rp: "fetchBuffer_poll kg (pool S1) = (r, p)" by fastforce
  have eq: "fetchBuffer_wait (x # es) (pool S) = (if r = Again then fetchBuffer_wait es p else Inr (r, p, es))"
    using rp S1(2) by (cases r) (simp_all add: x)
  show ?case
  proof (cases "r = Got")
    case True
    let ?T = "S1\<lparr>pool := p, claimed := insert w (claimed S1)\<rparr>"
    have step: "pool_step w S1 ?T" by (rule pool_step.claim) (use S1(3) rp True in \<open>auto simp: stands_Nil\<close>)
    have "stands w True [] ?T" using S1(3) pool_step_inv [OF step] by (simp add: stands_Nil)
    moreover have "pool_run UNIV S ?T" using pool_run.move [OF run_any [OF S1(1)] _ step] by simp
    ultimately show ?thesis unfolding eq using True by (auto intro!: exI [of _ ?T])
  next
    case False
    then have p: "p = pool S1" using rp by (auto simp: fetchBuffer_poll_def split: if_splits)
    show ?thesis
    proof (cases "r = Again")
      case True
      have "\<forall>(e, kg)\<in>set es. others_move w False [] e" using Cons.prems(2) by simp
      from Cons.IH [OF S1(3) this] show ?thesis unfolding eq p
        using True by (auto elim!: waits_or_mono dest: pool_run_trans [OF _ run_any [OF S1(1)]])
    next
      case False
      with \<open>r \<noteq> Got\<close> have "r = Stop" by (cases r) auto
      then show ?thesis unfolding eq p using S1(3) run_any [OF S1(1)] by auto
    qed
  qed
qed

text \<open>
  A thread that holds nothing fetches a buffer. When it is not stopped it gets one, holds it, and
  the order and the length it is told are in range.
\<close>

definition fetched :: "nat \<Rightarrow> pool_sys \<Rightarrow> (int \<times> int \<times> nat) option \<times> udpBuffStruct \<times> (pool_move \<times> bool) list \<Rightarrow> bool" where
  "fetched w S x = (case x of (r, p, es') \<Rightarrow> \<exists>T. pool_run UNIV S T \<and> pool T = p \<and> (case r of None \<Rightarrow> stands w False [] T
     | Some (index, ord, len) \<Rightarrow> \<exists>i. index = int i \<and> stands w False [int i] T \<and> 0 < ord \<and> ord < INT_MAX \<and>
         len \<le> length (bufData p ! i)))"

lemma pick_runs:
  assumes "stands w True [] S" "fetchBuffer_pick (pool S) = (r, p)"
  shows "fetched w S (r, p, es)"
proof -
  have inv: "pool_inv S" "owners_inv S" "w \<in> claimed S" using assms(1) by (simp_all add: stands_Nil pool_inv_def)
  have wf: "pool_wf (pool S)" using inv(2) by (simp add: owners_inv_def)
  then show ?thesis
  proof (cases rule: pick_slot_cases)
    case none
    with inv_pick_succeeds [OF inv(2,3)] show ?thesis by simp
  next
    case (some i)
    let ?T = "S\<lparr>pool := p, held := (held S)(w := insert i (held S w)), claimed := claimed S - {w}\<rparr>"
    have e: "r = Some (int i, orderNo (pool S) ! i, dataLen (pool S) ! i)" "p = pool S\<lparr>orderNo := (orderNo (pool S))[i := -1]\<rparr>"
      using some(1) assms(2) by auto
    have step: "pool_step w S ?T" by (rule pool_step.pick [OF inv(3)]) (use assms(2) e(1) in simp)
    have "stands w False [int i] ?T" using assms(1) pool_step_inv [OF step inv(1)] by (simp add: stands_one stands_Nil)
    moreover have "orderNo (pool S) ! i < INT_MAX" using inv(2) some(3) by (simp add: owners_inv_def slot_status_def)
    moreover have "dataLen (pool S) ! i \<le> length (bufData p ! i)" using inv(1) some(3,4) e(2) by (simp add: pool_inv_def input_ok_def)
    ultimately show ?thesis using some(4) e(1) pool_run_step [OF step UNIV_I] by (auto simp: fetched_def intro!: exI [of _ ?T])
  qed
qed

lemma fetched_trans: "fetched w S x \<Longrightarrow> pool_run UNIV R S \<Longrightarrow> fetched w R x"
  unfolding fetched_def by (cases x) (auto dest: pool_run_trans)

lemma fetchBuffer_runs:
  assumes "stands w False [] S" "\<forall>(e, kg)\<in>set es. others_move w False [] e" "others_move w True [] between"
  shows "waits_or (fetched w S) (fetchBuffer es between (pool S))"
  unfolding fetchBuffer_def
proof (rule waits_or_bind [OF fetchBuffer_wait_runs [OF assms(1,2)]])
  fix x :: "poll \<times> udpBuffStruct \<times> (pool_move \<times> bool) list"
  assume "case x of (r, p, es') \<Rightarrow> \<exists>T. pool_run UNIV S T \<and> pool T = p \<and> stands w (r \<noteq> Stop) [] T"
  then obtain r es' T where x: "x = (r, pool T, es')" and T: "pool_run UNIV S T" "stands w (r \<noteq> Stop) [] T" by (cases x) auto
  show "waits_or (fetched w S) (case x of (p, s', es') \<Rightarrow> if p = Stop then Inr (None, s', es')
      else (let (r, s'') = fetchBuffer_pick (between s') in Inr (r, s'', es')))"
  proof (cases "r = Stop")
    case True
    then show ?thesis using T by (auto simp: x fetched_def)
  next
    case False
    then have "stands w True [] T" using T(2) by simp
    then obtain T1 where T1: "pool_run (- {w}) T T1" "pool T1 = between (pool T)" "stands w True [] T1"
      by (rule others_moveE [OF assms(3)])
    obtain r' p where p: "fetchBuffer_pick (pool T1) = (r', p)" by fastforce
    have "fetched w S (r', p, es')"
      by (rule fetched_trans [OF pick_runs [OF T1(3) p] pool_run_trans [OF run_any [OF T1(1)] T(1)]])
    then show ?thesis using False p T1(2) by (simp add: x)
  qed
qed

section \<open>The file writer\<close>

text \<open>An outcome of the writer: it waits, a system call failed, or it returns.\<close>

definition io_or :: "('a \<Rightarrow> bool) \<Rightarrow> 'a cres \<Rightarrow> bool" where
  "io_or Q m \<longleftrightarrow> m \<in> {Inl Blocked, Inl (Fatal ''open''), Inl (Fatal ''write'')} \<or> (\<exists>x. m = Inr x \<and> Q x)"

lemma io_or_Inr [simp]: "io_or Q (Inr x) \<longleftrightarrow> Q x"
  by (simp add: io_or_def)

lemma io_or_bind:
  assumes "io_or Q m" "\<And>x. m = Inr x \<Longrightarrow> Q x \<Longrightarrow> io_or R (f x)"
  shows "io_or R (cbind m f)"
  using assms by (cases m) (auto simp: io_or_def)

lemma waits_io_or: "waits_or Q m \<Longrightarrow> io_or Q m"
  by (auto simp: waits_or_def io_or_def)

lemma io_or_mono: "io_or Q m \<Longrightarrow> (\<And>x. Q x \<Longrightarrow> R x) \<Longrightarrow> io_or R m"
  by (auto simp: io_or_def)

definition room_for_ants :: "fileBuffStruct \<Rightarrow> bool" where
  "room_for_ants fb \<longleftrightarrow> unat (nAnts fb) \<le> length (antNumbers fb)"

lemma sys_calls_io: "io_or (\<lambda>st'. sink st' = sink st) (sys_write bytes st)" "io_or (\<lambda>st'. sink st' = sink st) (sys_open st)"
  by (auto simp: sys_write_def sys_open_def io_or_def Let_def split: list.splits)

lemma writeHeader_io:
  assumes "room_for_ants (sink st)"
  shows "io_or (\<lambda>st'. sink st' = sink st) (writeHeader st)"
proof -
  have w: "io_or (\<lambda>st'. sink st' = sink st) (sys_write bytes st1)" if "sink st1 = sink st" for bytes st1
    using sys_calls_io(1) [of st1 bytes] that by simp
  show ?thesis using assms unfolding writeHeader_def Let_def room_for_ants_def
    by (simp, intro io_or_bind [OF w] w) simp_all
qed

lemma start_file_io:
  assumes "room_for_ants (sink st)"
  shows "io_or (\<lambda>st'. sink st' = sink st) (start_file st)"
  unfolding start_file_def
proof (rule io_or_bind [OF sys_calls_io(2)])
  fix x :: file_writer assume "sink x = sink st"
  then show "io_or (\<lambda>st'. sink st' = sink st) (writeHeader x)" using writeHeader_io [of x] assms by simp
qed

text \<open>The writer without a buffer, after a run of the system from \<open>S\<close>.\<close>

definition writer_at :: "nat \<Rightarrow> pool_sys \<Rightarrow> file_writer \<Rightarrow> bool" where
  "writer_at w S st \<longleftrightarrow> room_for_ants (sink st) \<and> (\<exists>T. pool_run UNIV S T \<and> wpool st = pool T \<and> stands w False [] T)"

lemma writer_recycles:
  assumes "stands w False [int i] S" "wpool st = pool S" "room_for_ants (sink st)" "others_move w False [int i] (during [int i])"
  shows "io_or (writer_at w S) (cbind (returnEmptyBuffer (during [int i] (wpool st)) (int i)) (\<lambda>p. Inr (set_wpool p st)))"
proof -
  obtain p T where "returnEmptyBuffer (during [int i] (pool S)) (int i) = Inr p" "pool_run UNIV S T" "pool T = p"
    "stands w False [] T" using return_empty_runs [OF assms(1,4)] .
  then show ?thesis using assms(2,3) by (auto simp: writer_at_def set_wpool_def wpool_def room_for_ants_def)
qed

lemma write_block_io:
  assumes "stands w False [int i] S" "wpool st = pool S" "room_for_ants (sink st)" "len \<le> length (bufData (pool S) ! i)"
    "others_move w False [int i] (during [int i])"
  shows "io_or (writer_at w S) (write_block during (int i) order len st)"
proof -
  have s1: "io_or (\<lambda>st'. sink st' = sink st) (if lastOrd st = 0 then start_file st else Inr st)"
    using start_file_io [OF assms(3)] by simp
  have s2: "io_or (\<lambda>st'. sink st' = sink st) (if len \<le> length (bufData (wpool st1) ! nat (int i))
      then sys_write (take len (bufData (wpool st1) ! nat (int i))) (st1\<lparr>lastOrd := order\<rparr>) else Inl Overrun)"
    if "sink st1 = sink st" for st1
  proof -
    have "wpool st1 = pool S" using that assms(2) by (simp add: wpool_def)
    then show ?thesis using sys_calls_io(1) [of "st1\<lparr>lastOrd := order\<rparr>"] that assms(4) by simp
  qed
  show ?thesis unfolding write_block_def Let_def
  proof (rule io_or_bind [OF s1 io_or_bind [OF s2]], assumption)
    fix st2 :: file_writer assume "sink st2 = sink st"
    then have "wpool st2 = pool S" "room_for_ants (sink st2)" using assms(2,3) by (simp_all add: wpool_def)
    then show "io_or (writer_at w S) (cbind (returnEmptyBuffer (during [int i] (wpool st2)) (int i)) (\<lambda>p. Inr (set_wpool p st2)))"
      by (rule writer_recycles [where during = during, OF assms(1) _ _ assms(5)])
  qed
qed

lemma handle_block_io:
  assumes "stands w False [int i] S" "wpool st = pool S" "room_for_ants (sink st)" "len \<le> length (bufData (pool S) ! i)"
    "others_move w False [int i] (during [int i])" "0 < order" "order < INT_MAX"
  shows "io_or (writer_at w S) (handle_block during (int i) order len st)"
proof -
  have skip: "io_or (writer_at w S) (cbind (start_file (skip_to order st)) (write_block during (int i) order len))"
  proof (rule io_or_bind [OF start_file_io])
    show "room_for_ants (sink (skip_to order st))" using assms(3) by (simp add: skip_to_def room_for_ants_def)
    fix st1 :: file_writer assume "sink st1 = sink (skip_to order st)"
    then have "wpool st1 = pool S" "room_for_ants (sink st1)" using assms(2,3) by (simp_all add: wpool_def skip_to_def room_for_ants_def)
    then show "io_or (writer_at w S) (write_block during (int i) order len st1)"
      by (rule write_block_io [where during = during, OF assms(1) _ _ assms(4,5)])
  qed
  obtain p T where "returnBuffer (during [int i] (pool S)) (int i) order len = Inr p" "pool_run UNIV S T" "pool T = p"
    "stands w False [] T" using return_full_runs [OF assms(1,5-7,4)] .
  then have put: "io_or (writer_at w S) (cbind (returnBuffer (during [int i] (wpool st)) (int i) order len)
      (\<lambda>p. Inr (set_wpool p (st\<lparr>nMisses := Suc (nMisses st)\<rparr>))))"
    using assms(2,3) by (auto simp: writer_at_def set_wpool_def wpool_def room_for_ants_def)
  have "io_or (writer_at w S) (write_block during (int i) order len (st\<lparr>nMisses := 0\<rparr>))"
    by (rule write_block_io [where during = during, OF assms(1) _ _ assms(4,5)]) (use assms(2,3) in \<open>simp_all add: wpool_def\<close>)
  then show ?thesis unfolding handle_block_def using skip put writer_recycles [where during = during, OF assms(1-3,5)] by simp
qed

lemma writer_at_trans: "writer_at w S st \<Longrightarrow> pool_run UNIV R S \<Longrightarrow> writer_at w R st"
  unfolding writer_at_def by (auto dest: pool_run_trans)

lemma writer_pass_io:
  assumes "stands w False [] S" "wpool st = pool S" "room_for_ants (sink st)"
    "\<forall>(e, kg)\<in>set es. others_move w False [] e" "others_move w True [] between" "\<And>hs. others_move w False hs (during hs)"
  shows "io_or (writer_at w S) (file_writer_pass es between during st)"
  unfolding file_writer_pass_def assms(2)
proof (rule io_or_bind [OF waits_io_or [OF fetchBuffer_runs [OF assms(1,4,5)]]])
  fix x assume "fetched w S x"
  then obtain r es' T where x: "x = (r, pool T, es')" and T: "pool_run UNIV S T"
    and r: "case r of None \<Rightarrow> stands w False [] T | Some (index, ord, len) \<Rightarrow> \<exists>i. index = int i \<and> stands w False [int i] T \<and>
      0 < ord \<and> ord < INT_MAX \<and> len \<le> length (bufData (pool T) ! i)" by (cases x) (auto simp: fetched_def)
  let ?st = "set_wpool (pool T) st"
  have st: "wpool ?st = pool T" "room_for_ants (sink ?st)" using assms(3) by (simp_all add: set_wpool_def wpool_def room_for_ants_def)
  have "io_or (writer_at w S) (case r of None \<Rightarrow> Inr ?st | Some (indexIn, order, len) \<Rightarrow> handle_block during indexIn order len ?st)"
  proof (cases r)
    case None
    then show ?thesis using r st T by (auto simp: writer_at_def)
  next
    case (Some y)
    then obtain i ord len where y: "r = Some (int i, ord, len)" "stands w False [int i] T" "0 < ord" "ord < INT_MAX"
      "len \<le> length (bufData (pool T) ! i)" using r by (cases y) auto
    from handle_block_io [where during = during, OF y(2) st y(5) assms(6) y(3,4)] show ?thesis
      by (auto simp: y(1) elim!: io_or_mono intro: writer_at_trans [OF _ T])
  qed
  then show "io_or (writer_at w S) (case x of (r, p, es') \<Rightarrow> case r of None \<Rightarrow> Inr (set_wpool p st)
      | Some (indexIn, order, len) \<Rightarrow> handle_block during indexIn order len (set_wpool p st))" by (simp add: x)
qed

lemma writer_main_io:
  assumes "stands w False [] S" "wpool st = pool S" "room_for_ants (sink st)"
    "\<forall>(kg, es, between, during)\<in>set sched. (\<forall>(e, kg)\<in>set es. others_move w False [] e) \<and> others_move w True [] between \<and>
       (\<forall>hs. others_move w False hs (during hs))"
  shows "io_or (writer_at w S) (file_writer_main sched st)"
  using assms
proof (induction sched arbitrary: S st)
  case Nil
  then show ?case by (simp add: io_or_def)
next
  case (Cons m sched)
  obtain kg es between during where m: "m = (kg, es, between, during)" by (metis prod_cases4)
  have mv: "\<forall>(e, kg)\<in>set es. others_move w False [] e" "others_move w True [] between" "\<And>hs. others_move w False hs (during hs)"
    using Cons.prems(4) by (simp_all add: m)
  have idle: "writer_at w S st" using Cons.prems(1-3) pool_run.stay by (auto simp: writer_at_def)
  have "io_or (writer_at w S) (cbind (file_writer_pass es between during st) (file_writer_main sched))"
  proof (rule io_or_bind [OF writer_pass_io [OF Cons.prems(1-3) mv]])
    fix st1 assume "writer_at w S st1"
    then obtain T where T: "room_for_ants (sink st1)" "pool_run UNIV S T" "wpool st1 = pool T" "stands w False [] T"
      by (auto simp: writer_at_def)
    have "io_or (writer_at w T) (file_writer_main sched st1)" by (rule Cons.IH [OF T(4,3,1)]) (use Cons.prems(4) in simp)
    then show "io_or (writer_at w S) (file_writer_main sched st1)" by (rule io_or_mono) (rule writer_at_trans [OF _ T(2)])
  qed
  then show ?case using idle by (simp add: m)
qed



end
