(* ===== verification/Worker_Discipline.thy ===== *)
theory Worker_Discipline
  imports Pool_Threads
begin

text \<open>
  The worker as a thread of two pool systems, that of the received buffers and that of the blocks
  for the files: all it does to either pool, from its set-up to its end, is a run of the system.
\<close>

section \<open>The worker on the file pool\<close>

lemma set_held_except:
  assumes "k < length ls"
  shows "set (map windex (ls[k := x])) = insert (windex x) (set (held_except k ls))"
    "distinct (map windex ls) \<Longrightarrow> set (held_except k ls) = set (map windex ls) - {windex (ls ! k)}"
proof -
  show "set (map windex (ls[k := x])) = insert (windex x) (set (held_except k ls))"
    using assms by (auto simp: upd_conv_take_nth_drop held_except_def)
  have "map windex ls = map windex (take k ls) @ windex (ls ! k) # map windex (drop (Suc k) ls)"
    using arg_cong [OF id_take_nth_drop [OF assms], of "map windex"] by simp
  then show "distinct (map windex ls) \<Longrightarrow> set (held_except k ls) = set (map windex ls) - {windex (ls ! k)}"
    by (auto simp: held_except_def)
qed

lemma spin_runs:
  assumes "stands w False hs S" "\<forall>f\<in>set es. \<forall>hs. others_move w False hs (f hs)"
    "fetchEmpty_spin hs es (pool S) = Inr (index, p, es')"
  shows "\<exists>i T. index = int i \<and> pool_run UNIV S T \<and> pool T = p \<and> stands w False (int i # hs) T \<and> i \<in> held T w"
  using assms
proof (induction es arbitrary: S)
  case Nil
  then show ?case by simp
next
  case (Cons f es)
  have f: "others_move w False hs (f hs)" using Cons.prems(2) by simp
  obtain S1 where S1: "pool_run (- {w}) S S1" "pool S1 = f hs (pool S)" "stands w False hs S1"
    using others_moveE [OF f Cons.prems(1)] .
  obtain rc ix q where q: "fetchEmptyBuffer (pool S1) = (rc, ix, q)" by (metis prod_cases3)
  have inv: "pool_inv S1" using S1(3) by (simp add: stands_def)
  from inv q show ?case
  proof (cases rule: acquire_runs [where w = w])
    case none
    then have "fetchEmpty_spin hs es (pool S1) = Inr (index, p, es')" using Cons.prems(3) q S1(2) by simp
    from Cons.IH [OF S1(3) _ this] Cons.prems(2) show ?thesis using pool_run_trans [OF _ run_any [OF S1(1)]] by fastforce
  next
    case (some i T)
    have e: "index = int i" "p = q" using Cons.prems(3) q S1(2) some(1,2) by simp_all
    have "stands w False (int i # hs) T" using S1(3) some(5-7) by (simp add: stands_def)
    moreover have "pool_run UNIV S T" using pool_run.move [OF run_any [OF S1(1)] _ some(3)] by simp
    ultimately show ?thesis using e some(4,6) by auto
  qed
qed

text \<open>
  The worker among the threads of the file pool: it holds the slots of its six blocks. The order
  numbers stay in range as long as fewer than \<open>2\<^sup>3\<^sup>1\<close> blocks have been started.
\<close>

definition on_file :: "nat \<Rightarrow> pool_sys \<Rightarrow> worker \<Rightarrow> bool" where
  "on_file w S st \<longleftrightarrow> worker_ok st \<and> (\<forall>f\<in>set (moves st). \<forall>hs. others_move w False hs (f hs)) \<and>
     (next_order st \<le> INT_MAX \<longrightarrow>
       (\<exists>T. pool_run UNIV S T \<and> pool T = fpool st \<and> stands w False (map windex (locals st)) T))"

lemma sorter_windex:
  assumes "sorter_inv st"
  shows "map windex (locals st) = map int (map wdata (locals st))" "distinct (map windex (locals st))"
proof -
  show e: "map windex (locals st) = map int (map wdata (locals st))" using sorter_invD(4) [OF assms] by simp
  have "distinct (map wdata (locals st))" using assms unfolding sorter_inv_def by blast
  then show "distinct (map windex (locals st))" unfolding e by (subst distinct_map) simp
qed

lemma stands_held: "stands w c (map int xs) S \<Longrightarrow> held S w = set xs"
  unfolding stands_def by (metis inj_image_eq_iff inj_of_nat set_map)

lemma replace_runs:
  assumes "sorter_inv st" "\<forall>f\<in>set (moves st). \<forall>hs. others_move w False hs (f hs)" "k < N_FILE_BUFFERS_AT_A_TIME"
    "replace_struct k st = Inr st'" "next_order st < INT_MAX" "pool S = fpool st" "stands w False (map windex (locals st)) S"
  shows "\<exists>T. pool_run UNIV S T \<and> pool T = fpool st' \<and> stands w False (map windex (locals st')) T"
proof -
  let ?l = "locals st ! k" and ?n = "dataLenOut (fbuf st)"
  note D = sorter_invD [OF assms(1)]
  have k: "k < length (locals st)" using assms(3) D(3) by simp
  note l = D(4) [OF nth_mem [OF k]]
  have h: "held S w = wdata ` set (locals st)"
    using stands_held [of w False "map wdata (locals st)" S] assms(7) sorter_windex(1) [OF assms(1)] by simp
  then have own: "wdata ?l \<in> held S w" using k by simp
  have inv: "pool_inv S" "w \<notin> claimed S" using assms(7) by (simp_all add: stands_def)
  have wo: "0 < worder ?l" "worder ?l < INT_MAX" using l assms(5) by simp_all
  have "?n \<le> length (bufData (pool S) ! wdata ?l)"
    using roomy_nth [OF D(2)] l unat_packetsPerBlock(3) [OF D(1)] assms(6) by simp
  then obtain p1 S1 where S1: "returnBuffer (pool S) (int (wdata ?l)) (worder ?l) ?n = Inr p1" "pool_step w S S1" "pool S1 = p1"
    "pool_inv S1" "held S1 = (held S)(w := held S w - {wdata ?l})" "claimed S1 = claimed S"
    by (rule publish_runs [OF inv(1) own wo])
  have "int ` (held S w - {wdata ?l}) = set (held_except k (locals st))"
    using assms(7) l set_held_except(2) [OF k sorter_windex(2) [OF assms(1)]]
    by (simp add: image_set_diff [OF inj_of_nat] stands_def)
  then have st1: "stands w False (held_except k (locals st)) S1" using S1(4-6) inv(2) by (simp add: stands_def)
  obtain index p2 es p3 where r: "fetchEmpty_spin (held_except k (locals st)) (moves st) (pool S1) = Inr (index, p2, es)"
    "write_slot (nat index) 0 (replicate ?n 0) p2 = Inr p3" "fpool st' = p3"
    "locals st' = (locals st)[k := \<lparr>packetNo = nextStructPacketNo st, wdata = nat index,
            windex = index, worder = next_order st, nToFull = int (packetsPerBlock (fbuf st))\<rparr>]"
    using assms(4,6) S1(1,3) l by (auto simp: replace_struct_def Let_def cbind_eq_Inr_iff)
  from spin_runs [OF st1 assms(2) r(1)] obtain i S2 where S2: "index = int i" "pool_run UNIV S1 S2" "pool S2 = p2"
    "stands w False (int i # held_except k (locals st)) S2" "i \<in> held S2 w" by blast
  have inv2: "pool_inv S2" using S2(4) by (simp add: stands_def)
  have "write_slot i 0 (replicate ?n 0) (pool S2) = Inr p3" using r(2) S2(1,3) by simp
  note f = fill_runs [OF inv2 S2(5) this]
  have "pool_run UNIV S (S2\<lparr>pool := p3\<rparr>)"
    using pool_run.move [OF pool_run_trans [OF S2(2) pool_run_step [OF S1(2)]] _ f(1)] by simp
  moreover have "set (map windex (locals st')) = insert (int i) (set (held_except k (locals st)))"
    unfolding r(4) set_held_except(1) [OF k] using S2(1) by simp
  ultimately show ?thesis using f(2) S2(4) r(3)
    by (intro exI [of _ "S2\<lparr>pool := p3\<rparr>"]) (simp add: stands_def)
qed

lemma place_packet_runs:
  assumes "sorter_dims fb" "place_packet fb tab hdr payload ls (pool S) = Inr (ls', p)" "length ls = N_FILE_BUFFERS_AT_A_TIME"
    "pool_inv S" "wdata ` set ls \<subseteq> held S w"
  shows "\<exists>T. pool_run UNIV S T \<and> pool T = p \<and> pool_inv T \<and> held T = held S \<and> claimed T = claimed S \<and>
    map wdata ls' = map wdata ls \<and> map windex ls' = map windex ls"
  using assms(1)
proof (cases rule: place_packet_cases [where tab = tab and hdr = hdr and ls = ls and p = "pool S" and payload = payload])
  case ignored
  then show ?thesis using assms(2,4) pool_run.stay by auto
next
  case (placed k)
  from trans [OF placed(5) [symmetric] assms(2)]
  obtain off where w: "write_slot (wdata (ls ! k)) off payload (pool S) = Inr p"
    and ls': "ls' = ls[k := (ls ! k)\<lparr>nToFull := nToFull (ls ! k) - 1\<rparr>]"
    by (auto simp: cbind_eq_Inr_iff)
  have "wdata (ls ! k) \<in> held S w" using assms(3,5) placed(2) by auto
  note f = fill_runs [OF assms(4) this w]
  have k: "k < length ls" using placed(2) assms(3) by simp
  have "same_blocks ls ls'" using k by (auto simp: ls' same_blocks_def nth_list_update)
  note m = same_blocksD [OF this]
  show ?thesis using pool_run_step [OF f(1)] f(2) m by (intro exI [of _ "S\<lparr>pool := p\<rparr>"]) simp
qed

lemma place_list_runs:
  assumes "sorter_dims fb" "place_list fb tab pkts ls (pool S) = Inr (ls', p)" "length ls = N_FILE_BUFFERS_AT_A_TIME"
    "pool_inv S" "wdata ` set ls \<subseteq> held S w"
  shows "\<exists>T. pool_run UNIV S T \<and> pool T = p \<and> pool_inv T \<and> held T = held S \<and> claimed T = claimed S"
  using assms(2-)
proof (induction pkts arbitrary: ls S)
  case Nil
  then show ?case by (intro exI [of _ S]) (simp add: pool_run.stay)
next
  case (Cons pkt pkts)
  obtain hdr payload where pkt: "pkt = (hdr, payload)" by fastforce
  obtain ls1 p1 where s1: "place_packet fb tab hdr payload ls (pool S) = Inr (ls1, p1)" "place_list fb tab pkts ls1 p1 = Inr (ls', p)"
    using Cons.prems(1) by (auto simp: pkt cbind_eq_Inr_iff)
  from place_packet_runs [OF assms(1) s1(1) Cons.prems(2-4)] obtain S1 where S1: "pool_run UNIV S S1" "pool S1 = p1" "pool_inv S1"
    "held S1 = held S" "claimed S1 = claimed S" "map wdata ls1 = map wdata ls" by blast
  have "length ls1 = N_FILE_BUFFERS_AT_A_TIME" "wdata ` set ls1 = wdata ` set ls"
    using S1(6) Cons.prems(2) by (metis length_map) (metis S1(6) set_map)
  with Cons.IH [of ls1 S1] s1(2) S1(2-5) Cons.prems(4) obtain T where "pool_run UNIV S1 T" "pool T = p" "pool_inv T"
    "held T = held S" "claimed T = claimed S" by auto
  then show ?case using pool_run_trans [OF _ S1(1)] by blast
qed

lemma first_scan_pool:
  assumes "first_scan input n st = Inr st'"
  shows "fpool st' = fpool st" "nAnts (fbuf st') = nAnts (fbuf st)" "nchans (fbuf st') = nchans (fbuf st)"
  using assms by (auto simp: first_scan_def Let_def cbind_eq_Inr_iff fpool_def split: if_splits)

lemma sort_runs:
  assumes "sorter_inv st" "n * RX_MSG_LEN \<le> length bytes" "sort_buffer bytes n st = Inr st'"
    "pool S = fpool st" "stands w False (map windex (locals st)) S"
  shows "\<exists>T. pool_run UNIV S T \<and> pool T = fpool st' \<and> stands w False (map windex (locals st')) T"
proof -
  note D = sorter_invD [OF assms(1)]
  obtain st1 where s1: "first_scan bytes n st = Inr st1" "same_worker st st1"
    using first_scan_safe [OF D(3) assms(2)] by blast
  have inv1: "sorter_inv st1" by (rule same_worker_inv [OF assms(1) s1(2)])
  obtain st2 where s2: "sort_buffer bytes n st = Inr st2" "same_worker st st2" using sort_buffer_safe [OF assms(1,2)] by blast
  have m: "map windex (locals st') = map windex (locals st)" using s2 assms(3) by (simp add: same_worker_def)
  obtain ls p where p: "place_loop bytes (fbuf st1) (ants st1) [0..<n] (locals st1) (fpool st1) = Inr (ls, p)" "fpool st' = p"
    using assms(3) s1(1) by (auto simp: sort_buffer_def cbind_eq_Inr_iff)
  have pl: "place_list (fbuf st1) (ants st1) (map (packet_at bytes) [0..<n]) (locals st1) (pool S) = Inr (ls, p)"
    using p(1) place_loop_list [OF assms(2), of "[0..<n]"] first_scan_pool(1) [OF s1(1)] assms(4) by simp
  have h: "held S w = wdata ` set (locals st)"
    using stands_held [of w False "map wdata (locals st)" S] assms(5) sorter_windex(1) [OF assms(1)] by simp
  moreover have "wdata ` set (locals st1) = wdata ` set (locals st)" using s1(2) by (metis same_worker_def set_map)
  ultimately have "wdata ` set (locals st1) \<subseteq> held S w" by simp
  from place_list_runs [OF sorter_invD(1) [OF inv1] pl sorter_invD(3) [OF inv1] _ this] assms(5)
  obtain T where "pool_run UNIV S T" "pool T = p" "pool_inv T" "held T = held S" "claimed T = claimed S"
    by (auto simp: stands_def)
  then show ?thesis using assms(5) p(2) m by (intro exI [of _ T]) (simp add: stands_def)
qed

interpretation file_side: sorting "on_file w S" for w S
proof unfold_locales
  fix st st' k assume a: "on_file w S st" "k < N_FILE_BUFFERS_AT_A_TIME" "renewed k st st'" "replace_struct k st = Inr st'"
  then have ok: "worker_ok st" "worker_ok st'" using sorter.renew by (auto simp: on_file_def)
  then have inv: "sorter_inv st" by (simp add: worker_ok_def)
  note r = renewed_inv [OF inv a(2,3)]
  have "\<exists>T. pool_run UNIV S T \<and> pool T = fpool st' \<and> stands w False (map windex (locals st')) T" if "next_order st' \<le> INT_MAX"
  proof -
    have n: "next_order st < INT_MAX" using that r(2) by simp
    then obtain T where T: "pool_run UNIV S T" "pool T = fpool st" "stands w False (map windex (locals st)) T"
      using a(1) by (auto simp: on_file_def)
    have mv: "\<forall>f\<in>set (moves st). \<forall>hs. others_move w False hs (f hs)" using a(1) by (simp add: on_file_def)
    from replace_runs [OF inv mv a(2,4) n T(2,3)] show ?thesis using pool_run_trans [OF _ T(1)] by blast
  qed
  then show "on_file w S st'" using ok(2) a(1) r(3) by (auto simp: on_file_def)
next
  fix st st' n and bytes :: "u8 list"
  assume a: "on_file w S st" "n * RX_MSG_LEN \<le> length bytes" "sort_buffer bytes n st = Inr st'"
  then have ok: "worker_ok st" "worker_ok st'" using sorter_pass.sort by (auto simp: on_file_def)
  then have inv: "sorter_inv st" by (simp add: worker_ok_def)
  then have m: "moves st' = moves st" "next_order st' = next_order st"
    using sort_buffer_safe [OF inv a(2)] a(3) by (auto simp: same_worker_def)
  have "\<exists>T. pool_run UNIV S T \<and> pool T = fpool st' \<and> stands w False (map windex (locals st')) T" if nx: "next_order st' \<le> INT_MAX"
  proof -
    obtain T where T: "pool_run UNIV S T" "pool T = fpool st" "stands w False (map windex (locals st)) T"
      using a(1) nx unfolding on_file_def m(2) by blast
    from sort_runs [OF inv a(2,3) T(2,3)] show ?thesis using pool_run_trans [OF _ T(1)] by blast
  qed
  then show "on_file w S st'" using ok(2) a(1) m(1) by (auto simp: on_file_def)
qed (auto simp: on_file_def worker_ok_def sorter_inv_def fpool_def)

section \<open>The worker on the pool of received buffers\<close>

interpretation input_side: renewal "\<lambda>st. worker_ok st \<and> inpool st = p" for p
proof unfold_locales
  fix st st' k assume "worker_ok st \<and> inpool st = p" "k < N_FILE_BUFFERS_AT_A_TIME" "renewed k st st'" "replace_struct k st = Inr st'"
  then show "worker_ok st' \<and> inpool st' = p" using renewed_inv [of st k st'] by (auto simp: worker_ok_def)
qed (auto simp: worker_ok_def sorter_inv_def fpool_def)

definition on_input :: "nat \<Rightarrow> pool_sys \<Rightarrow> worker \<Rightarrow> bool" where
  "on_input w S st \<longleftrightarrow> worker_ok st \<and> (\<exists>T. pool_run UNIV S T \<and> pool T = inpool st \<and> stands w False [] T)"

lemma give_back_runs:
  assumes "worker_ok st" "inpool st = pool S" "stands w False [int i] S" "others_move w False [int i] (during [int i])"
  shows "\<exists>st'. give_back during (int i) st = Inr st' \<and> on_input w S st'"
proof -
  obtain p T where T: "returnEmptyBuffer (during [int i] (pool S)) (int i) = Inr p" "pool_run UNIV S T" "pool T = p"
    "stands w False [] T" using return_empty_runs [OF assms(3,4)] .
  moreover have "worker_ok (st\<lparr>inpool := p\<rparr>)"
    using assms(1) T(3,4) by (auto simp: worker_ok_def sorter_inv_def fpool_def stands_def pool_inv_def)
  ultimately show ?thesis using assms(2) by (auto simp: give_back_def on_input_def)
qed

lemma send_blocks_input: "on_input w S st \<Longrightarrow> waits_or (on_input w S) (send_blocks st)"
  using input_side.send_blocks_outcome [of st "inpool st"] by (auto simp: on_input_def elim!: waits_or_mono)

lemma on_input_trans: "on_input w S st \<Longrightarrow> pool_run UNIV R S \<Longrightarrow> on_input w R st"
  unfolding on_input_def by (auto dest: pool_run_trans)

lemma worker_pass_input:
  assumes "on_input w S st" "\<forall>(e, kg)\<in>set es. others_move w False [] e" "others_move w True [] between"
    "\<And>hs. others_move w False hs (during hs)"
  shows "waits_or (on_input w S) (worker_pass es between during st)"
proof -
  obtain S0 where S0: "pool_run UNIV S S0" "pool S0 = inpool st" "stands w False [] S0" and ok: "worker_ok st"
    using assms(1) by (auto simp: on_input_def)
  have "waits_or (on_input w S0) (worker_pass es between during st)" unfolding worker_pass_def Let_def S0(2) [symmetric]
  proof (rule waits_or_bind [OF fetchBuffer_runs [OF S0(3) assms(2,3)]])
    fix x assume "fetched w S0 x"
    then obtain r es' T where x: "x = (r, pool T, es')" and T: "pool_run UNIV S0 T"
      and r: "case r of None \<Rightarrow> stands w False [] T | Some (index, ord, len) \<Rightarrow> \<exists>i. index = int i \<and> stands w False [int i] T \<and>
        0 < ord \<and> ord < INT_MAX \<and> len \<le> length (bufData (pool T) ! i)" by (cases x) (auto simp: fetched_def)
    have "input_ok (pool T)" using pool_run_inv [OF T] S0(3) by (simp add: stands_def pool_inv_def)
    then have ok0: "worker_ok (st\<lparr>inpool := pool T\<rparr>)" (is "worker_ok ?st") by (rule sorter_pass.set_input [OF ok])
    have "waits_or (on_input w T) (case r of None \<Rightarrow> Inr ?st | Some (indexIn, order, len) \<Rightarrow>
        if len div RX_MSG_LEN = 0 then give_back during indexIn ?st
        else cbind (sort_buffer (bufData (pool T) ! nat indexIn) (len div RX_MSG_LEN) ?st)
               (\<lambda>st1. cbind (give_back during indexIn st1) send_blocks))"
    proof (cases r)
      case None
      then show ?thesis using r ok0 pool_run.stay by (auto simp: on_input_def)
    next
      case (Some y)
      then obtain i ord len where y: "r = Some (int i, ord, len)" "stands w False [int i] T"
        "len \<le> length (bufData (pool T) ! i)" using r by (cases y) auto
      have ret: "\<exists>st2. give_back during (int i) st1 = Inr st2 \<and> on_input w T st2" if "worker_ok st1" "inpool st1 = pool T" for st1
        by (rule give_back_runs [where during = during, OF that y(2) assms(4)])
      have fit: "len div RX_MSG_LEN * RX_MSG_LEN \<le> length (bufData (pool T) ! i)"
        using y(3) by (meson div_times_less_eq_dividend order_trans)
      obtain st1 where s1: "sort_buffer (bufData (pool T) ! i) (len div RX_MSG_LEN) ?st = Inr st1" "same_worker ?st st1"
        using sort_buffer_safe [OF sorter.inv [OF ok0] fit] by blast
      have "worker_ok st1" "inpool st1 = pool T"
        using sorter_pass.sort [OF ok0 fit s1(1)] s1(2) by (simp_all add: same_worker_def)
      from ret [OF this] ret [OF ok0] s1(1) show ?thesis by (auto simp: y(1) intro: send_blocks_input)
    qed
    then show "waits_or (on_input w S0) (case x of (r, ip, es') \<Rightarrow> case r of None \<Rightarrow> Inr (st\<lparr>inpool := ip\<rparr>)
        | Some (indexIn, order, len) \<Rightarrow> if len div RX_MSG_LEN = 0 then give_back during indexIn (st\<lparr>inpool := ip\<rparr>)
        else cbind (sort_buffer (bufData ip ! nat indexIn) (len div RX_MSG_LEN) (st\<lparr>inpool := ip\<rparr>))
               (\<lambda>st1. cbind (give_back during indexIn st1) send_blocks))"
      unfolding x prod.case by (rule waits_or_mono) (rule on_input_trans [OF _ T])
  qed
  then show ?thesis by (rule waits_or_mono) (rule on_input_trans [OF _ S0(1)])
qed

section \<open>The whole worker thread\<close>

text \<open>A pass starts at most twelve blocks: each of its two sending loops goes over the six blocks once.\<close>

lemma replace_struct_next: "replace_struct k st = Inr st' \<Longrightarrow> next_order st' = next_order st + 1"
  by (auto simp: replace_struct_def Let_def cbind_eq_Inr_iff)

lemma send_full_next: "send_full_loop iKs n st = Inr (m, st') \<Longrightarrow> next_order st' \<le> next_order st + int (length iKs)"
proof (induction iKs arbitrary: n st)
  case (Cons k iKs)
  then show ?case
    by (auto simp: cbind_eq_Inr_iff split: if_splits dest!: replace_struct_next Cons.IH)
qed simp

lemma send_earlier_next: "send_earlier_loop iKs st = Inr st' \<Longrightarrow> next_order st' \<le> next_order st + int (length iKs)"
proof (induction iKs arbitrary: st)
  case (Cons k iKs)
  then show ?case
    by (auto simp: cbind_eq_Inr_iff split: if_splits dest!: replace_struct_next Cons.IH)
qed simp

lemma send_blocks_next: "send_blocks st = Inr st' \<Longrightarrow> next_order st' \<le> next_order st + 12"
  by (auto simp: send_blocks_def cbind_eq_Inr_iff mark_half_def N_FILE_BUFFERS_AT_A_TIME_def split: if_splits
      dest!: send_full_next send_earlier_next)

lemma sort_buffer_next: "sort_buffer bytes n st = Inr st' \<Longrightarrow> next_order st' = next_order st"
  by (auto simp: sort_buffer_def first_scan_def Let_def cbind_eq_Inr_iff split: if_splits)

lemma give_back_next: "give_back during i st = Inr st' \<Longrightarrow> next_order st' = next_order st"
  by (auto simp: give_back_def cbind_eq_Inr_iff)

lemma worker_pass_next:
  assumes "worker_pass es between during st = Inr st'"
  shows "next_order st' \<le> next_order st + 12"
proof -
  obtain r ip es' where f: "fetchBuffer es between (inpool st) = Inr (r, ip, es')"
    using assms by (auto simp: worker_pass_def cbind_eq_Inr_iff)
  show ?thesis
  proof (cases r)
    case None
    then show ?thesis using assms f by (auto simp: worker_pass_def)
  next
    case (Some x)
    obtain i ord len where x: "r = Some (i, ord, len)" using Some by (cases x) simp
    then show ?thesis using assms f
      by (auto simp: worker_pass_def Let_def cbind_eq_Inr_iff split: if_splits
          dest!: send_blocks_next sort_buffer_next give_back_next)
  qed
qed

definition pass_moves_ok :: "nat \<Rightarrow> pass_moves \<Rightarrow> bool" where
  "pass_moves_ok w m = (case m of (es, between, during) \<Rightarrow> (\<forall>(e, kg)\<in>set es. others_move w False [] e) \<and>
     others_move w True [] between \<and> (\<forall>hs. others_move w False hs (during hs)))"

lemma waits_or_conj: "waits_or P m \<Longrightarrow> waits_or Q m \<Longrightarrow> waits_or (\<lambda>x. P x \<and> Q x) m"
  by (auto simp: waits_or_def)

lemma worker_pass_runs:
  assumes "on_file w SF st" "on_input w SI st" "pass_moves_ok w (es, between, during)"
  shows "waits_or (\<lambda>st'. on_file w SF st' \<and> on_input w SI st') (worker_pass es between during st)"
proof -
  have mv: "\<forall>(e, kg)\<in>set es. others_move w False [] e" "others_move w True [] between" "\<And>hs. others_move w False hs (during hs)"
    using assms(3) by (simp_all add: pass_moves_ok_def)
  have "\<forall>(e, kg)\<in>set es. \<forall>q. input_ok q \<longrightarrow> input_ok (e q)" "\<forall>q. input_ok q \<longrightarrow> input_ok (between q)" "spares_input during"
    using mv others_move_input others_move_spares(2) [OF mv(3)] by fast+
  from file_side.pass_outcome [OF assms(1) this] worker_pass_input [OF assms(2) mv] show ?thesis by (rule waits_or_conj)
qed

lemma worker_main_runs:
  assumes "on_file w SF st" "on_input w SI st" "\<forall>(kg, m)\<in>set sched. pass_moves_ok w m"
  shows "waits_or (\<lambda>st'. on_file w SF st' \<and> on_input w SI st' \<and> next_order st' \<le> next_order st + 12 * int (length sched))
    (worker_main sched st)"
  using assms
proof (induction sched arbitrary: st)
  case Nil
  then show ?case by simp
next
  case (Cons m sched)
  obtain kg es between during where m: "m = (kg, es, between, during)" by (metis prod_cases4)
  have ok: "pass_moves_ok w (es, between, during)" using Cons.prems(3) by (simp add: m)
  have "waits_or (\<lambda>st'. on_file w SF st' \<and> on_input w SI st' \<and> next_order st' \<le> next_order st + 12 * int (length (m # sched)))
      (cbind (worker_pass es between during st) (worker_main sched))"
  proof (rule waits_or_bind [OF worker_pass_runs [OF Cons.prems(1,2) ok]])
    fix st1 assume p: "worker_pass es between during st = Inr st1" and o: "on_file w SF st1 \<and> on_input w SI st1"
    have "\<forall>(kg, m)\<in>set sched. pass_moves_ok w m" using Cons.prems(3) by simp
    from Cons.IH [OF _ _ this] o show "waits_or (\<lambda>st'. on_file w SF st' \<and> on_input w SI st' \<and>
        next_order st' \<le> next_order st + 12 * int (length (m # sched))) (worker_main sched st1)"
      using worker_pass_next [OF p] by (force elim: waits_or_mono)
  qed
  then show ?case using Cons.prems(1,2) by (auto simp: m)
qed

lemma init_locals_runs:
  assumes "init_locals fb [k..<m] ls (pool S) = Inr (ls', p)" "m \<le> length ls" "k \<le> m" "pool_inv S" "w \<notin> claimed S"
    "int ` held S w = set (map windex (take k ls)) - {-1}"
  shows "\<exists>T. pool_run UNIV S T \<and> pool T = p \<and> pool_inv T \<and> w \<notin> claimed T \<and>
    int ` held T w = set (map windex (take m ls')) - {-1}"
  using assms
proof (induction "m - k" arbitrary: k ls S)
  case 0
  then show ?case by (intro exI [of _ S]) (simp add: pool_run.stay)
next
  case (Suc d)
  then have km: "k < m" "[k..<m] = k # [Suc k..<m]" and d: "d = m - Suc k" by (simp_all add: upt_rec)
  have tk: "set (map windex (take (Suc k) (ls[k := l]))) = insert (windex l) (set (map windex (take k ls)))" for l
    using km(1) Suc.prems(2) by (simp add: take_Suc_conv_app_nth)
  obtain rc index p1 where f: "fetchEmptyBuffer (pool S) = (rc, index, p1)" by (metis prod_cases3)
  from Suc.prems(4) f show ?case
  proof (cases rule: acquire_runs [where w = w])
    case none
    then have ix: "index = -1" using f by (auto simp: fetchEmptyBuffer_def Let_def split: if_splits)
    let ?ls = "ls[k := (ls ! k)\<lparr>windex := index\<rparr>]"
    have "init_locals fb [Suc k..<m] ?ls (pool S) = Inr (ls', p)" using Suc.prems(1) f none by (simp add: km(2))
    from Suc.hyps(1) [OF d this] Suc.prems(2,4-6) km(1) tk [of "(ls ! k)\<lparr>windex := index\<rparr>"] ix show ?thesis by auto
  next
    case (some i S1)
    let ?l = "(ls ! k)\<lparr>wdata := nat index, windex := index, nToFull := int (packetsPerBlock fb), worder := int k + 1\<rparr>"
    obtain p2 where w: "write_slot i 0 (replicate (dataLenOut fb) 0) (pool S1) = Inr p2"
      and r: "init_locals fb [Suc k..<m] (ls[k := ?l]) p2 = Inr (ls', p)"
      using Suc.prems(1) f some(1,2,4) by (auto simp: km(2) cbind_eq_Inr_iff)
    have "i \<in> held S1 w" using some(6) by simp
    note fl = fill_runs [OF some(5) this w]
    let ?S = "S1\<lparr>pool := p2\<rparr>"
    have "int ` held ?S w = set (map windex (take (Suc k) (ls[k := ?l]))) - {-1}"
      unfolding tk using Suc.prems(6) some(2,6) by auto
    from Suc.hyps(1) [OF d, of "ls[k := ?l]" ?S] this r Suc.prems(2,5) km(1) fl(2) some(7)
    obtain T where T: "pool_run UNIV ?S T" "pool T = p" "pool_inv T" "w \<notin> claimed T"
      "int ` held T w = set (map windex (take m ls')) - {-1}" by auto
    have "pool_run UNIV S T" using pool_run_trans [OF T(1) pool_run.move [OF pool_run_step [OF some(3)] _ fl(1)]] by simp
    then show ?thesis using T(2-) by blast
  qed
qed

lemma release_runs:
  assumes "stands w False (map windex ls) S" "\<forall>l\<in>set ls. windex l = int (wdata l)" "distinct (map windex ls)"
  shows "\<exists>T. release_locals ls (pool S) = Inr (pool T) \<and> pool_run UNIV S T \<and> stands w False [] T"
  using assms
proof (induction ls arbitrary: S)
  case Nil
  then show ?case using pool_run.stay by auto
next
  case (Cons l ls)
  have l: "windex l = int (wdata l)" using Cons.prems(2) by simp
  have "int (wdata l) \<in> int ` held S w" using Cons.prems(1) l by (simp add: stands_def)
  then have own: "wdata l \<in> held S w" by auto
  have inv: "pool_inv S" using Cons.prems(1) by (simp add: stands_def)
  obtain p S1 where S1: "returnEmptyBuffer (pool S) (int (wdata l)) = Inr p" "pool_step w S S1" "pool S1 = p" "pool_inv S1"
    "held S1 = (held S)(w := held S w - {wdata l})" "claimed S1 = claimed S" using recycle_runs [OF inv own] .
  have "int ` (held S w - {wdata l}) = set (map windex ls)"
    using Cons.prems(1,3) l by (simp add: image_set_diff [OF inj_of_nat] stands_def)
  then have "stands w False (map windex ls) S1" using S1(4-6) Cons.prems(1) by (simp add: stands_def)
  from Cons.IH [OF this] Cons.prems(2,3) obtain T where "release_locals ls (pool S1) = Inr (pool T)" "pool_run UNIV S1 T"
    "stands w False [] T" by auto
  then show ?case using S1(1,3) l pool_run_trans [OF _ pool_run_step [OF S1(2)]] by auto
qed


lemma release_returns: "release_locals ls p \<noteq> Inl Blocked"
proof (induction ls arbitrary: p)
  case (Cons l ls)
  then show ?case by (cases "returnEmptyBuffer p (windex l)") (auto simp: returnEmptyBuffer_def split: if_splits)
qed simp


end
