(* ===== verification/Recorder.thy ===== *)
theory Recorder
  imports Worker_Discipline
begin

text \<open>
  The model of full_custom/recorder.c: the command line, the set-up of the two pools and of the
  structures of the three threads, and the tear-down. The threads themselves are the theories
  Udp_Thread, Processing_Thread and File_Thread; the results of the library calls are inputs.
\<close>

section \<open>The command line\<close>

definition is_space :: "char \<Rightarrow> bool" where
  "is_space c \<longleftrightarrow> (of_char c :: nat) \<in> {32, 9, 10, 11, 12, 13}"

definition is_digit :: "char \<Rightarrow> bool" where
  "is_digit c \<longleftrightarrow> 48 \<le> (of_char c :: nat) \<and> (of_char c :: nat) \<le> 57"

definition digits_value :: "string \<Rightarrow> int" where
  "digits_value ds = foldl (\<lambda>v c. 10 * v + (of_char c - 48)) 0 ds"

text \<open>\<^verbatim>\<open>atoi\<close>, for numbers that fit an int: leading white space, an optional sign, digits.\<close>

definition atoi :: "string \<Rightarrow> int" where
  "atoi s = (let t = dropWhile is_space s in
     case t of [] \<Rightarrow> 0
     | c # cs \<Rightarrow> if c = CHR ''-'' then - digits_value (takeWhile is_digit cs)
         else if c = CHR ''+'' then digits_value (takeWhile is_digit cs)
         else digits_value (takeWhile is_digit t))"

record recorder_args =
  a_nAnts :: u32
  a_nchans :: u32
  a_firstChan :: u32
  a_file_part :: string
  a_port :: u16

text \<open>
  The parsed arguments, or the exit code. \<^verbatim>\<open>strncpy\<close> copies 127 characters and writes no
  terminator when the argument is longer: the name then goes on with what follows in memory, \<open>tail\<close>.
  \<^verbatim>\<open>port\<close> is a 16-bit field.
\<close>

definition parse_args :: "string \<Rightarrow> string list \<Rightarrow> int + recorder_args" where
  "parse_args tail argv =
     (let argc = length argv;
          na = (if argc \<ge> 4 then word_of_int (atoi (argv ! 3)) else 1 :: u32);
          nc = (if argc \<ge> 5 then word_of_int (atoi (argv ! 4)) else of_nat MAX_CHANNEL_PACKETS :: u32)
      in if argc < 2 then Inl (-1)
         else if argc \<ge> 4 \<and> (na > of_nat MAX_NO_ANTS \<or> na < 1) then Inl (-1)
         else if argc \<ge> 5 \<and> (nc > of_nat MAX_CHANNEL_PACKETS \<or> nc < 1) then Inl (-1)
         else Inr \<lparr>a_nAnts = na, a_nchans = nc,
           a_firstChan = (if argc \<ge> 6 then word_of_int (atoi (argv ! 5)) else 0),
           a_file_part = (if argc \<ge> 3
             then (if length (argv ! 2) < MAX_FILE - 1 then argv ! 2 else take (MAX_FILE - 1) (argv ! 2) @ tail)
             else take (MAX_FILE - 1) DEFAULT_SAVE_PATTERN),
           a_port = word_of_int (atoi (argv ! 1))\<rparr>)"

section \<open>Set-up and tear-down\<close>

text \<open>
  \<open>keep_going\<close> after the signal handler, and the allocator and mutex results for the two pools.
\<close>

definition inthandler :: "bool \<Rightarrow> bool" where
  "inthandler keep_going = False"

record pool_alloc =
  m1 :: int
  m2 :: int
  m_data :: bool
  m_buf :: "nat \<Rightarrow> nat \<Rightarrow> u8 list option"
  m_len :: "nat list option"
  m_order :: "int list option"

definition init_pool :: "pool_alloc \<Rightarrow> nat \<Rightarrow> nat \<Rightarrow> udpBuffStruct cres" where
  "init_pool a n bufsize = cbind (init_udpBuff (m1 a) (m2 a) (m_data a) (m_buf a) (m_len a) (m_order a) n bufsize) (\<lambda>(rc, p). Inr p)"

text \<open>
  The structures handed to the threads. \<open>stack\<close> is the uninitialised \<^verbatim>\<open>fileBuff\<close> of the stack
  frame; the three \<^verbatim>\<open>pthread_create\<close> results come last.
\<close>

record recorder =
  udpStr :: udpDataStruct
  fileStr :: fileDataStruct

definition recorder_setup ::
  "pool_alloc \<Rightarrow> pool_alloc \<Rightarrow> fileBuffStruct \<Rightarrow> int \<Rightarrow> int \<Rightarrow> int \<Rightarrow> int \<Rightarrow> recorder_args \<Rightarrow> recorder cres" where
  "recorder_setup au af stack sig c1 c2 c3 args =
     cbind (init_pool au N_UDP_BUFFERS UDP_BUFFER_SIZE) (\<lambda>udpBuff1.
     cbind (init_pool af N_FILE_BUFFERS FILE_BUFFER_SIZE) (\<lambda>fileBuff1.
       if sig = -1 then Inl (Fatal ''sigaction'')
       else if c1 \<noteq> 0 \<or> c2 \<noteq> 0 \<or> c3 \<noteq> 0 then Inl (Fatal ''recv Create'')
       else Inr \<lparr>udpStr = \<lparr>inBuff = udpBuff1, port = sint (a_port args)\<rparr>,
         fileStr = \<lparr>fileBuff = stack\<lparr>nAnts := a_nAnts args, nchans := a_nchans args, firstChan := a_firstChan args,
           udpBuff := fileBuff1\<rparr>, file_part = a_file_part args\<rparr>\<rparr>))"

definition recorder_teardown ::
  "int \<Rightarrow> int \<Rightarrow> int \<Rightarrow> (int \<times> int) \<Rightarrow> (int \<times> int) \<Rightarrow> udpBuffStruct \<Rightarrow> udpBuffStruct \<Rightarrow> int cres" where
  "recorder_teardown j1 j2 j3 md1 md2 u f =
     (if j1 \<noteq> 0 \<or> j2 \<noteq> 0 \<or> j3 \<noteq> 0 then Inl (Fatal ''join'')
      else cbind (destroy_udpBuff (fst md1) (snd md1) u) (\<lambda>_.
           cbind (destroy_udpBuff (fst md2) (snd md2) f) (\<lambda>_. Inr 0)))"

section \<open>Facts about the command line\<close>

lemma parse_args_dims:
  assumes "parse_args tail argv = Inr a"
  shows "0 < unat (a_nAnts a)" "unat (a_nAnts a) \<le> 4" "0 < unat (a_nchans a)" "unat (a_nchans a) \<le> 32"
  using assms
  by (auto simp: parse_args_def Let_def cconst word_less_nat_alt not_less unat_gt_0 split: if_splits)

section \<open>The start of the recorder\<close>

text \<open>An allocator that gives \<open>n\<close>-entry arrays and buffers of the requested size.\<close>

definition alloc_ok :: "nat \<Rightarrow> pool_alloc \<Rightarrow> bool" where
  "alloc_ok n a \<longleftrightarrow> m1 a = 0 \<and> m2 a = 0 \<and> m_data a \<and> (\<exists>ls. m_len a = Some ls \<and> length ls = n) \<and>
     (\<exists>os. m_order a = Some os \<and> length os = n) \<and> (\<forall>i sz. \<exists>b. m_buf a i sz = Some b \<and> length b = sz)"

lemma init_pool_empty:
  assumes "alloc_ok n a"
  shows "\<exists>p. init_pool a n bufsize = Inr p \<and> roomy bufsize p \<and> noBuffers p = n \<and> (\<forall>i<n. orderNo p ! i = 0) \<and>
    pool_reach \<lparr>pool = p, held = (\<lambda>_. {}), claimed = {}\<rparr>"
proof -
  obtain ls os where a: "m1 a = 0" "m2 a = 0" "m_data a" "m_len a = Some ls" "length ls = n" "m_order a = Some os" "length os = n"
    using assms by (auto simp: alloc_ok_def)
  define f where "f = (\<lambda>i sz. the (m_buf a i sz))"
  have f: "m_buf a i sz = Some (f i sz)" "length (f i sz) = sz" for i sz
    using assms unfolding alloc_ok_def f_def by (metis option.sel)+
  then have mb: "m_buf a = (\<lambda>i sz. Some (f i sz))" by (intro ext)
  let ?p = "\<lparr>bufData = map (\<lambda>i. f i bufsize) [0..<n], dataLen = ls, orderNo = replicate n 0, NReady = 0, noBuffers = n\<rparr>"
  have i: "init_udpBuff 0 0 True (\<lambda>i sz. Some (f i sz)) (Some ls) (Some os) n bufsize = Inr (1, ?p)"
    and "init_pool a n bufsize = Inr ?p"
    using a mb alloc_bufs_Some [of "\<lambda>i. f i bufsize" "[0..<n]"] by (simp_all add: init_pool_def init_udpBuff_def)
  then show ?thesis using a(5,7) f(2) pool_reach.start [OF i a(5,7)]
    by (intro exI [of _ ?p]) (auto simp: roomy_def pool_wf_def)
qed

text \<open>
  C27: every command line the recorder accepts leads, when the library calls succeed, to a state in
  which all three threads can do their work. Both pools are initial states of the pool system: ten
  empty buffers that hold 160 messages each between the receiver and the worker, twenty empty
  buffers that hold a block each between the worker and the writer. The configuration passes the
  worker's test, the antenna table has room for the antennas, and the worker starts in its invariant
  with six blocks in six buffers.
\<close>

theorem recorder_starts:
  assumes "parse_args tail argv = Inr args" "alloc_ok N_UDP_BUFFERS au" "alloc_ok N_FILE_BUFFERS af"
    "length (antNumbers stack) = MAX_NO_ANTS" "length junk = 6" "\<forall>f\<in>set es. spares FILE_BUFFER_SIZE f"
  shows "\<exists>r st. recorder_setup au af stack 0 0 0 0 args = Inr r \<and>
    pool_reach \<lparr>pool = inBuff (udpStr r), held = (\<lambda>_. {}), claimed = {}\<rparr> \<and>
    roomy UDP_BUFFER_SIZE (inBuff (udpStr r)) \<and> noBuffers (inBuff (udpStr r)) = 10 \<and>
    (let fb = fileBuff (fileStr r) in
      pool_reach \<lparr>pool = udpBuff fb, held = (\<lambda>_. {}), claimed = {}\<rparr> \<and> roomy FILE_BUFFER_SIZE (udpBuff fb) \<and>
      noBuffers (udpBuff fb) = 20 \<and> (\<forall>i<20. orderNo (udpBuff fb) ! i = 0) \<and>
      worker_config_ok fb \<and> unat (nAnts fb) \<le> length (antNumbers fb)) \<and>
    worker_init junk x y (inBuff (udpStr r)) (fileBuff (fileStr r)) es = Inr st \<and> fresh st"
proof -
  note dims = parse_args_dims [OF assms(1)]
  obtain u where u: "init_pool au N_UDP_BUFFERS UDP_BUFFER_SIZE = Inr u" "roomy UDP_BUFFER_SIZE u"
    "noBuffers u = N_UDP_BUFFERS" "\<forall>i<N_UDP_BUFFERS. orderNo u ! i = 0"
    "pool_reach \<lparr>pool = u, held = (\<lambda>_. {}), claimed = {}\<rparr>" using init_pool_empty [OF assms(2)] by blast
  obtain f where f: "init_pool af N_FILE_BUFFERS FILE_BUFFER_SIZE = Inr f" "roomy FILE_BUFFER_SIZE f"
    "noBuffers f = N_FILE_BUFFERS" "\<forall>i<N_FILE_BUFFERS. orderNo f ! i = 0"
    "pool_reach \<lparr>pool = f, held = (\<lambda>_. {}), claimed = {}\<rparr>" using init_pool_empty [OF assms(3)] by blast
  let ?fb = "stack\<lparr>nAnts := a_nAnts args, nchans := a_nchans args, firstChan := a_firstChan args, udpBuff := f\<rparr>"
  have cfg: "worker_config_ok ?fb" using dims by (simp add: worker_config_ok_dims sorter_dims_def)
  have iu: "input_ok u" using u(2-4) by (simp add: input_ok_def roomy_def)
  have six: "6 \<le> noBuffers (udpBuff ?fb)" "\<forall>j<noBuffers (udpBuff ?fb). orderNo (udpBuff ?fb) ! j = 0"
    "roomy FILE_BUFFER_SIZE (udpBuff ?fb)" using f by (simp_all add: cconst)
  obtain st where st: "worker_init junk x y u ?fb es = Inr st" "fresh st"
    using worker_init_lemma [OF cfg six(3,1,2) assms(5) iu assms(6), of x y] by blast
  show ?thesis
    using u f st dims(2) cfg assms(4)
    by (intro exI [of _ "\<lparr>udpStr = \<lparr>inBuff = u, port = sint (a_port args)\<rparr>,
        fileStr = \<lparr>fileBuff = ?fb, file_part = a_file_part args\<rparr>\<rparr>"] exI [of _ st])
      (simp add: recorder_setup_def cconst)
qed

definition example_alloc :: "nat \<Rightarrow> pool_alloc" where
  "example_alloc n = \<lparr>m1 = 0, m2 = 0, m_data = True, m_buf = \<lambda>i sz. Some (replicate sz 0), m_len = Some (replicate n 0),
     m_order = Some (replicate n 7)\<rparr>"

theorem recorder_starts_witness:
  "\<exists>args r st. parse_args [] [''rec'', ''4015'', ''obs'', ''2'', ''16''] = Inr args \<and> a_nAnts args = 2 \<and>
    recorder_setup (example_alloc 10) (example_alloc 20) example_sink 0 0 0 0 args = Inr r \<and>
    worker_init (replicate 6 (example_locals ! 0)) 0 0 (inBuff (udpStr r)) (fileBuff (fileStr r)) [] = Inr st \<and> fresh st"
proof -
  obtain args where a: "parse_args [] [''rec'', ''4015'', ''obs'', ''2'', ''16''] = Inr args" "a_nAnts args = 2"
    by (simp add: parse_args_def atoi_def is_space_def is_digit_def digits_value_def cconst)
  have "alloc_ok N_UDP_BUFFERS (example_alloc 10)" "alloc_ok N_FILE_BUFFERS (example_alloc 20)"
    "length (antNumbers example_sink) = MAX_NO_ANTS"
    by (simp_all add: alloc_ok_def example_alloc_def example_sink_def cconst)
  from recorder_starts [OF a(1) this, of "replicate 6 (example_locals ! 0)" "[]" 0 0] a
  show ?thesis by auto
qed

end
