(* ===== verification/Shutdown.thy ===== *)
theory Shutdown
  imports Recorder
begin

text \<open>
  How the recorder ends: the file writer, once the recorder is to stop and the other threads are at
  rest, empties its pool and ends; the main thread waits for a signal, and is not woken when the
  receive thread stops the recorder by clearing the flag itself.
\<close>

section \<open>System calls of the writer that return\<close>

text \<open>Each call has a result in the schedule: it succeeds or ends the process.\<close>

definition fails_or :: "('a \<Rightarrow> bool) \<Rightarrow> 'a cres \<Rightarrow> bool" where
  "fails_or Q m \<longleftrightarrow> m \<in> {Inl (Fatal ''open''), Inl (Fatal ''write'')} \<or> (\<exists>x. m = Inr x \<and> Q x)"

lemma fails_or_Inr [simp]: "fails_or Q (Inr x) \<longleftrightarrow> Q x"
  by (simp add: fails_or_def)

lemma fails_or_bind:
  assumes "fails_or Q m" "\<And>x. Q x \<Longrightarrow> fails_or R (f x)"
  shows "fails_or R (cbind m f)"
  using assms unfolding fails_or_def by (elim disjE exE) auto

lemma fails_or_mono: "fails_or Q m \<Longrightarrow> (\<And>x. Q x \<Longrightarrow> R x) \<Longrightarrow> fails_or R m"
  by (auto simp: fails_or_def)

text \<open>At most \<open>n\<close> results are used, and only the files change.\<close>

definition spent :: "nat \<Rightarrow> file_writer \<Rightarrow> file_writer \<Rightarrow> bool" where
  "spent n st st' \<longleftrightarrow> (\<exists>rs c d. st' = st\<lparr>io := rs, cur := c, disk := d\<rparr> \<and> length (io st) \<le> n + length rs)"

lemma spent_refl: "spent 0 st st"
  unfolding spent_def by (rule exI [of _ "io st"], rule exI [of _ "cur st"], rule exI [of _ "disk st"]) simp

lemma spent_trans: "spent m a b \<Longrightarrow> spent n b c \<Longrightarrow> spent (m + n) a c"
  unfolding spent_def by (elim exE conjE) (rule exI, rule exI, rule exI, auto)

lemma spent_fields:
  assumes "spent n st st'"
  shows "sink st' = sink st" "wpool st' = wpool st" "lastOrd st' = lastOrd st" "nMisses st' = nMisses st"
    "length (io st) \<le> n + length (io st')"
  using assms by (auto simp: spent_def wpool_def)

lemma sys_calls_return:
  assumes "io st \<noteq> []"
  shows "fails_or (spent 1 st) (sys_write bytes st)" "fails_or (spent 1 st) (sys_open st)"
proof -
  obtain r rs where io: "io st = r # rs" using assms by (cases "io st") auto
  have "spent 1 st (st\<lparr>io := rs, cur := c, disk := d\<rparr>)" for c d using io by (auto simp: spent_def)
  moreover have "spent 1 st (st\<lparr>io := rs, disk := d\<rparr>)" for d
    unfolding spent_def by (intro exI [of _ rs] exI [of _ "cur st"] exI [of _ d]) (simp add: io)
  ultimately show "fails_or (spent 1 st) (sys_write bytes st)" "fails_or (spent 1 st) (sys_open st)"
    by (auto simp: sys_write_def sys_open_def io fails_or_def Let_def)
qed

lemma sys_write_returns:
  assumes "spent m st st1" "Suc m \<le> length (io st)"
  shows "fails_or (spent (Suc m) st) (sys_write bytes st1)"
proof -
  have "io st1 \<noteq> []" using spent_fields(5) [OF assms(1)] assms(2) by auto
  from sys_calls_return(1) [OF this] show ?thesis
    by (rule fails_or_mono) (use spent_trans [OF assms(1), of 1] in simp)
qed

lemma writeHeader_returns:
  assumes "spent m st st1" "m + 5 \<le> length (io st)" "room_for_ants (sink st)"
  shows "fails_or (spent (m + 5) st) (writeHeader st1)"
proof -
  have a: "unat (nAnts (sink st1)) \<le> length (antNumbers (sink st1))"
    using spent_fields(1) [OF assms(1)] assms(3) by (simp add: room_for_ants_def)
  have w: "fails_or (spent (Suc k) st) (sys_write bytes x)" if "spent k st x" "k < m + 5" for k bytes x
    using sys_write_returns [OF that(1)] that(2) assms(2) by simp
  have 5: "m + 5 = Suc (Suc (Suc (Suc (Suc m))))" by simp
  show ?thesis unfolding writeHeader_def Let_def 5 using a
    by (simp, intro fails_or_bind [OF w [OF assms(1)]] fails_or_bind [OF w] w) simp_all
qed

lemma start_file_returns:
  assumes "6 \<le> length (io st)" "room_for_ants (sink st)"
  shows "fails_or (spent 6 st) (start_file st)"
proof -
  have "io st \<noteq> []" using assms(1) by auto
  from fails_or_bind [OF sys_calls_return(2) [OF this], of "spent 6 st" writeHeader] show ?thesis
    using writeHeader_returns [of 1 st] assms by (simp add: start_file_def)
qed

section \<open>A pool at rest\<close>

text \<open>No thread is between the two critical sections of a fetch, and every order is in range.\<close>

definition settled :: "udpBuffStruct \<Rightarrow> bool" where
  "settled p \<longleftrightarrow> input_ok p \<and> NReady p = ready_count p \<and> (\<forall>i<noBuffers p. orderNo p ! i < INT_MAX)"

definition ready :: "udpBuffStruct \<Rightarrow> nat \<Rightarrow> bool" where
  "ready p i \<longleftrightarrow> i < noBuffers p \<and> 0 < orderNo p ! i"

definition took :: "nat \<Rightarrow> udpBuffStruct \<Rightarrow> udpBuffStruct" where
  "took i p = p\<lparr>NReady := NReady p - 1, orderNo := (orderNo p)[i := -1]\<rparr>"

definition emptied :: "nat \<Rightarrow> udpBuffStruct \<Rightarrow> udpBuffStruct" where
  "emptied i p = p\<lparr>NReady := NReady p - 1, orderNo := (orderNo p)[i := 0]\<rparr>"

lemma settledD:
  assumes "settled p"
  shows "pool_wf p" "i < noBuffers p \<Longrightarrow> i < length (orderNo p)" "i < noBuffers p \<Longrightarrow> i < length (dataLen p)"
    "ready p i \<Longrightarrow> dataLen p ! i \<le> length (bufData p ! i)"
  using assms by (auto simp: settled_def input_ok_def pool_wf_def ready_def)

lemma ready_count_pos:
  assumes "settled p"
  shows "0 < ready_count p \<longleftrightarrow> (\<exists>i. ready p i)"
proof -
  have "0 < ready_count p \<longleftrightarrow> (\<exists>x\<in>set (orderNo p). 0 < x)" by (auto simp: ready_count_def filter_empty_conv)
  also have "\<dots> \<longleftrightarrow> (\<exists>i. ready p i)"
    using settledD(1) [OF assms] by (metis in_set_conv_nth ready_def pool_wf_def)
  finally show ?thesis .
qed

lemma rest_fetch:
  assumes "settled p" "0 < ready_count p"
  obtains i where "fetchBuffer [(\<lambda>p. p, False)] (\<lambda>p. p) p = Inr (Some (int i, orderNo p ! i, dataLen p ! i), took i p, [])"
    "ready p i" "\<And>j. ready p j \<Longrightarrow> orderNo p ! i \<le> orderNo p ! j"
proof -
  let ?q = "p\<lparr>NReady := NReady p - 1\<rparr>"
  have wf: "pool_wf ?q" using settledD(1) [OF assms(1)] by (simp add: pool_wf_def)
  have pos: "0 < NReady p" using assms by (simp add: settled_def)
  from wf show thesis
  proof (cases rule: pick_slot_cases)
    case none
    obtain i where "ready p i" using assms ready_count_pos by blast
    then show thesis using none(3) [of i] assms(1) by (auto simp: ready_def settled_def)
  next
    case (some i)
    then show thesis using pos by (intro that [of i]) (auto simp: fetchBuffer_def fetchBuffer_poll_def took_def ready_def)
  qed
qed

lemma emptied_settled:
  assumes "settled p" "ready p i"
  shows "settled (emptied i p)" "Suc (ready_count (emptied i p)) = ready_count p"
    "ready (emptied i p) j \<longleftrightarrow> j \<noteq> i \<and> ready p j" "returnEmptyBuffer (took i p) (int i) = Inr (emptied i p)"
    "j \<noteq> i \<Longrightarrow> orderNo (emptied i p) ! j = orderNo p ! j"
proof -
  have i: "i < length (orderNo p)" using settledD(2) [OF assms(1)] assms(2) by (simp add: ready_def)
  show c: "Suc (ready_count (emptied i p)) = ready_count p"
    using ready_count_update [OF i, of 0] assms(2) by (simp add: emptied_def ready_def ready_count_def)
  show "ready (emptied i p) j \<longleftrightarrow> j \<noteq> i \<and> ready p j" using i by (auto simp: ready_def emptied_def nth_list_update)
  show "settled (emptied i p)" using assms c i
    by (auto simp: settled_def emptied_def input_ok_def pool_wf_def nth_list_update INT_MAX_def)
  show "returnEmptyBuffer (took i p) (int i) = Inr (emptied i p)" using i by (simp add: returnEmptyBuffer_def took_def emptied_def)
  show "j \<noteq> i \<Longrightarrow> orderNo (emptied i p) ! j = orderNo p ! j" by (simp add: emptied_def)
qed

lemma put_back:
  assumes "settled p" "ready p i"
  shows "returnBuffer (took i p) (int i) (orderNo p ! i) (dataLen p ! i) = Inr p"
proof -
  have "0 < NReady p" using assms ready_count_pos [OF assms(1)] by (auto simp: settled_def)
  then show ?thesis using settledD(2,3) [OF assms(1), of i] assms(2) by (simp add: returnBuffer_def took_def ready_def)
qed

section \<open>The writer empties its pool\<close>

text \<open>A pass in which only the writer moves, after the recorder was told to stop.\<close>

definition quiet :: "bool \<times> (pool_move \<times> bool) list \<times> pool_move \<times> held_move" where
  "quiet = (False, [(\<lambda>p. p, False)], \<lambda>p. p, \<lambda>held p. p)"

text \<open>The slot \<open>i\<close> is empty again, and its block is not newer than the last one written.\<close>

definition gone :: "nat \<Rightarrow> udpBuffStruct \<Rightarrow> file_writer \<Rightarrow> file_writer \<Rightarrow> bool" where
  "gone i p st st' \<longleftrightarrow> wpool st' = emptied i p \<and> room_for_ants (sink st') \<and> length (io st) \<le> 7 + length (io st') \<and>
     lastOrd st \<le> lastOrd st' \<and> orderNo p ! i \<le> lastOrd st'"

lemma write_block_returns:
  assumes "settled p" "ready p i" "wpool st = took i p" "room_for_ants (sink st)" "orderNo p ! i = ord"
    "lastOrd st = 0 \<longrightarrow> 7 \<le> length (io st)" "lastOrd st < ord" "1 \<le> length (io st)"
  shows "fails_or (\<lambda>st'. wpool st' = emptied i p \<and> room_for_ants (sink st') \<and> lastOrd st' = ord \<and>
      length (io st) \<le> (if lastOrd st = 0 then 7 else 1) + length (io st'))
    (write_block (\<lambda>held p. p) (int i) ord (dataLen p ! i) st)"
proof -
  let ?k = "if lastOrd st = 0 then 6 else 0 :: nat"
  have s1: "fails_or (spent ?k st) (if lastOrd st = 0 then start_file st else Inr st)"
    using start_file_returns [of st] assms(4,6) by (auto simp: spent_refl)
  have fit: "dataLen p ! i \<le> length (bufData p ! i)" using settledD(4) [OF assms(1,2)] .
  show ?thesis unfolding write_block_def
  proof (rule fails_or_bind [OF s1])
    fix st1 assume st1: "spent ?k st st1"
    note f1 = spent_fields [OF st1]
    let ?st1 = "st1\<lparr>lastOrd := ord\<rparr>"
    have "io ?st1 \<noteq> []" using f1(5) assms(6,8) by (auto split: if_splits)
    note w = sys_calls_return(1) [OF this, of "take (dataLen p ! i) (bufData p ! i)"]
    have b: "bufData (wpool st1) = bufData p" using f1(2) assms(3) by (simp add: took_def)
    show "fails_or (\<lambda>st'. wpool st' = emptied i p \<and> room_for_ants (sink st') \<and> lastOrd st' = ord \<and>
        length (io st) \<le> (if lastOrd st = 0 then 7 else 1) + length (io st'))
      (cbind (let input = bufData (wpool st1) ! nat (int i) in if dataLen p ! i \<le> length input
          then sys_write (take (dataLen p ! i) input) (st1\<lparr>lastOrd := ord\<rparr>) else Inl Overrun)
        (\<lambda>st2. cbind (returnEmptyBuffer (wpool st2) (int i)) (\<lambda>p. Inr (set_wpool p st2))))"
    proof (rule fails_or_bind [of "spent 1 ?st1"])
      show "fails_or (spent 1 ?st1) (let input = bufData (wpool st1) ! nat (int i) in if dataLen p ! i \<le> length input
          then sys_write (take (dataLen p ! i) input) (st1\<lparr>lastOrd := ord\<rparr>) else Inl Overrun)"
        using w fit by (simp add: b)
      fix st2 assume "spent 1 ?st1 st2"
      note f2 = spent_fields [OF this]
      have "wpool st2 = took i p" using f2(2) f1(2) assms(3) by (simp add: wpool_def)
      then show "fails_or (\<lambda>st'. wpool st' = emptied i p \<and> room_for_ants (sink st') \<and> lastOrd st' = ord \<and>
          length (io st) \<le> (if lastOrd st = 0 then 7 else 1) + length (io st'))
        (cbind (returnEmptyBuffer (wpool st2) (int i)) (\<lambda>p. Inr (set_wpool p st2)))"
        using emptied_settled(4) [OF assms(1,2)] f1(1,5) f2(1,3,5) assms(4)
        by (auto simp: set_wpool_def wpool_def room_for_ants_def split: if_splits)
    qed
  qed
qed

lemma handle_block_returns:
  assumes "settled p" "ready p i" "wpool st = took i p" "room_for_ants (sink st)" "orderNo p ! i = ord"
    "7 \<le> length (io st)" "0 \<le> lastOrd st" "lastOrd st = 0 \<longrightarrow> ord = 1"
  shows "fails_or (\<lambda>st'. gone i p st st' \<or>
      lastOrd st \<noteq> 0 \<and> nMisses st < MAX_ORDER_MISSES \<and> st' = set_wpool p (st\<lparr>nMisses := Suc (nMisses st)\<rparr>))
    (handle_block (\<lambda>held p. p) (int i) ord (dataLen p ! i) st)"
proof -
  consider (old) "ord \<le> lastOrd st" | (fits) "ord = lastOrd st + 1"
    | (skip) "lastOrd st + 1 < ord" "lastOrd st \<noteq> 0" "MAX_ORDER_MISSES < Suc (nMisses st)"
    | (again) "lastOrd st + 1 < ord" "lastOrd st \<noteq> 0" "\<not> MAX_ORDER_MISSES < Suc (nMisses st)"
    using assms(7,8) by linarith
  then show ?thesis
  proof cases
    case old
    then show ?thesis using emptied_settled(4) [OF assms(1,2)] assms(3-5)
      by (simp add: handle_block_def gone_def) (simp add: set_wpool_def wpool_def room_for_ants_def)
  next
    case fits
    have "fails_or (gone i p st) (write_block (\<lambda>held p. p) (int i) ord (dataLen p ! i) (st\<lparr>nMisses := 0\<rparr>))"
      by (rule fails_or_mono [OF write_block_returns [OF assms(1,2) _ _ assms(5)]])
        (use assms fits in \<open>auto simp: wpool_def gone_def split: if_splits\<close>)
    then show ?thesis using fits by (auto simp: handle_block_def elim: fails_or_mono)
  next
    case skip
    let ?st = "skip_to ord st"
    have s: "room_for_ants (sink ?st)" "wpool ?st = took i p" "io ?st = io st" "lastOrd ?st = ord - 1"
      using assms(3,4) by (simp_all add: skip_to_def room_for_ants_def wpool_def)
    have "fails_or (gone i p st) (cbind (start_file ?st) (write_block (\<lambda>held p. p) (int i) ord (dataLen p ! i)))"
    proof (rule fails_or_bind [OF start_file_returns])
      fix st1 assume "spent 6 ?st st1"
      note f = spent_fields [OF this]
      show "fails_or (gone i p st) (write_block (\<lambda>held p. p) (int i) ord (dataLen p ! i) st1)"
        by (rule fails_or_mono [OF write_block_returns [OF assms(1,2) _ _ assms(5)]])
          (use assms(5,6,7) skip s f in \<open>auto simp: gone_def split: if_splits\<close>)
    qed (use s assms(6) in simp_all)
    then show ?thesis using skip by (auto simp: handle_block_def elim: fails_or_mono)
  next
    case again
    then show ?thesis using put_back [OF assms(1,2)] assms(3,5) by (simp add: handle_block_def)
  qed
qed

text \<open>
  The writer can go on: either it has written a block before, or the first block is there. \<open>effort\<close>
  bounds the number of passes it still needs.
\<close>

definition draining :: "file_writer \<Rightarrow> bool" where
  "draining st \<longleftrightarrow> settled (wpool st) \<and> room_for_ants (sink st) \<and> 0 \<le> lastOrd st \<and>
     7 * ready_count (wpool st) \<le> length (io st) \<and>
     (lastOrd st = 0 \<longrightarrow> 0 < ready_count (wpool st) \<longrightarrow> (\<exists>i. ready (wpool st) i \<and> orderNo (wpool st) ! i = 1))"

definition effort :: "file_writer \<Rightarrow> nat" where
  "effort st = ready_count (wpool st) * (MAX_ORDER_MISSES + 2) + (MAX_ORDER_MISSES + 1 - nMisses st)"

text \<open>The blocks that were ready are still ready or not newer than the last written one.\<close>

definition caught_up :: "file_writer \<Rightarrow> file_writer \<Rightarrow> bool" where
  "caught_up st st' \<longleftrightarrow> lastOrd st \<le> lastOrd st' \<and> (\<forall>i. ready (wpool st) i \<longrightarrow> orderNo (wpool st) ! i \<le> lastOrd st' \<or>
     ready (wpool st') i \<and> orderNo (wpool st') ! i = orderNo (wpool st) ! i)"

lemma caught_up_trans: "caught_up a b \<Longrightarrow> caught_up b c \<Longrightarrow> caught_up a c"
  unfolding caught_up_def by (metis order_trans)

lemma gone_drains:
  assumes "draining st" "ready (wpool st) i" "gone i (wpool st) st st'"
  shows "draining st'" "effort st' < effort st" "caught_up st st'"
proof -
  let ?p = "wpool st"
  have p: "settled ?p" using assms(1) by (simp add: draining_def)
  note e = emptied_settled [OF p assms(2)]
  have g: "wpool st' = emptied i ?p" "room_for_ants (sink st')" "length (io st) \<le> 7 + length (io st')"
    "lastOrd st \<le> lastOrd st'" "orderNo ?p ! i \<le> lastOrd st'" using assms(3) by (auto simp: gone_def)
  have pos: "0 < lastOrd st'" using g(5) assms(2) by (simp add: ready_def)
  have "7 * ready_count (wpool st') \<le> length (io st')"
    using e(2) g(1,3) assms(1) unfolding draining_def by (metis (no_types, lifting) add_le_cancel_left le_trans mult_Suc_right)
  then show "draining st'" using e(1) g(1,2) pos by (simp add: draining_def)
  have "ready_count ?p = Suc (ready_count (wpool st'))" using e(2) g(1) by simp
  then show "effort st' < effort st" by (simp add: effort_def)
  show "caught_up st st'" unfolding caught_up_def g(1) using g(4,5) e(3,5) by metis
qed

lemma quiet_pass_drains:
  assumes "draining st" "0 < ready_count (wpool st)"
  shows "fails_or (\<lambda>st'. draining st' \<and> effort st' < effort st \<and> caught_up st st')
    (file_writer_pass [(\<lambda>p. p, False)] (\<lambda>p. p) (\<lambda>held p. p) st)"
proof -
  let ?p = "wpool st"
  have p: "settled ?p" using assms(1) by (simp add: draining_def)
  obtain i where i: "fetchBuffer [(\<lambda>p. p, False)] (\<lambda>p. p) ?p = Inr (Some (int i, orderNo ?p ! i, dataLen ?p ! i), took i ?p, [])"
    "ready ?p i" "\<And>j. ready ?p j \<Longrightarrow> orderNo ?p ! i \<le> orderNo ?p ! j" by (rule rest_fetch [OF p assms(2)]) blast
  let ?st = "set_wpool (took i ?p) st"
  have first: "orderNo ?p ! i = 1" if z: "lastOrd st = 0"
  proof -
    obtain j where "ready ?p j" "orderNo ?p ! j = 1" using assms z by (auto simp: draining_def)
    then show ?thesis using i(2) i(3) [of j] by (auto simp: ready_def)
  qed
  have io: "7 \<le> length (io ?st)" using assms by (simp add: draining_def set_wpool_def)
  have s: "wpool ?st = took i ?p" "room_for_ants (sink ?st)" "0 \<le> lastOrd ?st" "lastOrd ?st = 0 \<longrightarrow> orderNo ?p ! i = 1"
    using assms(1) first by (auto simp: set_wpool_def wpool_def draining_def room_for_ants_def)
  have "fails_or (\<lambda>st'. draining st' \<and> effort st' < effort st \<and> caught_up st st')
      (handle_block (\<lambda>held p. p) (int i) (orderNo ?p ! i) (dataLen ?p ! i) ?st)"
  proof (rule fails_or_mono [OF handle_block_returns [OF p i(2) s(1,2) refl io s(3,4)]], elim disjE conjE)
    fix st' assume "gone i ?p ?st st'"
    then have "gone i ?p st st'" by (simp add: gone_def set_wpool_def)
    then show "draining st' \<and> effort st' < effort st \<and> caught_up st st'" using gone_drains [OF assms(1) i(2)] by simp
  next
    fix st' assume b: "lastOrd ?st \<noteq> 0" "nMisses ?st < MAX_ORDER_MISSES" "st' = set_wpool ?p (?st\<lparr>nMisses := Suc (nMisses ?st)\<rparr>)"
    then have "st' = st\<lparr>nMisses := Suc (nMisses st)\<rparr>" by (simp add: set_wpool_def wpool_def)
    then show "draining st' \<and> effort st' < effort st \<and> caught_up st st'"
      using b assms(1) by (auto simp: draining_def effort_def caught_up_def wpool_def set_wpool_def)
  qed
  then show ?thesis by (simp add: file_writer_pass_def i(1))
qed

lemma quiet_main_drains:
  "draining st \<Longrightarrow> effort st < n \<Longrightarrow>
   fails_or (\<lambda>st'. settled (wpool st') \<and> ready_count (wpool st') = 0 \<and> caught_up st st') (file_writer_main (replicate n quiet) st)"
proof (induction n arbitrary: st)
  case (Suc n)
  have r: "anyBufFull (wpool st) = ready_count (wpool st)" using Suc.prems(1) by (simp add: anyBufFull_def draining_def settled_def)
  show ?case
  proof (cases "ready_count (wpool st) = 0")
    case True
    then show ?thesis using r Suc.prems(1) by (simp add: quiet_def draining_def caught_up_def)
  next
    case False
    then have pos: "0 < ready_count (wpool st)" by simp
    have "fails_or (\<lambda>st'. settled (wpool st') \<and> ready_count (wpool st') = 0 \<and> caught_up st st')
        (cbind (file_writer_pass [(\<lambda>p. p, False)] (\<lambda>p. p) (\<lambda>held p. p) st) (file_writer_main (replicate n quiet)))"
    proof (rule fails_or_bind [OF quiet_pass_drains [OF Suc.prems(1) pos]])
      fix st1 assume s: "draining st1 \<and> effort st1 < effort st \<and> caught_up st st1"
      from Suc.IH [of st1] s Suc.prems(2) show "fails_or (\<lambda>st'. settled (wpool st') \<and> ready_count (wpool st') = 0 \<and> caught_up st st')
          (file_writer_main (replicate n quiet) st1)" by (auto intro: fails_or_mono caught_up_trans)
    qed
    then show ?thesis using False r by (simp add: quiet_def)
  qed
qed simp

text \<open>Before its first block the writer puts back every other block, without end.\<close>

lemma quiet_pass_waits:
  assumes "settled (wpool st)" "lastOrd st = 0" "0 < ready_count (wpool st)" "\<And>i. ready (wpool st) i \<Longrightarrow> orderNo (wpool st) ! i \<noteq> 1"
  shows "file_writer_pass [(\<lambda>p. p, False)] (\<lambda>p. p) (\<lambda>held p. p) st = Inr (st\<lparr>nMisses := Suc (nMisses st)\<rparr>)"
proof -
  let ?p = "wpool st"
  obtain i where i: "fetchBuffer [(\<lambda>p. p, False)] (\<lambda>p. p) ?p = Inr (Some (int i, orderNo ?p ! i, dataLen ?p ! i), took i ?p, [])"
    "ready ?p i" by (rule rest_fetch [OF assms(1,3)]) blast
  have "0 < orderNo ?p ! i" "orderNo ?p ! i \<noteq> 1" using i(2) assms(4) by (auto simp: ready_def)
  then show ?thesis using put_back [OF assms(1) i(2)] i(1) assms(2)
    by (simp add: file_writer_pass_def handle_block_def set_wpool_def wpool_def)
qed

lemma quiet_main_waits:
  assumes "settled (wpool st)" "lastOrd st = 0" "0 < ready_count (wpool st)" "\<And>i. ready (wpool st) i \<Longrightarrow> orderNo (wpool st) ! i \<noteq> 1"
  shows "file_writer_main (replicate n quiet) st = Inl Blocked"
  using assms
proof (induction n arbitrary: st)
  case (Suc n)
  let ?st = "st\<lparr>nMisses := Suc (nMisses st)\<rparr>"
  have w: "wpool ?st = wpool st" by (simp add: wpool_def)
  have "anyBufFull (wpool st) \<noteq> 0" using Suc.prems(1,3) by (simp add: anyBufFull_def settled_def)
  then show ?case using quiet_pass_waits [OF Suc.prems] Suc.IH [of ?st] Suc.prems by (simp add: quiet_def w)
qed simp

lemma rest_settled:
  assumes "pool_reach S" "claimed S = {}"
  shows "settled (pool S)"
  using pool_reach_inv [OF assms(1)] assms(2)
  by (auto simp: settled_def pool_inv_def owners_inv_def slot_status_def)

text \<open>
  C11: the file writer ends. When the recorder is to stop and the other threads are at rest, and the
  writer has written a block before or the first block is among the ready ones, it ends within 202
  passes per ready block and 202 more, whatever the results of its system calls are (seven per block
  are enough): a call has failed, or no block is ready any more and every block that was ready is not
  newer than the last one written. But when it has written nothing and the first block is not
  there, the ready blocks are fetched and put back forever.
\<close>

theorem writer_ends_or_spins:
  assumes "pool_reach S" "claimed S = {}" "wpool st = pool S" "unat (nAnts (sink st)) \<le> length (antNumbers (sink st))"
    "0 \<le> lastOrd st" "7 * ready_count (pool S) \<le> length (io st)" "202 * (ready_count (pool S) + 1) \<le> n"
  shows "(lastOrd st \<noteq> 0 \<or> (\<exists>i<noBuffers (pool S). orderNo (pool S) ! i = 1) \<longrightarrow>
      file_writer_main (replicate n quiet) st \<in> {Inl (Fatal ''open''), Inl (Fatal ''write'')} \<or>
      (\<exists>st'. file_writer_main (replicate n quiet) st = Inr st' \<and> (\<forall>i<noBuffers (wpool st'). orderNo (wpool st') ! i \<le> 0) \<and>
        (\<forall>i<noBuffers (pool S). 0 < orderNo (pool S) ! i \<longrightarrow> orderNo (pool S) ! i \<le> lastOrd st'))) \<and>
    (lastOrd st = 0 \<and> 0 < ready_count (pool S) \<and> (\<forall>i<noBuffers (pool S). orderNo (pool S) ! i \<noteq> 1) \<longrightarrow>
      file_writer_main (replicate n quiet) st = Inl Blocked)"
proof (intro conjI impI)
  have p: "settled (wpool st)" using rest_settled [OF assms(1,2)] assms(3) by simp
  assume "lastOrd st \<noteq> 0 \<or> (\<exists>i<noBuffers (pool S). orderNo (pool S) ! i = 1)"
  then have d: "draining st" using p assms(3-6) by (auto simp: draining_def room_for_ants_def ready_def)
  have "effort st < n" using assms(3,7) by (simp add: effort_def cconst)
  from quiet_main_drains [OF d this]
  show "file_writer_main (replicate n quiet) st \<in> {Inl (Fatal ''open''), Inl (Fatal ''write'')} \<or>
      (\<exists>st'. file_writer_main (replicate n quiet) st = Inr st' \<and> (\<forall>i<noBuffers (wpool st'). orderNo (wpool st') ! i \<le> 0) \<and>
        (\<forall>i<noBuffers (pool S). 0 < orderNo (pool S) ! i \<longrightarrow> orderNo (pool S) ! i \<le> lastOrd st'))"
    unfolding fails_or_def
  proof (elim disjE exE conjE)
    fix st' assume st': "file_writer_main (replicate n quiet) st = Inr st'" "settled (wpool st')" "ready_count (wpool st') = 0" "caught_up st st'"
    have none: "\<not> ready (wpool st') i" for i using ready_count_pos [OF st'(2)] st'(3) by auto
    then have "\<forall>i<noBuffers (wpool st'). orderNo (wpool st') ! i \<le> 0" by (metis not_less ready_def)
    moreover have "\<forall>i<noBuffers (pool S). 0 < orderNo (pool S) ! i \<longrightarrow> orderNo (pool S) ! i \<le> lastOrd st'"
      using st'(4) none by (auto simp: caught_up_def assms(3) ready_def)
    ultimately show ?thesis using st'(1) by blast
  qed simp
next
  assume "lastOrd st = 0 \<and> 0 < ready_count (pool S) \<and> (\<forall>i<noBuffers (pool S). orderNo (pool S) ! i \<noteq> 1)"
  then show "file_writer_main (replicate n quiet) st = Inl Blocked"
    using quiet_main_waits [of st n] rest_settled [OF assms(1,2)] assms(3) by (auto simp: ready_def)
qed

text \<open>One ready block, published under the order 1 or 2 by the thread that held the buffer.\<close>

definition one_ready :: "int \<Rightarrow> udpBuffStruct" where
  "one_ready ord = \<lparr>bufData = [[1]], dataLen = [1], orderNo = [ord], NReady = 1, noBuffers = 1\<rparr>"

lemma one_ready_reach:
  assumes "0 < ord" "ord < INT_MAX"
  shows "pool_reach \<lparr>pool = one_ready ord, held = (\<lambda>_. {}), claimed = {}\<rparr>"
proof -
  let ?S = "\<lparr>pool = \<lparr>bufData = [[1]], dataLen = [0], orderNo = [-1], NReady = 0, noBuffers = 1\<rparr>,
    held = (\<lambda>_. {})(5 := {0}), claimed = {}\<rparr> :: pool_sys"
  have "pool_step 5 ?S (?S\<lparr>pool := one_ready ord, held := (held ?S)(5 := held ?S 5 - {0})\<rparr>)"
    by (rule pool_step.publish [of _ _ _ ord 1]) (use assms in \<open>simp_all add: returnBuffer_def one_ready_def\<close>)
  moreover have "(held ?S)(5 := held ?S 5 - {0}) = (\<lambda>_. {})" by auto
  ultimately show ?thesis using pool_reach.step [OF pool_reach_example] by simp
qed

definition last_writer :: "int \<Rightarrow> file_writer" where
  "last_writer ord = \<lparr>sink = example_sink\<lparr>udpBuff := one_ready ord\<rparr>, part = ''x'', consec_file = 0, nMisses = 0, lastOrd = 0,
     cur = [], disk = Map.empty, io = [3, 4, 4, 4, 4, 8, 1]\<rparr>"

theorem writer_ends_or_spins_witness:
  "(\<exists>st'. file_writer_main (replicate 404 quiet) (last_writer 1) = Inr st' \<and> 1 \<le> lastOrd st') \<and>
    file_writer_main (replicate 404 quiet) (last_writer 2) = Inl Blocked"
proof -
  have r: "pool_reach \<lparr>pool = one_ready 1, held = (\<lambda>_. {}), claimed = {}\<rparr>" "pool_reach \<lparr>pool = one_ready 2, held = (\<lambda>_. {}), claimed = {}\<rparr>"
    by (rule one_ready_reach; simp add: INT_MAX_def)+
  have rc: "ready_count (one_ready ord) = 1" if "0 < ord" for ord using that by (simp add: ready_count_def one_ready_def)
  have "404 = Suc (Suc 402)" by simp
  then have "file_writer_main (replicate 404 quiet) (last_writer 1) \<notin> {Inl (Fatal ''open''), Inl (Fatal ''write'')}"
    by (simp only: replicate_Suc) (simp add: quiet_def last_writer_def one_ready_def file_writer_pass_def fetchBuffer_def fetchBuffer_poll_def fetchBuffer_pick_def
      findLowest_def findLowest_loop.simps wpool_def set_wpool_def example_sink_def handle_block_def write_block_def
      start_file_def sys_open_def writeHeader_def sys_write_def short_write_def ants_bytes_def anyBufFull_def
      returnEmptyBuffer_def cconst Let_def)
  moreover have w: "wpool (last_writer ord) = one_ready ord" "io (last_writer ord) = [3, 4, 4, 4, 4, 8, 1]" "lastOrd (last_writer ord) = 0"
    "unat (nAnts (sink (last_writer ord))) \<le> length (antNumbers (sink (last_writer ord)))" for ord
    by (simp_all add: last_writer_def wpool_def example_sink_def)
  moreover have o: "orderNo (one_ready ord) = [ord]" "noBuffers (one_ready ord) = 1" for ord by (simp_all add: one_ready_def)
  moreover note writer_ends_or_spins [OF r(1), of "last_writer 1" 404] writer_ends_or_spins [OF r(2), of "last_writer 2" 404]
  ultimately show ?thesis using rc [of 1] rc [of 2] by auto
qed


section \<open>The main thread waits\<close>

text \<open>
  Where the main thread is between the start of the threads and their joins: before the test of
  \<^verbatim>\<open>keep_going\<close>, between the test and the call of \<^verbatim>\<open>pause\<close>, inside \<^verbatim>\<open>pause\<close>, and past the
  loop. It is the only thread in which SIGINT is not blocked.
\<close>

datatype main_at = AtTest | AtPause | Paused | Joining

record main_thread =
  running :: bool
  main_at :: main_at

text \<open>
  What can happen: the main thread takes its next step, another thread stores 0 in
  \<^verbatim>\<open>keep_going\<close>, or SIGINT is delivered and the handler runs, after which \<^verbatim>\<open>pause\<close> returns.
\<close>

datatype main_event = MainMoves | Clears | Signal

fun main_step :: "main_event \<Rightarrow> main_thread \<Rightarrow> main_thread" where
  "main_step MainMoves m = (case main_at m of
     AtTest \<Rightarrow> m\<lparr>main_at := if running m then AtPause else Joining\<rparr>
   | AtPause \<Rightarrow> m\<lparr>main_at := Paused\<rparr>
   | Paused \<Rightarrow> m
   | Joining \<Rightarrow> m)"
| "main_step Clears m = m\<lparr>running := False\<rparr>"
| "main_step Signal m =
     m\<lparr>running := inthandler (running m), main_at := if main_at m = Paused then AtTest else main_at m\<rparr>"

definition main_wait :: "main_event list \<Rightarrow> main_thread \<Rightarrow> main_thread" where
  "main_wait evs m = fold main_step evs m"

definition main_start :: main_thread where
  "main_start = \<lparr>running = True, main_at = AtTest\<rparr>"

text \<open>What the main thread sees of the receive thread's end.\<close>

fun stop_events :: "stop_flag \<Rightarrow> main_event list" where
  "stop_events KeepGoing = []"
| "stop_events Cleared = [Clears]"
| "stop_events Interrupted = [Signal]"

lemma main_wait_simps [simp]:
  "main_wait [] m = m" "main_wait (e # evs) m = main_wait evs (main_step e m)"
  "main_wait (evs @ evs') m = main_wait evs' (main_wait evs m)"
  by (simp_all add: main_wait_def)

text \<open>The loop is left only with the flag cleared, which is never set again.\<close>

lemma main_joins_when_stopped:
  assumes "main_at m = Joining \<longrightarrow> \<not> running m"
  shows "main_at (main_wait evs m) = Joining \<longrightarrow> \<not> running (main_wait evs m)"
  using assms
proof (induction evs arbitrary: m)
  case (Cons e evs)
  have "main_at (main_step e m) = Joining \<longrightarrow> \<not> running (main_step e m)"
    using Cons.prems by (cases e) (auto simp: inthandler_def split: main_at.splits)
  from Cons.IH [OF this] show ?case by simp
qed simp

text \<open>Without a signal the main thread does not come out of \<^verbatim>\<open>pause\<close>, nor past a call it is about to make.\<close>

lemma asleep_without_signal:
  assumes "Signal \<notin> set evs" "main_at m \<in> {AtPause, Paused}"
  shows "main_at (main_wait evs m) \<in> {AtPause, Paused}"
  using assms
proof (induction evs arbitrary: m)
  case (Cons e evs)
  have "main_at (main_step e m) \<in> {AtPause, Paused}"
    using Cons.prems by (cases e) (auto split: main_at.splits)
  then show ?case using Cons by simp
qed simp

lemma joins_after_signal:
  assumes "\<not> running m" "main_at m = Joining \<or> main_at m = AtTest \<and> MainMoves \<in> set evs"
  shows "main_at (main_wait evs m) = Joining"
  using assms
proof (induction evs arbitrary: m)
  case (Cons e evs)
  have "\<not> running (main_step e m)"
    "main_at (main_step e m) = Joining \<or> main_at (main_step e m) = AtTest \<and> MainMoves \<in> set evs"
    using Cons.prems by (cases e; auto simp: inthandler_def)+
  then show ?case using Cons.IH by simp
qed simp

text \<open>The receive thread's end in its first pass, after at least one full datagram.\<close>

lemma receiver_stops:
  assumes "pool_wf s" "k < noBuffers s" "orderNo s ! k = 0"
    "\<forall>b\<in>set (bufData s). UDP_BUFFER_SIZE \<le> length b"
    "full_datagrams ds" "length ds < N_READS_DEFAULT" "ds \<noteq> []"
    "r = RecvError \<or> r = Datagram bad \<and> bad \<noteq> [] \<and> length bad < RX_MSG_LEN"
  shows "\<exists>s'. udp_recv_work (sockfd, reuse, rcvbuf, timeo, bnd) True
      [(True, \<lambda>p. p, \<lambda>held p. p), (False, before, during)] (map Datagram ds @ r # rs) s =
    Inr (initSocket sockfd reuse rcvbuf timeo bnd, if r = RecvError then Interrupted else Cleared, s')"
proof -
  have le: "length ds \<le> N_READS_DEFAULT" using assms(6) by simp
  have "\<exists>s'. udp_recv_pass (\<lambda>held p. p) (map Datagram ds @ r # rs) 1 KeepGoing s =
      Inr (rs, 2, if r = RecvError then Interrupted else Cleared, s')"
    by (rule udp_recv_pass_full [OF assms(1-5) le, of "r # rs" 1 KeepGoing])
      (use assms(6-8) in \<open>auto simp: udp_loop_stops returnBuffer_def Let_def numeral_2_eq_2\<close>)
  then show ?thesis by (auto simp: udp_recv_work_def Let_def)
qed

text \<open>
  C32: how the recorder stops, as the main thread sees it. When the receive thread, after a first
  full datagram, ends on an error of \<^verbatim>\<open>recvfrom\<close> (the timeout), the signal it sends brings the main
  thread out of \<^verbatim>\<open>pause\<close> to the joins; when it ends on a datagram of the wrong size, it clears
  \<^verbatim>\<open>keep_going\<close> without a signal, and the main thread in, or on its way into, \<^verbatim>\<open>pause\<close> stays there
  whatever else the threads do: the recorder hangs until somebody sends SIGINT. A signal between the
  test and the call of \<^verbatim>\<open>pause\<close> is lost in the same way, but two signals, the main thread taking a
  step after each, always end the wait. The main thread joins the others only after the flag is
  cleared.
\<close>

theorem main_thread_wakes_iff_signalled:
  assumes "pool_wf s" "k < noBuffers s" "orderNo s ! k = 0"
    "\<forall>b\<in>set (bufData s). UDP_BUFFER_SIZE \<le> length b"
    "full_datagrams ds" "length ds < N_READS_DEFAULT" "ds \<noteq> []" "bad \<noteq> []" "length bad < RX_MSG_LEN"
    "Signal \<notin> set evs" "MainMoves \<in> set evs"
  shows "(\<forall>r\<in>{RecvError, Datagram bad}. \<exists>socket flag s'.
      udp_recv_work calls True [(True, \<lambda>p. p, \<lambda>held p. p), (False, before, during)] (map Datagram ds @ r # rs) s =
        Inr (socket, flag, s') \<and>
      (main_at (main_wait (stop_events flag @ evs) (main_wait [MainMoves, MainMoves] main_start)) = Joining \<longleftrightarrow> r = RecvError)) \<and>
    (\<forall>flag. main_at (main_wait (stop_events flag @ evs) (main_wait [MainMoves] main_start)) \<noteq> Joining) \<and>
    main_at (main_wait [Signal, MainMoves, Signal, MainMoves] m) = Joining \<and>
    (main_at (main_wait evs' main_start) = Joining \<longrightarrow> \<not> running (main_wait evs' main_start))"
proof (intro conjI)
  obtain a b c d e where calls: "calls = (a, b, c, d, e)" by (cases calls)
  have "main_at (main_wait (stop_events Interrupted @ evs) (main_wait [MainMoves, MainMoves] main_start)) = Joining"
    using joins_after_signal [of "\<lparr>running = False, main_at = AtTest\<rparr>" evs] assms(11)
    by (simp add: main_start_def inthandler_def)
  moreover have "main_at (main_wait (stop_events Cleared @ evs) (main_wait [MainMoves, MainMoves] main_start)) \<noteq> Joining"
    using asleep_without_signal [OF assms(10), of "\<lparr>running = False, main_at = Paused\<rparr>"] by (auto simp: main_start_def)
  ultimately have w: "main_at (main_wait (stop_events (if r = RecvError then Interrupted else Cleared) @ evs)
      (main_wait [MainMoves, MainMoves] main_start)) = Joining \<longleftrightarrow> r = RecvError" for r by simp
  show "\<forall>r\<in>{RecvError, Datagram bad}. \<exists>socket flag s'.
      udp_recv_work calls True [(True, \<lambda>p. p, \<lambda>held p. p), (False, before, during)] (map Datagram ds @ r # rs) s =
        Inr (socket, flag, s') \<and>
      (main_at (main_wait (stop_events flag @ evs) (main_wait [MainMoves, MainMoves] main_start)) = Joining \<longleftrightarrow> r = RecvError)"
  proof
    fix r assume "r \<in> {RecvError, Datagram bad}"
    then have "r = RecvError \<or> r = Datagram bad \<and> bad \<noteq> [] \<and> length bad < RX_MSG_LEN" using assms(8,9) by blast
    from receiver_stops [OF assms(1-7) this, of a b c d e before during rs] show "\<exists>socket flag s'.
      udp_recv_work calls True [(True, \<lambda>p. p, \<lambda>held p. p), (False, before, during)] (map Datagram ds @ r # rs) s =
        Inr (socket, flag, s') \<and>
      (main_at (main_wait (stop_events flag @ evs) (main_wait [MainMoves, MainMoves] main_start)) = Joining \<longleftrightarrow> r = RecvError)"
      unfolding calls using w by blast
  qed
  have "main_at (main_wait evs \<lparr>running = b, main_at = AtPause\<rparr>) \<noteq> Joining" for b
    using asleep_without_signal [OF assms(10), of "\<lparr>running = b, main_at = AtPause\<rparr>"] by auto
  then show "\<forall>flag. main_at (main_wait (stop_events flag @ evs) (main_wait [MainMoves] main_start)) \<noteq> Joining"
    by (intro allI, case_tac flag) (simp_all add: main_start_def inthandler_def)
  show "main_at (main_wait [Signal, MainMoves, Signal, MainMoves] m) = Joining"
    by (cases "main_at m") (simp_all add: inthandler_def)
  show "main_at (main_wait evs' main_start) = Joining \<longrightarrow> \<not> running (main_wait evs' main_start)"
    by (rule main_joins_when_stopped) (simp add: main_start_def)
qed

theorem main_thread_wakes_iff_signalled_witness:
  "\<exists>socket flag s'. udp_recv_work (3, 0, 0, 0, 0) True
      [(True, \<lambda>p. p, \<lambda>held p. p), (False, \<lambda>p. p, \<lambda>held p. p)]
      (map Datagram [replicate 8200 7] @ Datagram [1] # [])
      \<lparr>bufData = [replicate 1000000000 0], dataLen = [0], orderNo = [0], NReady = 0, noBuffers = 1\<rparr> =
    Inr (socket, flag, s') \<and>
    main_at (main_wait (stop_events flag @ [MainMoves]) (main_wait [MainMoves, MainMoves] main_start)) \<noteq> Joining"
proof -
  let ?s = "\<lparr>bufData = [replicate 1000000000 0], dataLen = [0], orderNo = [0], NReady = 0,
    noBuffers = 1\<rparr> :: udpBuffStruct"
  have h: "pool_wf ?s" "0 < noBuffers ?s" "orderNo ?s ! 0 = 0"
    "\<forall>b\<in>set (bufData ?s). UDP_BUFFER_SIZE \<le> length b"
    "full_datagrams [replicate 8200 7]" "length [replicate 8200 (7 :: u8)] < N_READS_DEFAULT"
    by (simp_all add: pool_wf_def full_datagrams_def cconst)
  have h': "[replicate 8200 (7 :: u8)] \<noteq> []" "[1 :: u8] \<noteq> []" "length [1 :: u8] < RX_MSG_LEN"
    "Signal \<notin> set [MainMoves]" "MainMoves \<in> set [MainMoves]"
    by (simp_all add: cconst)
  have "Datagram [1] \<in> {RecvError, Datagram [1]}" by simp
  from bspec [OF conjunct1 [OF main_thread_wakes_iff_signalled [OF h h', of "(3, 0, 0, 0, 0)" "\<lambda>p. p" "\<lambda>held p. p" "[]"]] this]
  obtain socket flag s' where r: "udp_recv_work (3, 0, 0, 0, 0) True [(True, \<lambda>p. p, \<lambda>held p. p), (False, \<lambda>p. p, \<lambda>held p. p)]
      (map Datagram [replicate 8200 7] @ Datagram [1] # []) ?s = Inr (socket, flag, s')"
    "main_at (main_wait (stop_events flag @ [MainMoves]) (main_wait [MainMoves, MainMoves] main_start)) \<noteq> Joining"
    by (elim exE conjE) (simp only: recv_result.distinct not_False_eq_True)
  show ?thesis by (intro exI conjI, rule r(1), rule r(2))
qed

end
