(* ===== verification/Converter.thy ===== *)
theory Converter
  imports File_Thread
begin

text \<open>
  The model of full_custom/converter.c: it reads a recorded file (header, then one time slot after
  the other), reorders the packets of a time slot from channel-major to time-major, in the 8-bit
  build also unpacks the 4-bit samples, and writes one data file and one text file per antenna.
  \<open>eight\<close> is the build flag \<^verbatim>\<open>MY_DO_EIGHTBITS\<close>. Files are byte lists: a \<^verbatim>\<open>read\<close> returns
  what is left up to the requested length, a \<^verbatim>\<open>write\<close> appends all its bytes.
\<close>

section \<open>Samples\<close>

text \<open>A byte holds a complex sample of two 4-bit numbers, the real part in the high nibble.\<close>

definition sample_re :: "u8 \<Rightarrow> u8" where
  "sample_re currsample =
     (let datare = signed_drop_bit 4 currsample
      in if datare AND 0x08 \<noteq> 0 then datare OR 0xf0 else datare)"

definition sample_im :: "u8 \<Rightarrow> u8" where
  "sample_im currsample =
     (let dataim = currsample AND 0x0f
      in if dataim AND 0x08 \<noteq> 0 then dataim OR 0xf0 else dataim)"

section \<open>Reordering a time slot\<close>

definition BYTES_PER_SAMPLE :: nat where [cconst]: "BYTES_PER_SAMPLE = POLS_PER_PACKET * CHANS_PER_PACKET"

definition BITS_MULTIPLAYER :: "bool \<Rightarrow> nat" where
  "BITS_MULTIPLAYER eight = (if eight then 2 else 1)"

definition BITS_NAME_STRING :: "bool \<Rightarrow> string" where
  "BITS_NAME_STRING eight = (if eight then ''8b'' else ''4b'')"

text \<open>The offsets are computed in unsigned 32-bit arithmetic, because \<^verbatim>\<open>nChanpkts\<close> is unsigned.\<close>

definition conv_in :: "u32 \<Rightarrow> nat \<Rightarrow> nat \<Rightarrow> nat \<Rightarrow> u32" where
  "conv_in nChanpkts iK iL iM =
     of_nat iK * (of_nat RX_DATA_LEN * nChanpkts) + of_nat iL * of_nat RX_DATA_LEN + of_nat iM * of_nat BYTES_PER_SAMPLE"

definition conv_out :: "u32 \<Rightarrow> nat \<Rightarrow> nat \<Rightarrow> u32" where
  "conv_out nChanpkts iL iM =
     of_nat iL * of_nat BYTES_PER_SAMPLE + of_nat iM * nChanpkts * of_nat BYTES_PER_SAMPLE"

text \<open>
  The innermost loop of the 8-bit build, over the samples from \<open>src\<close> to \<open>dst\<close>; the loop index is added
  in 32 bits too.
\<close>

fun unpack_loop :: "u8 list \<Rightarrow> u32 \<Rightarrow> u32 \<Rightarrow> nat list \<Rightarrow> u8 list \<Rightarrow> u8 list cres" where
  "unpack_loop datain src dst [] out = Inr out"
| "unpack_loop datain src dst (iN # iNs) out =
     (let indexin = unat (src + of_nat iN); indexout = unat (2 * (dst + of_nat iN)) in
      if indexin < length datain \<and> indexout + 1 < length out
      then unpack_loop datain src dst iNs
             (out[indexout := sample_re (datain ! indexin), indexout + 1 := sample_im (datain ! indexin)])
      else Inl Overrun)"

definition convert_step :: "bool \<Rightarrow> u8 list \<Rightarrow> u32 \<Rightarrow> nat \<times> nat \<times> nat \<Rightarrow> u8 list list \<Rightarrow> u8 list list cres" where
  "convert_step eight datain nChanpkts = (\<lambda>(iK, iL, iM) dataout.
     let src = unat (conv_in nChanpkts iK iL iM); dst = unat (conv_out nChanpkts iL iM) in
     if iK < length dataout then
       cbind (if eight then unpack_loop datain (conv_in nChanpkts iK iL iM) (conv_out nChanpkts iL iM) [0..<BYTES_PER_SAMPLE] (dataout ! iK)
              else if src + BYTES_PER_SAMPLE \<le> length datain
              then blit dst (peek src BYTES_PER_SAMPLE datain) (dataout ! iK) else Inl Overrun)
         (\<lambda>out. Inr (dataout[iK := out]))
     else Inl Overrun)"

fun convert_loop :: "bool \<Rightarrow> u8 list \<Rightarrow> u32 \<Rightarrow> (nat \<times> nat \<times> nat) list \<Rightarrow> u8 list list \<Rightarrow> u8 list list cres" where
  "convert_loop eight datain nChanpkts [] dataout = Inr dataout"
| "convert_loop eight datain nChanpkts (k # ks) dataout =
     cbind (convert_step eight datain nChanpkts k dataout) (convert_loop eight datain nChanpkts ks)"

definition convert :: "bool \<Rightarrow> u8 list \<Rightarrow> u8 list list \<Rightarrow> u32 \<Rightarrow> u32 \<Rightarrow> u8 list list cres" where
  "convert eight datain dataout na nChanpkts =
     convert_loop eight datain nChanpkts
       (List.product [0..<unat na] (List.product [0..<unat nChanpkts] [0..<SAMPLES_PER_PACKET])) dataout"

section \<open>The external header\<close>

definition MY_BUFFER_SIZE :: nat where [cconst]: "MY_BUFFER_SIZE = 4096"

text \<open>The copy loop; the state of a descriptor is what is left to read.\<close>

function write_ext_header :: "u8 list \<Rightarrow> u8 list \<Rightarrow> u8 list \<times> u8 list" where
  "write_ext_header out left_over =
     (let buf = take MY_BUFFER_SIZE left_over in
      if length buf > 0 then write_ext_header (out @ buf) (drop MY_BUFFER_SIZE left_over)
      else (out, left_over))"
  by pat_completeness auto
termination
  by (relation "measure (\<lambda>(out, left_over). length left_over)") (auto simp: MY_BUFFER_SIZE_def)

declare write_ext_header.simps [simp del]

section \<open>Reading the file header\<close>

record recording =
  rAnts :: u32
  rIDs :: "u32 list"
  rChanpkts :: u32
  rChanStart :: u32
  rPktStart :: u64

definition read_exact :: "nat \<Rightarrow> u8 list \<Rightarrow> (u8 list \<times> u8 list) cres" where
  "read_exact n bytes = (if length bytes < n then Inl (Fatal ''read header'') else Inr (take n bytes, drop n bytes))"

fun words_of :: "nat \<Rightarrow> u8 list \<Rightarrow> u32 list" where
  "words_of 0 bytes = []"
| "words_of (Suc n) bytes = le_word (take 4 bytes) # words_of n (drop 4 bytes)"

text \<open>\<open>antIDs\<close> has room for \<^verbatim>\<open>MAX_NO_ANTS\<close> numbers; the count is tested only after the reads.\<close>

definition read_header :: "u8 list \<Rightarrow> (recording \<times> u8 list) cres" where
  "read_header bytes =
     cbind (read_exact 4 bytes) (\<lambda>(a, bytes1).
     let n = unat (le_word a :: u32) in
     if min (4 * n) (length bytes1) > 4 * MAX_NO_ANTS then Inl Overrun else
     cbind (read_exact (4 * n) bytes1) (\<lambda>(ids, bytes2).
     cbind (read_exact 4 bytes2) (\<lambda>(nc, bytes3).
     cbind (read_exact 4 bytes3) (\<lambda>(cs, bytes4).
     cbind (read_exact 8 bytes4) (\<lambda>(ps, bytes5).
       Inr (\<lparr>rAnts = le_word a, rIDs = words_of n ids, rChanpkts = le_word nc, rChanStart = le_word cs,
         rPktStart = le_word ps\<rparr>, bytes5))))))"

section \<open>The program\<close>

definition inBufferLen :: "recording \<Rightarrow> nat" where
  "inBufferLen r = RX_DATA_LEN * unat (rAnts r) * unat (rChanpkts r)"

definition outBufferLen :: "bool \<Rightarrow> recording \<Rightarrow> nat" where
  "outBufferLen eight r = RX_DATA_LEN * unat (rChanpkts r) * BITS_MULTIPLAYER eight"

text \<open>
  The main loop. \<open>None\<close> is a loop that never ends. \<open>dataout\<close> are the conversion buffers, \<open>files\<close> the
  contents of the data files.
\<close>

partial_function (option) convert_file ::
  "bool \<Rightarrow> recording \<Rightarrow> u8 list \<Rightarrow> u8 list list \<Rightarrow> u8 list list \<Rightarrow> (u8 list list) cres option" where
  "convert_file eight r rest dataout files =
     (if length (take (inBufferLen r) rest) < inBufferLen r then Some (Inr files)
      else (case convert eight (take (inBufferLen r) rest) dataout (rAnts r) (rChanpkts r) of
              Inl e \<Rightarrow> Some (Inl e)
            | Inr dataout' \<Rightarrow> convert_file eight r (drop (inBufferLen r) rest) dataout'
                (map (\<lambda>iK. if iK < unat (rAnts r) then files ! iK @ dataout' ! iK else files ! iK) [0..<length files])))"

text \<open>The text file and the names of the files of an antenna.\<close>

definition out_name :: "bool \<Rightarrow> string \<Rightarrow> u32 \<Rightarrow> string \<Rightarrow> string" where
  "out_name eight fnamePart ant ext = fnamePart @ ''_'' @ BITS_NAME_STRING eight @ ''_ant'' @ dec (unat ant) @ ext"

definition text_file :: "recording \<Rightarrow> u32 \<Rightarrow> string" where
  "text_file r ant = ''antenna: '' @ dec (unat ant) @ [char_of (10 :: nat)] @
     ''chan_start: '' @ dec (unat (rChanStart r)) @ [char_of (10 :: nat)] @
     ''no_chan: '' @ dec (unat (of_nat CHANS_PER_PACKET * rChanpkts r)) @ [char_of (10 :: nat)] @
     ''pkt_start: '' @ dec (unat (rPktStart r)) @ [char_of (10 :: nat)]"

text \<open>The external header goes to the antennas in turn, through one descriptor.\<close>

fun open_outputs :: "u32 list \<Rightarrow> u8 list option \<Rightarrow> u8 list list" where
  "open_outputs [] h = []"
| "open_outputs (ant # ids) None = [] # open_outputs ids None"
| "open_outputs (ant # ids) (Some left_over) =
     (case write_ext_header [] left_over of (out, left') \<Rightarrow> out # open_outputs ids (Some left'))"

datatype conv_result = Usage | NameTooLong | NotBin | TooManyAnts | Converted "(string \<times> string \<times> string \<times> u8 list) list"

definition PATH_MAX :: nat where [cconst]: "PATH_MAX = 4096"

text \<open>
  \<open>open_file\<close> gives the content of a file or \<open>None\<close>; \<open>junk\<close> is what the allocator returns. The
  result has, per antenna, the text file's name and content and the data file's name and content.
\<close>

definition converter_main ::
  "bool \<Rightarrow> (string \<Rightarrow> u8 list option) \<Rightarrow> (nat \<Rightarrow> u8 list) \<Rightarrow> string list \<Rightarrow> conv_result cres option" where
  "converter_main eight open_file junk argv =
     (if length argv \<noteq> 2 \<and> length argv \<noteq> 3 then Some (Inr Usage)
      else if length argv = 3 \<and> open_file (argv ! 2) = None then Some (Inl (Fatal ''open''))
      else let fname = argv ! 1; namelen = length fname in
      if namelen + 20 > PATH_MAX then Some (Inr NameTooLong)
      else if namelen < 4 \<or> drop (namelen - 4) fname \<noteq> ''.bin'' then Some (Inr NotBin)
      else (case open_file fname of None \<Rightarrow> Some (Inl (Fatal ''open''))
      | Some bytes \<Rightarrow>
        (case read_header bytes of Inl e \<Rightarrow> Some (Inl e)
         | Inr (r, rest) \<Rightarrow>
           if rAnts r \<ge> of_nat MAX_NO_ANTS then Some (Inr TooManyAnts)
           else let part = take (namelen - 4) fname;
                    hdrs = open_outputs (rIDs r) (if length argv = 3 then open_file (argv ! 2) else None);
                    dataout = map (\<lambda>iK. junk (outBufferLen eight r)) [0..<unat (rAnts r)]
                in map_option (\<lambda>res. cbind res (\<lambda>files. Inr (Converted
                     (map (\<lambda>iK. (out_name eight part (rIDs r ! iK) ''.txt'', text_file r (rIDs r ! iK),
                        out_name eight part (rIDs r ! iK) ''.bin'', files ! iK)) [0..<unat (rAnts r)]))))
                   (convert_file eight r rest dataout hdrs))))"

section \<open>Unpacking samples\<close>

lemma bit_masks:
  "bit (0xf0 :: int) n \<longleftrightarrow> 4 \<le> n \<and> n < 8" "bit (0x0f :: int) n \<longleftrightarrow> n < 4" "bit (0x08 :: int) n \<longleftrightarrow> n = 3"
proof -
  have m: "(0xf0 :: int) = push_bit 4 (mask 4)" "(0x0f :: int) = mask 4" "(0x08 :: int) = push_bit 3 1"
    by (simp_all add: mask_eq_exp_minus_1)
  show "bit (0xf0 :: int) n \<longleftrightarrow> 4 \<le> n \<and> n < 8" unfolding m bit_push_bit_iff bit_mask_iff by auto
  show "bit (0x0f :: int) n \<longleftrightarrow> n < 4" unfolding m bit_mask_iff by auto
  show "bit (0x08 :: int) n \<longleftrightarrow> n = 3" unfolding m bit_push_bit_iff bit_1_iff by auto
qed

lemma bit_and_8: "(w AND 0x08 \<noteq> 0) \<longleftrightarrow> bit (w :: u8) 3"
proof -
  have "bit (w AND 0x08) n \<longleftrightarrow> n = 3 \<and> bit w 3" for n by (auto simp: bit_and_iff bit_masks)
  then show ?thesis by (metis bit_0_eq bot_apply bot_bool_def bit_eqI)
qed

lemma bit_sample_re: "bit (sample_re b) n \<longleftrightarrow> n < 8 \<and> bit b (if n < 4 then n + 4 else 7)"
proof -
  have s: "bit (signed_drop_bit 4 b) m \<longleftrightarrow> m < 8 \<and> bit b (if m < 4 then m + 4 else 7)" for m
    using bit_imp_le_length [of b "4 + m"] by (auto simp: bit_signed_drop_bit_iff numeral_eq_Suc)
  show ?thesis unfolding sample_re_def Let_def bit_and_8 s
    by (auto simp: bit_or_iff bit_masks s)
qed

lemma bit_sample_im: "bit (sample_im b) n \<longleftrightarrow> n < 8 \<and> bit b (if n < 4 then n else 3)"
proof -
  have s: "bit (b AND 0x0f) k \<longleftrightarrow> k < 4 \<and> bit b k" for k by (auto simp: bit_and_iff bit_masks)
  show ?thesis unfolding sample_im_def Let_def bit_and_8 s by (auto simp: bit_or_iff bit_masks s)
qed

text \<open>
  The 8-bit build unpacks a byte into the two numbers it encodes: the real part is the high
  nibble and the imaginary part the low nibble, each read as a 4-bit two's complement number (so
  between -8 and 7), and the byte can be recovered from them.
\<close>

lemma samples_are_nibbles:
  "sint (sample_re b) = sint (ucast (drop_bit 4 b) :: 4 word) \<and> sint (sample_im b) = sint (ucast b :: 4 word) \<and>
   b = push_bit 4 (sample_re b) OR (sample_im b AND 0x0f)"
proof (intro conjI)
  show "sint (sample_re b) = sint (ucast (drop_bit 4 b) :: 4 word)"
    by (rule bit_eqI) (auto simp: bit_sint_iff bit_sample_re bit_simps add.commute not_less dest: bit_imp_le_length)
  show "sint (sample_im b) = sint (ucast b :: 4 word)"
    by (rule bit_eqI) (auto simp: bit_sint_iff bit_sample_im bit_simps not_less dest: bit_imp_le_length)
  show "b = push_bit 4 (sample_re b) OR (sample_im b AND 0x0f)"
    by (rule bit_eqI) (auto simp: bit_simps bit_masks bit_sample_re bit_sample_im dest: bit_imp_le_length)
qed

section \<open>Offsets\<close>

lemma unat_conv:
  assumes "unat n \<le> 32" "iK < 4" "iL < unat n" "iM < 16"
  shows "unat (conv_in n iK iL iM) = (iK * unat n + iL) * 8192 + iM * 512"
    "unat (conv_out n iL iM) = (iM * unat n + iL) * 512"
proof -
  have d: "iK * (8192 * unat n) \<le> 3 * (8192 * 32)" "iL * 8192 \<le> 31 * 8192" "iM * 512 \<le> 15 * 512" "iL * 512 \<le> 31 * 512"
    "iM * unat n \<le> 15 * 32"
    using assms mult_le_mono [of iK 3 "unat n" 32] mult_le_mono [of iM 15 "unat n" 32] by auto
  have u: "unat (of_nat iK :: u32) = iK" "unat (of_nat iL :: u32) = iL" "unat (of_nat iM :: u32) = iM"
    using assms by (intro unat_of_nat_small; simp)+
  have 1: "unat (8192 * n) = 8192 * unat n" using assms(1) by (subst unat_mult_small) simp_all
  have 2: "unat (of_nat iK * (8192 * n)) = iK * (8192 * unat n)"
    using d(1) u(1) 1 by (subst unat_mult_small) simp_all
  have 3: "unat (of_nat iL * 8192 :: u32) = iL * 8192" using d(2) u(2) by (subst unat_mult_small) simp_all
  have 4: "unat (of_nat iM * 512 :: u32) = iM * 512" using d(3) u(3) by (subst unat_mult_small) simp_all
  have 5: "unat (of_nat iK * (8192 * n) + of_nat iL * 8192) = iK * (8192 * unat n) + iL * 8192"
    using d(1,2) 2 3 by (subst unat_add_small) simp_all
  have "unat (of_nat iK * (8192 * n) + of_nat iL * 8192 + of_nat iM * 512) = iK * (8192 * unat n) + iL * 8192 + iM * 512"
    using d(1-3) 5 4 by (subst unat_add_small) simp_all
  then show "unat (conv_in n iK iL iM) = (iK * unat n + iL) * 8192 + iM * 512"
    by (simp add: conv_in_def cconst algebra_simps)
  have 6: "unat (of_nat iL * 512 :: u32) = iL * 512" using d(4) u(2) by (subst unat_mult_small) simp_all
  have 7: "unat (of_nat iM * n) = iM * unat n" using d(5) u(3) by (subst unat_mult_small) simp_all
  have 8: "unat (of_nat iM * n * 512) = iM * unat n * 512" using d(5) 7 by (subst unat_mult_small) simp_all
  have "unat (of_nat iL * 512 + of_nat iM * n * 512) = iL * 512 + iM * unat n * 512"
    using d(4,5) 6 8 by (subst unat_add_small) simp_all
  then show "unat (conv_out n iL iM) = (iM * unat n + iL) * 512"
    by (simp add: conv_out_def cconst algebra_simps)
qed

section \<open>One step of the conversion\<close>

definition unpacked :: "bool \<Rightarrow> u8 list \<Rightarrow> u8 list" where
  "unpacked eight bs = (if eight then concat (map (\<lambda>b. [sample_re b, sample_im b]) bs) else bs)"

lemma length_unpacked: "length (unpacked eight bs) = BITS_MULTIPLAYER eight * length bs"
  by (induction bs) (auto simp: unpacked_def BITS_MULTIPLAYER_def)

lemma unpacked_append: "unpacked eight (xs @ ys) = unpacked eight xs @ unpacked eight ys"
  by (simp add: unpacked_def)

lemma unpack_loop_append:
  "unpack_loop datain src dst (xs @ ys) out = cbind (unpack_loop datain src dst xs out) (unpack_loop datain src dst ys)"
  by (induction xs arbitrary: out) (auto simp: Let_def)

lemma peek_Suc: "src + Suc n \<le> length xs \<Longrightarrow> peek src (Suc n) xs = peek src n xs @ [xs ! (src + n)]"
  by (simp add: peek_def take_Suc_conv_app_nth)

lemma unpack_loop_blit:
  assumes "unat src + n \<le> length datain" "2 * (unat dst + n) \<le> length out" "unat src + n < 2 ^ 32" "2 * (unat dst + n) < 2 ^ 32"
  shows "unpack_loop datain src dst [0..<n] out = blit (2 * unat dst) (unpacked True (peek (unat src) n datain)) out"
  using assms
proof (induction n)
  case 0
  then show ?case by (simp add: peek_def unpacked_def blit_def)
next
  case (Suc n)
  define k where "k = 2 * (unat dst + n)"
  let ?pre = "take (2 * unat dst) out @ unpacked True (peek (unat src) n datain)" and ?b = "datain ! (unat src + n)"
  have nn: "unat (of_nat n :: u32) = n" using Suc.prems(3) by (intro unat_of_nat_small) simp
  have ui: "unat (src + of_nat n) = unat src + n" "unat (dst + of_nat n) = unat dst + n"
    using Suc.prems(3,4) nn by (subst unat_add_small; simp)+
  have uo: "unat (2 * (dst + of_nat n)) = k"
    using Suc.prems(4) ui(2) by (subst unat_mult_small) (simp_all add: k_def)
  have len: "length ?pre = k" "Suc k < length out" "unat src + n < length datain"
    using Suc.prems by (simp_all add: length_unpacked length_peek BITS_MULTIPLAYER_def k_def)
  have IH: "unpack_loop datain src dst [0..<n] out = Inr (?pre @ drop k out)"
    using Suc.IH Suc.prems by (simp add: blit_def length_unpacked length_peek BITS_MULTIPLAYER_def k_def)
  define rest where "rest = drop (Suc (Suc k)) out"
  have d: "drop k out = out ! k # out ! Suc k # rest"
    using len(2) by (simp add: Cons_nth_drop_Suc rest_def)
  have "(pre @ x # y # rest)[k := a, Suc k := c] = pre @ a # c # rest" if "length pre = k" for pre x y and a c :: u8
    using that by (simp add: list_update_append)
  note upd = this [OF len(1)]
  have "length (?pre @ drop k out) = length out" using len by simp
  then have "unpack_loop datain src dst [n] (?pre @ drop k out) =
      Inr ((?pre @ drop k out)[k := sample_re ?b, Suc k := sample_im ?b])"
    using len(2,3) by (simp only: unpack_loop.simps Let_def ui(1) uo Suc_eq_plus1 [symmetric]) simp
  also have "\<dots> = Inr (?pre @ sample_re ?b # sample_im ?b # rest)" unfolding d upd ..
  finally have "unpack_loop datain src dst [n] (?pre @ drop k out) = Inr (?pre @ sample_re ?b # sample_im ?b # rest)" .
  then have "unpack_loop datain src dst [0..<Suc n] out = Inr (?pre @ sample_re ?b # sample_im ?b # rest)"
    using IH by (simp add: unpack_loop_append)
  moreover have "unpacked True (peek (unat src) (Suc n) datain) = unpacked True (peek (unat src) n datain) @ [sample_re ?b, sample_im ?b]"
    using Suc.prems by (simp add: peek_Suc unpacked_append) (simp add: unpacked_def)
  ultimately show ?case using Suc.prems
    by (simp add: blit_def length_unpacked length_peek BITS_MULTIPLAYER_def rest_def k_def)
qed

section \<open>The layout of a converted time slot\<close>

definition spectrum_valid :: "nat \<Rightarrow> nat \<times> nat \<Rightarrow> bool" where
  "spectrum_valid n = (\<lambda>(iM, iL). iM < SAMPLES_PER_PACKET \<and> iL < n)"

definition spectrum_offset :: "bool \<Rightarrow> nat \<Rightarrow> nat \<times> nat \<Rightarrow> nat" where
  "spectrum_offset eight n = (\<lambda>(iM, iL). (iM * n + iL) * (BITS_MULTIPLAYER eight * BYTES_PER_SAMPLE))"

interpretation spectra: cell_layout "spectrum_valid n" "spectrum_offset eight n"
  "BITS_MULTIPLAYER eight * BYTES_PER_SAMPLE" "SAMPLES_PER_PACKET * n * (BITS_MULTIPLAYER eight * BYTES_PER_SAMPLE)" for n eight
proof unfold_locales
  fix k assume "spectrum_valid n k"
  then obtain iM iL where k: "k = (iM, iL)" "iM < SAMPLES_PER_PACKET" "iL < n" by (auto simp: spectrum_valid_def)
  let ?w = "BITS_MULTIPLAYER eight * BYTES_PER_SAMPLE"
  have "Suc (iM * n + iL) * ?w \<le> SAMPLES_PER_PACKET * n * ?w"
    using row_major_less [OF k(2,3)] by (intro mult_le_mono1) simp
  then show "spectrum_offset eight n k + ?w \<le> SAMPLES_PER_PACKET * n * ?w" by (simp add: k spectrum_offset_def)
next
  fix k k' assume v: "spectrum_valid n k" "spectrum_valid n k'" "k \<noteq> k'"
  obtain iM iL iM' iL' where k: "k = (iM, iL)" "k' = (iM', iL')" by (cases k, cases k')
  have "iM * n + iL \<noteq> iM' * n + iL'"
    using v row_major_inject [of iL n iL' iM iM'] by (auto simp: k spectrum_valid_def)
  from stride_separate [OF this, of "BITS_MULTIPLAYER eight * BYTES_PER_SAMPLE"]
  show "spectrum_offset eight n k + BITS_MULTIPLAYER eight * BYTES_PER_SAMPLE \<le> spectrum_offset eight n k' \<or>
      spectrum_offset eight n k' + BITS_MULTIPLAYER eight * BYTES_PER_SAMPLE \<le> spectrum_offset eight n k"
    by (simp add: k spectrum_offset_def)
qed

text \<open>The bytes that belong in a cell of the output, and the shape of the conversion buffers.\<close>

definition spectrum :: "bool \<Rightarrow> u8 list \<Rightarrow> nat \<Rightarrow> nat \<Rightarrow> nat \<times> nat \<Rightarrow> u8 list" where
  "spectrum eight datain n iK = (\<lambda>(iM, iL). unpacked eight (peek ((iK * n + iL) * 8192 + iM * 512) 512 datain))"

definition conv_ok :: "bool \<Rightarrow> u8 list \<Rightarrow> nat \<Rightarrow> nat \<Rightarrow> u8 list list \<Rightarrow> bool" where
  "conv_ok eight datain na n dataout \<longleftrightarrow> na \<le> 4 \<and> n \<le> 32 \<and> na \<le> length dataout \<and> na * n * 8192 \<le> length datain \<and>
     (\<forall>iK<na. length (dataout ! iK) = n * 8192 * BITS_MULTIPLAYER eight)"

lemma conv_total: "SAMPLES_PER_PACKET * n * (BITS_MULTIPLAYER eight * BYTES_PER_SAMPLE) = n * 8192 * BITS_MULTIPLAYER eight"
  by (simp add: cconst)

lemma conv_source_in_range:
  assumes "iK < na" "iL < n" "iM < 16" "na * n * 8192 \<le> length datain"
  shows "(iK * n + iL) * 8192 + iM * 512 + 512 \<le> length datain"
proof -
  have "Suc (iK * n + iL) * 8192 \<le> na * n * 8192"
    using row_major_less [OF assms(1,2)] by (intro mult_le_mono1) simp
  with assms(3,4) show ?thesis by simp
qed

lemma convert_step_writes:
  assumes "conv_ok eight datain na (unat n) dataout" "iK < na" "iL < unat n" "iM < SAMPLES_PER_PACKET"
  shows "\<exists>out. convert_step eight datain n (iK, iL, iM) dataout = Inr (dataout[iK := out]) \<and>
    blit (spectrum_offset eight (unat n) (iM, iL)) (spectrum eight datain (unat n) iK (iM, iL)) (dataout ! iK) = Inr out \<and>
    length out = length (dataout ! iK)"
proof -
  have iM: "iM < 16" using assms(4) by (simp add: cconst)
  have ok: "na \<le> 4" "unat n \<le> 32" "na \<le> length dataout" "na * unat n * 8192 \<le> length datain"
    "length (dataout ! iK) = unat n * 8192 * BITS_MULTIPLAYER eight"
    using assms(1,2) by (auto simp: conv_ok_def)
  have u: "unat (conv_in n iK iL iM) = (iK * unat n + iL) * 8192 + iM * 512" "unat (conv_out n iL iM) = (iM * unat n + iL) * 512"
    using unat_conv [OF ok(2) _ assms(3) iM, of iK] ok(1) assms(2) by simp_all
  note src = conv_source_in_range [OF assms(2,3) iM ok(4)]
  let ?off = "spectrum_offset eight (unat n) (iM, iL)" and ?s = "spectrum eight datain (unat n) iK (iM, iL)"
  have v: "spectrum_valid (unat n) (iM, iL)" using assms by (simp add: spectrum_valid_def)
  have ls: "length ?s = BITS_MULTIPLAYER eight * BYTES_PER_SAMPLE"
    using src by (simp add: spectrum_def length_unpacked length_peek cconst)
  obtain out where b: "blit ?off ?s (dataout ! iK) = Inr out"
    using spectra.write_succeeds [OF v ls, of "dataout ! iK"] ok(5) conv_total by auto
  have "(if eight then unpack_loop datain (conv_in n iK iL iM) (conv_out n iL iM) [0..<BYTES_PER_SAMPLE] (dataout ! iK)
     else if unat (conv_in n iK iL iM) + BYTES_PER_SAMPLE \<le> length datain
     then blit (unat (conv_out n iL iM)) (peek (unat (conv_in n iK iL iM)) BYTES_PER_SAMPLE datain) (dataout ! iK)
     else Inl Overrun) = blit ?off ?s (dataout ! iK)"
  proof (cases eight)
    case True
    have "2 * ((iM * unat n + iL) * 512 + 512) \<le> length (dataout ! iK)"
      using spectra.in_range [OF v, of eight] ok(5) conv_total [of "unat n" eight] True
      by (simp add: spectrum_offset_def BITS_MULTIPLAYER_def cconst)
    moreover have "(iK * unat n + iL) * 8192 + iM * 512 + 512 < 2 ^ 32" "2 * ((iM * unat n + iL) * 512 + 512) < 2 ^ 32"
      using mult_le_mono [of iK 3 "unat n" 32] mult_le_mono [of iM 15 "unat n" 32] ok(1,2) assms(2,3) iM by simp_all
    ultimately show ?thesis using True src unpack_loop_blit [of "conv_in n iK iL iM" 512 datain "conv_out n iL iM"]
      unfolding u by (simp add: spectrum_def spectrum_offset_def BITS_MULTIPLAYER_def cconst mult.commute)
  next
    case False
    then show ?thesis using src unfolding u
      by (simp add: spectrum_def spectrum_offset_def BITS_MULTIPLAYER_def cconst unpacked_def)
  qed
  then have "convert_step eight datain n (iK, iL, iM) dataout = Inr (dataout[iK := out])"
    using b assms(2) ok(3) unfolding convert_step_def by (simp add: Let_def)
  with b blit_InrD(2) [OF b] show ?thesis by blast
qed

lemma conv_ok_update:
  "conv_ok eight datain na n dataout \<Longrightarrow> length out = length (dataout ! iK) \<Longrightarrow> conv_ok eight datain na n (dataout[iK := out])"
  by (cases "iK < length dataout") (auto simp: conv_ok_def nth_list_update)

text \<open>The cell of antenna \<open>iK\<close>, time sample \<open>iM\<close> and channel group \<open>iL\<close> in the conversion buffers.\<close>

definition out_cell :: "bool \<Rightarrow> nat \<Rightarrow> u8 list list \<Rightarrow> nat \<Rightarrow> nat \<times> nat \<Rightarrow> u8 list" where
  "out_cell eight n dataout iK c = peek (spectrum_offset eight n c) (BITS_MULTIPLAYER eight * BYTES_PER_SAMPLE) (dataout ! iK)"

lemma convert_loop_cells:
  assumes "conv_ok eight datain na (unat n) dataout" "\<forall>(iK, iL, iM)\<in>set ks. iK < na \<and> iL < unat n \<and> iM < SAMPLES_PER_PACKET"
  shows "\<exists>out. convert_loop eight datain n ks dataout = Inr out \<and> conv_ok eight datain na (unat n) out \<and>
    length out = length dataout \<and> (\<forall>iK\<ge>na. out ! iK = dataout ! iK) \<and>
    (\<forall>iK iL iM. iK < na \<and> iL < unat n \<and> iM < SAMPLES_PER_PACKET \<longrightarrow> out_cell eight (unat n) out iK (iM, iL) =
      (if (iK, iL, iM) \<in> set ks then spectrum eight datain (unat n) iK (iM, iL) else out_cell eight (unat n) dataout iK (iM, iL)))"
  using assms
proof (induction ks arbitrary: dataout)
  case Nil
  then show ?case by auto
next
  case (Cons k ks)
  obtain iK iL iM where k: "k = (iK, iL, iM)" by (cases k)
  have b: "iK < na" "iL < unat n" "iM < SAMPLES_PER_PACKET" using Cons.prems(2) by (auto simp: k)
  from convert_step_writes [OF Cons.prems(1) b] obtain o1 where
    o1: "convert_step eight datain n k dataout = Inr (dataout[iK := o1])" "length o1 = length (dataout ! iK)"
      "blit (spectrum_offset eight (unat n) (iM, iL)) (spectrum eight datain (unat n) iK (iM, iL)) (dataout ! iK) = Inr o1"
    by (auto simp: k)
  let ?d = "dataout[iK := o1]"
  have ok1: "conv_ok eight datain na (unat n) ?d" by (rule conv_ok_update [OF Cons.prems(1) o1(2)])
  have len: "iK < length dataout" "length (dataout ! iK) = unat n * 8192 * BITS_MULTIPLAYER eight"
    "iK * unat n + iL < na * unat n" "na * unat n * 8192 \<le> length datain"
    using Cons.prems(1) b row_major_less [OF b(1,2)] by (auto simp: conv_ok_def)
  have ls: "length (spectrum eight datain (unat n) iK (iM, iL)) = BITS_MULTIPLAYER eight * BYTES_PER_SAMPLE"
    using conv_source_in_range [OF b(1,2) _ len(4), of iM] b(3) by (simp add: spectrum_def length_unpacked length_peek cconst)
  have v: "spectrum_valid (unat n) (iM, iL)" using b by (simp add: spectrum_valid_def)
  have step: "out_cell eight (unat n) ?d jK (jM, jL) = (if (jK, jL, jM) = k then spectrum eight datain (unat n) jK (jM, jL)
      else out_cell eight (unat n) dataout jK (jM, jL))" if "jL < unat n" "jM < SAMPLES_PER_PACKET" for jK jL jM
  proof (cases "jK = iK")
    case False
    then show ?thesis by (simp add: out_cell_def k)
  next
    case True
    have v': "spectrum_valid (unat n) (jM, jL)" using that by (simp add: spectrum_valid_def)
    show ?thesis
      using spectra.read_written [OF o1(3) ls] spectra.read_other [OF o1(3) ls _ v v'] len conv_total [of "unat n" eight] True
      by (auto simp: out_cell_def k)
  qed
  have "\<forall>(iK, iL, iM)\<in>set ks. iK < na \<and> iL < unat n \<and> iM < SAMPLES_PER_PACKET" using Cons.prems(2) by simp
  from Cons.IH [OF ok1 this] obtain out where out: "convert_loop eight datain n ks ?d = Inr out"
    "conv_ok eight datain na (unat n) out" "length out = length dataout" "\<forall>iK\<ge>na. out ! iK = ?d ! iK"
    "\<forall>jK jL jM. jK < na \<and> jL < unat n \<and> jM < SAMPLES_PER_PACKET \<longrightarrow> out_cell eight (unat n) out jK (jM, jL) =
      (if (jK, jL, jM) \<in> set ks then spectrum eight datain (unat n) jK (jM, jL) else out_cell eight (unat n) ?d jK (jM, jL))"
    by auto
  show ?case
    by (intro exI [of _ out]) (use out o1(1) step b(1) in auto)
qed

text \<open>A list of equal cells is the concatenation of them.\<close>

lemma concat_cells:
  assumes "length xs = m * w" "\<And>j. j < m \<Longrightarrow> peek (j * w) w xs = f j"
  shows "xs = concat (map f [0..<m])"
  using assms
proof (induction m arbitrary: xs)
  case 0
  then show ?case by simp
next
  case (Suc m)
  have "take (m * w) xs = concat (map f [0..<m])"
  proof (rule Suc.IH)
    show "length (take (m * w) xs) = m * w" using Suc.prems(1) by simp
    fix j assume j: "j < m"
    have "j * w + w \<le> m * w" using mult_le_mono1 [of "Suc j" m w] j by simp
    then have "peek (j * w) w (take (m * w) xs) = peek (j * w) w xs"
      by (simp add: peek_def drop_take min_def)
    with Suc.prems(2) [of j] j show "peek (j * w) w (take (m * w) xs) = f j" by simp
  qed
  moreover have "drop (m * w) xs = f m" using Suc.prems(2) [of m] Suc.prems(1) by (simp add: peek_def)
  ultimately have "concat (map f [0..<Suc m]) = take (m * w) xs @ drop (m * w) xs" by simp
  then show ?case by simp
qed

text \<open>The converted time slot of an antenna: for each time sample, the channel groups side by side.\<close>

definition time_major :: "bool \<Rightarrow> u8 list \<Rightarrow> nat \<Rightarrow> nat \<Rightarrow> u8 list" where
  "time_major eight datain n iK =
     concat (map (\<lambda>j. spectrum eight datain n iK (j div n, j mod n)) [0..<SAMPLES_PER_PACKET * n])"

lemma convert_lemma:
  assumes "conv_ok eight datain (unat na) (unat n) dataout"
  shows "\<exists>out. convert eight datain dataout na n = Inr out \<and> conv_ok eight datain (unat na) (unat n) out \<and>
    length out = length dataout \<and> (\<forall>iK<unat na. out ! iK = time_major eight datain (unat n) iK)"
proof -
  let ?ks = "List.product [0..<unat na] (List.product [0..<unat n] [0..<SAMPLES_PER_PACKET])"
  have "\<forall>(iK, iL, iM)\<in>set ?ks. iK < unat na \<and> iL < unat n \<and> iM < SAMPLES_PER_PACKET" by auto
  from convert_loop_cells [OF assms this] obtain out where out: "convert_loop eight datain n ?ks dataout = Inr out"
    "conv_ok eight datain (unat na) (unat n) out" "length out = length dataout"
    "\<forall>iK iL iM. iK < unat na \<and> iL < unat n \<and> iM < SAMPLES_PER_PACKET \<longrightarrow>
       out_cell eight (unat n) out iK (iM, iL) = spectrum eight datain (unat n) iK (iM, iL)"
    by auto
  have "out ! iK = time_major eight datain (unat n) iK" if "iK < unat na" for iK
    unfolding time_major_def
  proof (rule concat_cells)
    show "length (out ! iK) = SAMPLES_PER_PACKET * unat n * (BITS_MULTIPLAYER eight * BYTES_PER_SAMPLE)"
      using out(2) that conv_total by (simp add: conv_ok_def)
    fix j assume j: "j < SAMPLES_PER_PACKET * unat n"
    then have "0 < unat n" by (cases "unat n") auto
    then have "j div unat n < SAMPLES_PER_PACKET" "j mod unat n < unat n" using j by (auto simp: less_mult_imp_div_less)
    then show "peek (j * (BITS_MULTIPLAYER eight * BYTES_PER_SAMPLE)) (BITS_MULTIPLAYER eight * BYTES_PER_SAMPLE) (out ! iK) =
        spectrum eight datain (unat n) iK (j div unat n, j mod unat n)"
      using out(4) [rule_format, of iK "j mod unat n" "j div unat n"] that
      by (simp add: out_cell_def spectrum_offset_def)
  qed
  with out show ?thesis by (auto simp: convert_def)
qed

text \<open>
  C21: \<^verbatim>\<open>convert\<close> equals its specification: for every antenna the output buffer is the input
  slot with time made the major index (for each of the 16 time samples the 512 bytes of channel
  group 0, 1, ...), the samples unpacked in the 8-bit build; every byte of the output is written and
  no access leaves a buffer. The dimensions are those a recording can have.
\<close>

theorem convert_time_major:
  assumes "unat na \<le> 4" "unat n \<le> 32" "unat na * unat n * 8192 \<le> length datain" "unat na \<le> length dataout"
    "\<forall>iK<unat na. length (dataout ! iK) = unat n * 8192 * BITS_MULTIPLAYER eight"
  shows "\<exists>out. convert eight datain dataout na n = Inr out \<and> length out = length dataout \<and>
    (\<forall>iK<unat na. out ! iK = time_major eight datain (unat n) iK)"
proof -
  have "conv_ok eight datain (unat na) (unat n) dataout" using assms by (simp add: conv_ok_def)
  from convert_lemma [OF this] show ?thesis by blast
qed

theorem convert_time_major_witness:
  "\<exists>out. convert True (replicate 8192 0x7f) [replicate 16384 0] 1 1 = Inr out \<and>
    out ! 0 = time_major True (replicate 8192 0x7f) 1 0"
  using convert_time_major [of 1 1 "replicate 8192 0x7f" "[replicate 16384 0]" True]
  by (auto simp: BITS_MULTIPLAYER_def)

section \<open>The main loop\<close>

lemma conv_ok_datain: "conv_ok eight d na n out \<Longrightarrow> na * n * 8192 \<le> length d' \<Longrightarrow> conv_ok eight d' na n out"
  by (simp add: conv_ok_def)

lemma convert_file_content:
  assumes "0 < inBufferLen r" "conv_ok eight rest0 (unat (rAnts r)) (unat (rChanpkts r)) dataout"
    "length files = unat (rAnts r)" "length rest div inBufferLen r = m"
  shows "convert_file eight r rest dataout files = Some (Inr (map (\<lambda>iK. files ! iK @
    concat (map (\<lambda>t. time_major eight (peek (t * inBufferLen r) (inBufferLen r) rest) (unat (rChanpkts r)) iK) [0..<m]))
      [0..<unat (rAnts r)]))"
  using assms(2-)
proof (induction m arbitrary: rest dataout files rest0)
  case 0
  then have "length rest < inBufferLen r" using assms(1) by (simp add: div_eq_0_iff)
  moreover have "map (\<lambda>iK. files ! iK) [0..<unat (rAnts r)] = files" using 0 by (metis map_nth)
  ultimately show ?case by (subst convert_file.simps) simp
next
  case (Suc m)
  let ?n = "inBufferLen r" and ?na = "unat (rAnts r)" and ?nc = "unat (rChanpkts r)"
  have ge: "?n \<le> length rest" using Suc.prems(3) by (metis div_less not_less nat.distinct(1))
  have in_len: "?na * ?nc * 8192 = ?n" by (simp add: inBufferLen_def cconst ac_simps)
  have "conv_ok eight (take ?n rest) ?na ?nc dataout" by (rule conv_ok_datain [OF Suc.prems(1)]) (simp add: in_len ge)
  from convert_lemma [OF this] obtain out where out: "convert eight (take ?n rest) dataout (rAnts r) (rChanpkts r) = Inr out"
    "conv_ok eight (take ?n rest) ?na ?nc out" "\<forall>iK<?na. out ! iK = time_major eight (take ?n rest) ?nc iK" by auto
  let ?files = "map (\<lambda>iK. if iK < ?na then files ! iK @ out ! iK else files ! iK) [0..<length files]"
  have step: "convert_file eight r rest dataout files = convert_file eight r (drop ?n rest) out ?files"
    using ge out(1) by (subst convert_file.simps) simp
  have m: "length (drop ?n rest) div ?n = m"
    using Suc.prems(3) assms(1) ge by (simp add: le_div_geq)
  have sh: "peek (t * ?n) ?n (drop ?n rest) = peek (Suc t * ?n) ?n rest" for t by (simp add: peek_def add.commute)
  have "map g [0..<Suc m] = g 0 # map (\<lambda>t. g (Suc t)) [0..<m]" for g :: "nat \<Rightarrow> u8 list"
    by (simp add: upt_conv_Cons map_Suc_upt [symmetric] del: upt_Suc)
  then have cc: "concat (map g [0..<Suc m]) = g 0 @ concat (map (\<lambda>t. g (Suc t)) [0..<m])" for g :: "nat \<Rightarrow> u8 list"
    by simp
  show ?case unfolding step cc
    using Suc.IH [OF out(2) _ m, of ?files] Suc.prems(2) out(3) by (simp add: sh peek_def add.commute)
qed

lemma convert_empty:
  assumes "inBufferLen r = 0"
  shows "convert eight datain dataout (rAnts r) (rChanpkts r) = Inr dataout"
proof -
  have "unat (rAnts r) = 0 \<or> unat (rChanpkts r) = 0" using assms by (simp add: inBufferLen_def cconst)
  then have "List.product [0..<unat (rAnts r)] (List.product [0..<unat (rChanpkts r)] [0..<SAMPLES_PER_PACKET]) = []"
    by (auto simp: product_concat_map)
  then show ?thesis by (simp add: convert_def)
qed

text \<open>A time slot of length zero is always read completely, so the loop never ends.\<close>

lemma convert_file_hangs:
  assumes "inBufferLen r = 0"
  shows "convert_file eight r rest dataout files = None"
proof -
  have "convert_file eight r rest dataout files = Some y \<Longrightarrow> inBufferLen r \<noteq> 0" for y
  proof (rule convert_file.raw_induct [where P = "\<lambda>eight r rest dataout files y. inBufferLen r \<noteq> 0"], goal_cases)
    case (1 f eight r rest dataout files y)
    show ?case
    proof
      assume z: "inBufferLen r = 0"
      with 1(3) obtain files' where "f eight r rest dataout files' = Some y"
        by (auto simp: convert_empty [OF z])
      from 1(2) [OF this] z show False by simp
    qed
  qed
  then show ?thesis using assms by (cases "convert_file eight r rest dataout files") auto
qed

text \<open>
  C22: when the converter's loop ends, and with what. With at least one antenna and one channel
  group in the header it ends, and the data file of each antenna is then what was in it before (the
  external header) followed by the converted time slots, in order, of the complete slots of the
  recording; an incomplete slot at the end of the file is left out. A file whose header announces no
  antenna or no channel group makes it run forever: a slot of length zero is always read completely.
\<close>

theorem convert_file_ends_or_hangs:
  assumes "unat (rAnts r) \<le> 4" "unat (rChanpkts r) \<le> 32" "length dataout = unat (rAnts r)"
    "\<forall>b\<in>set dataout. length b = outBufferLen eight r" "length files = unat (rAnts r)"
  shows "convert_file eight r rest dataout files = (if unat (rAnts r) = 0 \<or> unat (rChanpkts r) = 0 then None
    else Some (Inr (map (\<lambda>iK. files ! iK @
      concat (map (\<lambda>t. time_major eight (peek (t * inBufferLen r) (inBufferLen r) rest) (unat (rChanpkts r)) iK)
        [0..<length rest div inBufferLen r])) [0..<unat (rAnts r)])))"
proof (cases "unat (rAnts r) = 0 \<or> unat (rChanpkts r) = 0")
  case True
  then have "inBufferLen r = 0" by (auto simp: inBufferLen_def)
  then show ?thesis using True convert_file_hangs by simp
next
  case False
  then have pos: "0 < inBufferLen r" by (simp add: inBufferLen_def cconst)
  have "conv_ok eight (replicate (inBufferLen r) 0) (unat (rAnts r)) (unat (rChanpkts r)) dataout"
    using assms by (auto simp: conv_ok_def outBufferLen_def inBufferLen_def cconst)
  from convert_file_content [OF pos this assms(5)] show ?thesis using False by auto
qed

theorem convert_file_ends_or_hangs_witness:
  "convert_file False \<lparr>rAnts = 1, rIDs = [3], rChanpkts = 1, rChanStart = 0, rPktStart = 0\<rparr> (replicate 8195 5)
     [replicate 8192 0] [[]] =
   Some (Inr [concat (map (\<lambda>t. time_major False (peek (t * 8192) 8192 (replicate 8195 5)) 1 0) [0..<1])]) \<and>
   convert_file False \<lparr>rAnts = 0, rIDs = [], rChanpkts = 1, rChanStart = 0, rPktStart = 0\<rparr> [1] [] [] = None"
  using convert_file_ends_or_hangs [of "\<lparr>rAnts = 1, rIDs = [3], rChanpkts = 1, rChanStart = 0, rPktStart = 0\<rparr>"
      "[replicate 8192 0]" False "[[]]" "replicate 8195 5"]
    convert_file_ends_or_hangs [of "\<lparr>rAnts = 0, rIDs = [], rChanpkts = 1, rChanStart = 0, rPktStart = 0\<rparr>" "[]" False "[]" "[1]"]
  by (simp add: inBufferLen_def outBufferLen_def BITS_MULTIPLAYER_def cconst)

section \<open>The file header\<close>

lemma read_exact_append: "length a = n \<Longrightarrow> read_exact n (a @ b) = Inr (a, b)"
  by (auto simp: read_exact_def)

lemma words_of_ants: "words_of (length xs) (ants_bytes xs @ rest) = xs"
  by (induction xs) (simp_all add: ants_bytes_def)

lemma read_header_lemma:
  assumes "unat (nAnts fb) \<le> length (antNumbers fb)" "unat (nAnts fb) \<le> MAX_NO_ANTS"
  shows "read_header (header_bytes fb @ rest) =
    Inr (\<lparr>rAnts = nAnts fb, rIDs = take (unat (nAnts fb)) (antNumbers fb), rChanpkts = nchans fb,
      rChanStart = firstChan fb, rPktStart = packetStart fb\<rparr>, rest)"
proof -
  let ?ids = "take (unat (nAnts fb)) (antNumbers fb)"
  have len: "length (ants_bytes ?ids) = 4 * unat (nAnts fb)" using assms(1) by (simp add: ants_bytes_length)
  have w: "words_of (unat (nAnts fb)) (ants_bytes ?ids) = ?ids"
    using words_of_ants [of ?ids "[]"] assms(1) by (simp add: min_absorb2)
  have le: "le_word (le_bytes 4 x) = x" for x :: u32 by simp
  have le8: "le_word (le_bytes 8 x) = x" for x :: u64 by simp
  have fit: "\<not> min (4 * unat (nAnts fb)) l > 4 * MAX_NO_ANTS" for l using assms(2) by auto
  show ?thesis unfolding read_header_def header_bytes_def append_assoc Let_def
    by (simp only: read_exact_append length_le_bytes cbind_Inr prod.case le le8 fit if_False len w)
qed

text \<open>
  C24: the converter reads back the header the recorder writes. When the recorder opens a file and the
  writes of the header are complete, the file holds some bytes, nothing else has changed on disk, and the
  converter reads from these bytes, whatever follows them, the very number of antennas, antenna
  numbers, number of channel groups, first channel and packet start of the recording, for every
  admissible number of antennas (1 to 4), and is left at what follows; but it then refuses the recording
  when it has four antennas, although the recorder accepts four.
\<close>

theorem file_header_roundtrip:
  assumes "unat (nAnts (sink st)) \<le> length (antNumbers (sink st))" "unat (nAnts (sink st)) \<le> MAX_NO_ANTS"
    "io st = header_results fd (sink st) @ rs" "0 \<le> fd"
  shows "\<exists>st' hdr. start_file st = Inr st' \<and> io st' = rs \<and> sink st' = sink st \<and>
    disk st' = (disk st)(file_name (part st) (consec_file st) \<mapsto> hdr) \<and>
    (\<forall>rest. read_header (hdr @ rest) =
      Inr (\<lparr>rAnts = nAnts (sink st), rIDs = take (unat (nAnts (sink st))) (antNumbers (sink st)), rChanpkts = nchans (sink st),
        rChanStart = firstChan (sink st), rPktStart = packetStart (sink st)\<rparr>, rest) \<and>
      (nAnts (sink st) = 4 \<longrightarrow>
        converter_main eight (\<lambda>f. Some (hdr @ rest)) junk [''converter'', ''x.bin''] = Some (Inr TooManyAnts)))"
  unfolding start_file_complete [OF assms(3,4,1)]
  using read_header_lemma [OF assms(1,2)]
  by (intro exI [of _ "header_bytes (sink st)"]
      exI [of _ "st\<lparr>io := rs, cur := file_name (part st) (consec_file st),
        disk := (disk st)(file_name (part st) (consec_file st) \<mapsto> header_bytes (sink st))\<rparr>"])
    (simp add: converter_main_def cconst)

theorem file_header_roundtrip_witness:
  "\<exists>st' hdr. start_file (writer_start example_sink ''x'' Map.empty [3, 4, 4, 4, 4, 8]) = Inr st' \<and>
    disk st' = [file_name ''x'' 0 \<mapsto> hdr] \<and>
    read_header (hdr @ [9]) = Inr (\<lparr>rAnts = 1, rIDs = [3], rChanpkts = 1, rChanStart = 0, rPktStart = 256\<rparr>, [9])"
  using file_header_roundtrip [of "writer_start example_sink ''x'' Map.empty [3, 4, 4, 4, 4, 8]" 3 "[]"]
  by (fastforce simp: writer_start_def example_sink_def header_results_def cconst)

lemma write_ext_header_copies: "write_ext_header out left_over = (out @ left_over, [])"
proof (induction out left_over rule: write_ext_header.induct)
  case (1 out left_over)
  show ?case
  proof (cases "left_over = []")
    case True
    then show ?thesis by (subst write_ext_header.simps) simp
  next
    case False
    then have "0 < length (take MY_BUFFER_SIZE left_over)" by (simp add: cconst)
    with 1 show ?thesis by (subst write_ext_header.simps) (simp add: Let_def)
  qed
qed

text \<open>
  The external header is copied completely, in pieces of 4096 bytes, but only into the data
  file of the first antenna: the descriptor is at the end of the header file for all the others.
\<close>

lemma ext_header_first_only:
  "open_outputs (ant # ids) (Some h) = h # replicate (length ids) []"
proof -
  have "open_outputs ids (Some []) = replicate (length ids) []"
    by (induction ids) (simp_all add: write_ext_header_copies)
  then show ?thesis by (simp add: write_ext_header_copies)
qed

end
