(* ===== verification/Copying.thy ===== *)
theory Copying
  imports Prelude
begin

text \<open>
  The copying loops of half_hashpipe: a loop with an index as a fold that stops at the first error,
  \<^verbatim>\<open>memcpy\<close> with both ranges checked, and what a loop leaves that copies cells of a source to the
  cells of a layout, whatever the order of its iterations.
\<close>

section \<open>Loops and copies\<close>

primrec cfold :: "('a \<Rightarrow> 's \<Rightarrow> 's cres) \<Rightarrow> 'a list \<Rightarrow> 's \<Rightarrow> 's cres" where
  "cfold f [] s = Inr s"
| "cfold f (x # xs) s = cbind (f x s) (cfold f xs)"

text \<open>Reading \<open>n\<close> elements at \<open>off\<close>, and \<^verbatim>\<open>memcpy(dst + d, src + s, n)\<close>.\<close>

definition cload :: "nat \<Rightarrow> nat \<Rightarrow> 'a list \<Rightarrow> 'a list cres" where
  "cload off n xs = (if off + n \<le> length xs then Inr (peek off n xs) else Inl Overrun)"

definition memcpy :: "nat \<Rightarrow> nat \<Rightarrow> nat \<Rightarrow> 'a list \<Rightarrow> 'a list \<Rightarrow> 'a list cres" where
  "memcpy d s n src dst = cbind (cload s n src) (\<lambda>b. blit d b dst)"

text \<open>\<open>memset\<close> at an offset.\<close>

definition memzero :: "nat \<Rightarrow> nat \<Rightarrow> 'a::zero list \<Rightarrow> 'a list cres" where
  "memzero d n dst = blit d (replicate n 0) dst"

lemma cbind_Inr_right [simp]: "cbind m Inr = m"
  by (cases m) simp_all

lemma cfold_append: "cfold f (xs @ ys) s = cbind (cfold f xs s) (cfold f ys)"
  by (induction xs arbitrary: s) (simp_all add: cbind_def split: sum.split)

lemma cfold_map: "cfold f (map g xs) s = cfold (\<lambda>x. f (g x)) xs s"
  by (induction xs arbitrary: s) (simp_all add: cbind_def split: sum.split)

lemma cfold_cong:
  assumes "xs = ys" "\<And>x s. x \<in> set ys \<Longrightarrow> f x s = g x s"
  shows "cfold f xs s = cfold g ys s"
  unfolding assms(1) using assms(2) by (induction ys arbitrary: s) (simp_all add: cbind_def split: sum.split)

lemma memcpy_ok: "s + n \<le> length src \<Longrightarrow> memcpy d s n src dst = blit d (peek s n src) dst"
  by (simp add: memcpy_def cload_def)

lemma memcpy_InrD:
  assumes "memcpy d s n src dst = Inr r"
  shows "s + n \<le> length src" "d + n \<le> length dst" "length r = length dst" "peek d n r = peek s n src"
proof -
  show s: "s + n \<le> length src" using assms by (simp add: memcpy_def cload_def split: if_splits)
  with assms have b: "blit d (peek s n src) dst = Inr r" by (simp add: memcpy_ok)
  from blit_InrD [OF b] s show "d + n \<le> length dst" "length r = length dst" by (simp_all add: length_peek)
  from peek_blit_same [OF b] s show "peek d n r = peek s n src" by (simp add: length_peek)
qed

text \<open>
  A loop that copies one cell per iteration and moves its pointers is the loop over the cells'
  positions: \<open>pos\<close> is the state of the pointers before iteration \<open>i\<close>.
\<close>

lemma pointer_loop:
  assumes "\<And>i d. i < n \<Longrightarrow> body i (pos i, d) = cbind (copy i d) (\<lambda>d'. Inr (pos (Suc i), d'))"
  shows "cfold body [0..<n] (pos 0, d) = cbind (cfold copy [0..<n] d) (\<lambda>d'. Inr (pos n, d'))"
  using assms
proof (induction n)
  case 0
  show ?case by simp
next
  case (Suc n)
  have "cfold body [0..<Suc n] (pos 0, d) =
      cbind (cbind (cfold copy [0..<n] d) (\<lambda>d'. Inr (pos n, d'))) (cfold body [n])"
    using Suc.IH Suc.prems by (simp add: cfold_append)
  also have "\<dots> = cbind (cfold copy [0..<n] d) (\<lambda>d'. cbind (copy n d') (\<lambda>d''. Inr (pos (Suc n), d'')))"
    using Suc.prems [of n] by (simp add: cbind_assoc cbind_def split: sum.split)
  also have "\<dots> = cbind (cfold copy [0..<Suc n] d) (\<lambda>d'. Inr (pos (Suc n), d'))"
    by (simp add: cfold_append cbind_assoc cbind_def split: sum.split)
  finally show ?case .
qed

text \<open>A nested loop is the loop over the pairs.\<close>

lemma cfold_product:
  "cfold (\<lambda>x d. cfold (\<lambda>y. f x y) ys d) xs d = cfold (\<lambda>(x, y). f x y) (List.product xs ys) d"
  by (induction xs arbitrary: d) (simp_all add: cfold_append cfold_map cbind_def split: sum.split)

text \<open>A loop that stores two cells per iteration.\<close>

lemma cfold_pairs:
  "cfold (\<lambda>i d. cbind (f (2 * i) d) (f (2 * i + 1))) [0..<n] d = cfold f [0..<2 * n] d"
  by (induction n arbitrary: d) (simp_all add: cfold_append cbind_def split: sum.split)

lemma blit_append: "blit d (a @ b) dst = cbind (blit d a dst) (blit (d + length a) b)"
  by (auto simp: blit_def ac_simps)

section \<open>Scattering into a layout\<close>

text \<open>\<open>v k\<close> is what the loop stores in the cell \<open>k\<close>.\<close>

context cell_layout begin

lemma scatter:
  assumes "\<forall>k \<in> set ks. valid k \<and> length (v k) = width" "total \<le> length dst"
  shows "\<exists>r. cfold (\<lambda>k. blit (offset k) (v k)) ks dst = Inr r \<and> length r = length dst \<and>
    (\<forall>k \<in> set ks. peek (offset k) width r = v k) \<and>
    (\<forall>i < length dst. (\<forall>k \<in> set ks. i < offset k \<or> offset k + width \<le> i) \<longrightarrow> r ! i = dst ! i)"
  using assms(1)
proof (induction ks rule: rev_induct)
  case Nil
  show ?case by simp
next
  case (snoc k ks)
  let ?f = "\<lambda>k. blit (offset k) (v k)"
  obtain r where r: "cfold ?f ks dst = Inr r" "length r = length dst"
      "\<forall>k \<in> set ks. peek (offset k) width r = v k"
      "\<forall>i < length dst. (\<forall>k \<in> set ks. i < offset k \<or> offset k + width \<le> i) \<longrightarrow> r ! i = dst ! i"
    using snoc.IH snoc.prems by auto
  have k: "valid k" "length (v k) = width" using snoc.prems by auto
  then obtain q where q: "blit (offset k) (v k) r = Inr q"
    using write_succeeds [of k "v k" r] assms(2) r(2) by auto
  have "peek (offset k') width q = v k'" if "k' \<in> set (ks @ [k])" for k'
  proof (cases "k' = k")
    case True
    then show ?thesis using read_written [OF q k(2)] by simp
  next
    case False
    then have "peek (offset k') width q = peek (offset k') width r"
      using read_other [OF q k(2)] assms(2) r(2) k(1) snoc.prems that by auto
    then show ?thesis using r(3) that False by auto
  qed
  moreover have "cfold ?f (ks @ [k]) dst = Inr q" by (simp add: cfold_append r(1) q)
  moreover have "q ! i = dst ! i"
    if "i < length dst" "\<forall>k \<in> set (ks @ [k]). i < offset k \<or> offset k + width \<le> i" for i
    using that r(2,4) nth_blit [OF q, of i] by (auto simp: k(2))
  ultimately show ?case using r(2) blit_InrD(2) [OF q] by auto
qed

lemma untouched_cell:
  assumes "\<forall>k \<in> set ks. valid k" "valid k'" "k' \<notin> set ks" "total \<le> length dst" "length r = length dst"
    "\<forall>i < length dst. (\<forall>k \<in> set ks. i < offset k \<or> offset k + width \<le> i) \<longrightarrow> r ! i = dst ! i"
  shows "peek (offset k') width r = peek (offset k') width dst"
proof (rule nth_equalityI)
  have fits: "offset k' + width \<le> length dst" using in_range [OF assms(2)] assms(4) by linarith
  then show "length (peek (offset k') width r) = length (peek (offset k') width dst)" using assms(5) by (simp add: length_peek)
  fix i assume "i < length (peek (offset k') width r)"
  then have i: "i < width" using fits assms(5) by (simp add: length_peek)
  have "\<forall>k \<in> set ks. offset k' + i < offset k \<or> offset k + width \<le> offset k' + i"
    using separate [OF assms(2)] assms(1,3) i by fastforce
  then show "peek (offset k') width r ! i = peek (offset k') width dst ! i"
    using assms(5,6) fits i by (simp add: nth_peek)
qed

lemma scatter_determines:
  assumes "\<forall>k \<in> set ks. valid k" "total \<le> length dst" "length r = length dst" "length r' = length dst" "i < length dst"
    "\<forall>k \<in> set ks. peek (offset k) width r = v k" "\<forall>k \<in> set ks. peek (offset k) width r' = v k"
    "\<forall>i < length dst. (\<forall>k \<in> set ks. i < offset k \<or> offset k + width \<le> i) \<longrightarrow> r ! i = dst ! i"
    "\<forall>i < length dst. (\<forall>k \<in> set ks. i < offset k \<or> offset k + width \<le> i) \<longrightarrow> r' ! i = dst ! i"
  shows "r ! i = r' ! i"
proof (cases "\<exists>k \<in> set ks. offset k \<le> i \<and> i < offset k + width")
  case True
  then obtain k where k: "k \<in> set ks" "offset k \<le> i" "i < offset k + width" by blast
  have "offset k + width \<le> length dst" using in_range assms(1,2) k(1) by (meson le_trans)
  then show ?thesis
    using assms(3,4,6,7) k nth_peek [of "offset k" width r "i - offset k"] nth_peek [of "offset k" width r' "i - offset k"]
    by auto
next
  case False
  then have "\<forall>k \<in> set ks. i < offset k \<or> offset k + width \<le> i" by (meson not_le)
  then show ?thesis using assms(5,8,9) by simp
qed

lemma scatter_order:
  assumes "set ks = set ks'" "\<forall>k \<in> set ks. valid k \<and> length (v k) = width" "total \<le> length dst"
  shows "cfold (\<lambda>k. blit (offset k) (v k)) ks dst = cfold (\<lambda>k. blit (offset k) (v k)) ks' dst"
proof -
  let ?f = "\<lambda>k. blit (offset k) (v k)"
  have ks': "\<forall>k \<in> set ks'. valid k \<and> length (v k) = width" using assms(1,2) by blast
  obtain r where r: "cfold ?f ks dst = Inr r" "length r = length dst" "\<forall>k \<in> set ks. peek (offset k) width r = v k"
      "\<forall>i < length dst. (\<forall>k \<in> set ks. i < offset k \<or> offset k + width \<le> i) \<longrightarrow> r ! i = dst ! i"
    using scatter [OF assms(2,3)] by (elim exE conjE) (rule that)
  obtain r' where r': "cfold ?f ks' dst = Inr r'" "length r' = length dst" "\<forall>k \<in> set ks. peek (offset k) width r' = v k"
      "\<forall>i < length dst. (\<forall>k \<in> set ks. i < offset k \<or> offset k + width \<le> i) \<longrightarrow> r' ! i = dst ! i"
    using scatter [OF ks' assms(3)] unfolding assms(1) [symmetric] by (elim exE conjE) (rule that)
  have valid: "\<forall>k \<in> set ks. valid k" using assms(2) by blast
  have "r = r'"
  proof (rule nth_equalityI)
    show "length r = length r'" using r(2) r'(2) by simp
  next
    fix i assume "i < length r"
    then have "i < length dst" using r(2) by simp
    then show "r ! i = r' ! i"
      by (rule scatter_determines [OF valid assms(3) r(2) r'(2) _ r(3) r'(3) r(4) r'(4)])
  qed
  then show ?thesis using r(1) r'(1) by simp
qed

end

section \<open>Rows of samples\<close>

text \<open>
  A block of \<open>nc\<close> rows (channels) of \<open>nt\<close> samples of \<open>w\<close> bytes: the cell \<open>(c, t)\<close> is sample \<open>t\<close> of
  row \<open>c\<close>.
\<close>

definition row_valid :: "nat \<Rightarrow> nat \<Rightarrow> nat \<times> nat \<Rightarrow> bool" where
  "row_valid nc nt = (\<lambda>(c, t). c < nc \<and> t < nt)"

definition row_offset :: "nat \<Rightarrow> nat \<Rightarrow> nat \<times> nat \<Rightarrow> nat" where
  "row_offset nt w = (\<lambda>(c, t). (c * nt + t) * w)"

interpretation rows: cell_layout "row_valid nc nt" "row_offset nt w" w "nc * nt * w" for nc nt w
proof unfold_locales
  fix k assume "row_valid nc nt k"
  then obtain c t where k: "k = (c, t)" "c < nc" "t < nt" by (auto simp: row_valid_def)
  then have "Suc (c * nt + t) \<le> nc * nt" using row_major_less [of c nc t nt] by simp
  then have "Suc (c * nt + t) * w \<le> nc * nt * w" by (rule mult_le_mono1)
  then show "row_offset nt w k + w \<le> nc * nt * w" by (simp add: k row_offset_def)
next
  fix k k' assume v: "row_valid nc nt k" "row_valid nc nt k'" "k \<noteq> k'"
  then obtain c t c' t' where k: "k = (c, t)" "k' = (c', t')" "t < nt" "t' < nt" by (auto simp: row_valid_def)
  then have "c * nt + t \<noteq> c' * nt + t'" using row_major_inject [of t nt t' c c'] v(3) by auto
  then show "row_offset nt w k + w \<le> row_offset nt w k' \<or> row_offset nt w k' + w \<le> row_offset nt w k"
    using stride_separate [of _ _ w] by (simp add: k row_offset_def)
qed

end
