(* ===== verification/Status_Buffer.thy ===== *)
theory Status_Buffer
  imports Prelude
begin

text \<open>
  What half_hashpipe uses of the hashpipe library: return codes and the status buffer, a shared
  FITS-style header of keyword records. The accessors (\<^verbatim>\<open>hgetu4\<close>, \<^verbatim>\<open>hputs\<close>, ...) are code outside the
  repository, so they are a parameter of the model: a record of functions over the type \<open>'st\<close> of
  header contents, with the laws the code relies on as the predicate \<open>status_laws\<close>. Doubles are the
  type \<open>'f\<close>; floating-point expressions are a parameter too, one function per expression.
\<close>

datatype hashpipe_rc = HASHPIPE_OK | HASHPIPE_TIMEOUT | HASHPIPE_ERR_SYS | HASHPIPE_ERR_PACKET |
  HASHPIPE_ERR_PARAM | HASHPIPE_ERR_GEN

text \<open>
  An accessor finds the keyword or not; \<open>hgets\<close> has the size of the destination. A signed 32-bit or
  64-bit number is the word with its bits.
\<close>

record ('st, 'f) status_ops =
  hgetu4 :: "'st \<Rightarrow> string \<Rightarrow> u32 option"
  hgeti4 :: "'st \<Rightarrow> string \<Rightarrow> u32 option"
  hgetu8 :: "'st \<Rightarrow> string \<Rightarrow> u64 option"
  hgetr8 :: "'st \<Rightarrow> string \<Rightarrow> 'f option"
  hgets :: "'st \<Rightarrow> string \<Rightarrow> nat \<Rightarrow> string option"
  hputu4 :: "string \<Rightarrow> u32 \<Rightarrow> 'st \<Rightarrow> 'st"
  hputi4 :: "string \<Rightarrow> u32 \<Rightarrow> 'st \<Rightarrow> 'st"
  hputu8 :: "string \<Rightarrow> u64 \<Rightarrow> 'st \<Rightarrow> 'st"
  hputi8 :: "string \<Rightarrow> u64 \<Rightarrow> 'st \<Rightarrow> 'st"
  hputr8 :: "string \<Rightarrow> 'f \<Rightarrow> 'st \<Rightarrow> 'st"
  hputr4 :: "string \<Rightarrow> 'f \<Rightarrow> 'st \<Rightarrow> 'st"
  hputs :: "string \<Rightarrow> string \<Rightarrow> 'st \<Rightarrow> 'st"
  end_header :: 'st

text \<open>A get leaves the variable as it is when the keyword is missing.\<close>

definition or_else :: "'a option \<Rightarrow> 'a \<Rightarrow> 'a" where
  "or_else m v = (case m of None \<Rightarrow> v | Some x \<Rightarrow> x)"

lemma or_else_simps [simp]: "or_else None v = v" "or_else (Some x) v = x"
  by (simp_all add: or_else_def)

text \<open>
  The documented behaviour, for a header with room for the records: under a keyword of at most eight
  characters a number, or a string that fits into a record, is read back as it was put, and a put changes no
  other keyword. Only the accessors that theorems need are constrained.
\<close>

definition keyword :: "string \<Rightarrow> bool" where
  "keyword k \<longleftrightarrow> length k \<le> 8"

lemma keyword_short [simp]: "length k \<le> 8 \<Longrightarrow> keyword k"
  by (simp add: keyword_def)

text \<open>The characters of a record that are left for a string between its quotes.\<close>

definition HDR_VALUE_SIZE :: nat where [cconst]: "HDR_VALUE_SIZE = 68"

definition puts_other :: "('st, 'f) status_ops \<Rightarrow> ('st \<Rightarrow> 'st) \<Rightarrow> string \<Rightarrow> bool" where
  "puts_other api put k \<longleftrightarrow>
     (\<forall>s k'. keyword k \<and> keyword k' \<and> k' \<noteq> k \<longrightarrow> hgetu4 api (put s) k' = hgetu4 api s k' \<and> hgetu8 api (put s) k' = hgetu8 api s k' \<and>
        (\<forall>n. hgets api (put s) k' n = hgets api s k' n))"

definition status_laws :: "('st, 'f) status_ops \<Rightarrow> bool" where
  "status_laws api \<longleftrightarrow>
     (\<forall>s k v. keyword k \<longrightarrow> hgetu4 api (hputu4 api k v s) k = Some v) \<and>
     (\<forall>s k v. keyword k \<longrightarrow> hgetu8 api (hputu8 api k v s) k = Some v) \<and>
     (\<forall>s k v n. keyword k \<and> length v \<le> HDR_VALUE_SIZE \<and> length v < n \<longrightarrow> hgets api (hputs api k v s) k n = Some v) \<and>
     (\<forall>k v. puts_other api (hputu4 api k v) k) \<and> (\<forall>k v. puts_other api (hputi4 api k v) k) \<and>
     (\<forall>k v. puts_other api (hputu8 api k v) k) \<and> (\<forall>k v. puts_other api (hputi8 api k v) k) \<and>
     (\<forall>k v. puts_other api (hputr8 api k v) k) \<and> (\<forall>k v. puts_other api (hputr4 api k v) k) \<and>
     (\<forall>k v. puts_other api (hputs api k v) k)"

lemma status_laws_get:
  assumes "status_laws api" "keyword k"
  shows "hgetu4 api (hputu4 api k v s) k = Some v" "hgetu8 api (hputu8 api k w s) k = Some w"
    "length t \<le> 68 \<Longrightarrow> length t < n \<Longrightarrow> hgets api (hputs api k t s) k n = Some t"
  using assms by (simp_all add: status_laws_def cconst)

lemma status_laws_other:
  assumes "status_laws api" "keyword k" "keyword k'" "k' \<noteq> k"
  shows "hgetu4 api (hputu4 api k a s) k' = hgetu4 api s k'" "hgetu4 api (hputr8 api k f s) k' = hgetu4 api s k'"
    "hgetu4 api (hputs api k t s) k' = hgetu4 api s k'"
    "hgetu8 api (hputu4 api k a s) k' = hgetu8 api s k'" "hgetu8 api (hputs api k t s) k' = hgetu8 api s k'"
    "hgetu8 api (hputu8 api k c s) k' = hgetu8 api s k'" "hgetu8 api (hputr8 api k f s) k' = hgetu8 api s k'"
    "hgets api (hputu4 api k a s) k' n = hgets api s k' n" "hgets api (hputr8 api k f s) k' n = hgets api s k' n"
    "hgets api (hputs api k t s) k' n = hgets api s k' n"
  using assms by (simp_all add: status_laws_def puts_other_def)

section \<open>An instance of the parameter\<close>

text \<open>A header as a finite list of keyword records, the latest first.\<close>

datatype 'f sval = SU4 u32 | SU8 u64 | SR8 'f | SStr string

definition assoc_status :: "((string \<times> 'f sval) list, 'f) status_ops" where
  "assoc_status = \<lparr>
     hgetu4 = (\<lambda>s k. case map_of s k of Some (SU4 v) \<Rightarrow> Some v | _ \<Rightarrow> None),
     hgeti4 = (\<lambda>s k. case map_of s k of Some (SU4 v) \<Rightarrow> Some v | _ \<Rightarrow> None),
     hgetu8 = (\<lambda>s k. case map_of s k of Some (SU8 v) \<Rightarrow> Some v | Some (SU4 v) \<Rightarrow> Some (ucast v) | _ \<Rightarrow> None),
     hgetr8 = (\<lambda>s k. case map_of s k of Some (SR8 v) \<Rightarrow> Some v | _ \<Rightarrow> None),
     hgets = (\<lambda>s k n. case map_of s k of Some (SStr t) \<Rightarrow> Some (take (n - 1) t) | _ \<Rightarrow> None),
     hputu4 = (\<lambda>k v s. (k, SU4 v) # s), hputi4 = (\<lambda>k v s. (k, SU4 v) # s),
     hputu8 = (\<lambda>k v s. (k, SU8 v) # s), hputi8 = (\<lambda>k v s. (k, SU8 v) # s),
     hputr8 = (\<lambda>k v s. (k, SR8 v) # s), hputr4 = (\<lambda>k v s. (k, SR8 v) # s),
     hputs = (\<lambda>k v s. (k, SStr v) # s), end_header = []\<rparr>"

lemma assoc_status_laws: "status_laws assoc_status"
  by (auto simp: status_laws_def puts_other_def assoc_status_def)

end
