(* ===== verification/Hpguppi_Udp.thy ===== *)
theory Hpguppi_Udp
  imports Copying Status_Buffer
begin

text \<open>
  The model of half_hashpipe/hpguppi_udp.c: opening and reading the socket with the operating
  system's answers as arguments, the fields of a GUPPI packet, and the routines that copy the data
  of a packet into a block. A \<^verbatim>\<open>char *\<close> is an offset into a list of bytes; a copy that leaves its
  object is \<open>Overrun\<close>. The configuration is the one of the sources: neither
  \<^verbatim>\<open>TRANSPOSE_NETBLKS_ON_GPU\<close> nor \<^verbatim>\<open>DEBUG_S6_COPY\<close> is defined.
\<close>

section \<open>Data\<close>

definition GUPPI_MAX_PACKET_SIZE :: nat where [cconst]: "GUPPI_MAX_PACKET_SIZE = 9000"
definition PACKET_SIZE_SHORT :: u64 where [cconst]: "PACKET_SIZE_SHORT = 544"
definition PACKET_SIZE_1SFA :: u64 where [cconst]: "PACKET_SIZE_1SFA = 8224"
definition PACKET_SIZE_1SFA_OLD :: u64 where [cconst]: "PACKET_SIZE_1SFA_OLD = 8160"
definition PACKET_SIZE_PASP :: u64 where [cconst]: "PACKET_SIZE_PASP = 528"

record hpguppi_udp_params =
  sender :: string
  port :: int
  packet_size :: u64
  packet_format :: string
  sock :: int
  sender_addr :: "nat option"
  pfd :: "int option"

record hpguppi_udp_packet =
  pkt_size :: u64
  pkt_data :: "u8 list"

section \<open>The socket\<close>

text \<open>
  What the operating system answers during \<^verbatim>\<open>hpguppi_udp_init\<close>: the results of getaddrinfo,
  socket and bind, and of connect for each resolved address. The calls that release resources or
  set options are logged.
\<close>

record udp_system =
  sys_getaddrinfo :: int
  sys_socket :: int
  sys_bind :: int
  sys_connect :: "int list"

datatype udp_call = FreeAddrInfo | CloseSock | SetNonBlocking | SetRcvBuf nat

definition hpguppi_udp_init ::
  "udp_system \<Rightarrow> hpguppi_udp_params \<Rightarrow> hashpipe_rc \<times> hpguppi_udp_params \<times> udp_call list" where
  "hpguppi_udp_init sys p =
     (if sys_getaddrinfo sys \<noteq> 0 then (HASHPIPE_ERR_SYS, p, [])
      else let p = p\<lparr>sock := sys_socket sys\<rparr> in
        if sock p = -1 then (HASHPIPE_ERR_SYS, p, [FreeAddrInfo])
        else if sys_bind sys = -1 then (HASHPIPE_ERR_SYS, p, [])
        else let rp = find_from (\<lambda>i. sys_connect sys ! i = 0) (length (sys_connect sys)) 0 in
          if rp = -1 then (HASHPIPE_ERR_SYS, p, [CloseSock, FreeAddrInfo])
          else (HASHPIPE_OK, p\<lparr>sender_addr := Some (nat rp), pfd := Some (sock p)\<rparr>,
                [FreeAddrInfo, SetNonBlocking, SetRcvBuf (128 * 1024 * 1024)]))"

text \<open>\<open>rv\<close> is the result of poll.\<close>

definition hpguppi_udp_wait :: "int \<Rightarrow> hashpipe_rc" where
  "hpguppi_udp_wait rv = (if rv = 1 then HASHPIPE_OK else if rv = 0 then HASHPIPE_TIMEOUT else HASHPIPE_ERR_SYS)"

text \<open>
  recv delivers a datagram, of which at most \<^verbatim>\<open>GUPPI_MAX_PACKET_SIZE\<close> bytes are stored, or fails
  (\<open>None\<close>), which gives -1.
\<close>

definition recv_into :: "u8 list option \<Rightarrow> u8 list \<Rightarrow> int \<times> u8 list" where
  "recv_into dg buf = (case dg of None \<Rightarrow> (-1, buf)
     | Some bytes \<Rightarrow> let got = take GUPPI_MAX_PACKET_SIZE bytes in
         (int (length got), got @ drop (length got) buf))"

definition hpguppi_udp_recv ::
  "u8 list option \<Rightarrow> hpguppi_udp_params \<Rightarrow> hpguppi_udp_packet \<Rightarrow>
     hashpipe_rc \<times> hpguppi_udp_params \<times> hpguppi_udp_packet" where
  "hpguppi_udp_recv dg p b =
     (let (rv, bytes) = recv_into dg (pkt_data b);
          b = b\<lparr>pkt_data := bytes, pkt_size := word_of_int rv\<rparr> in
      if rv = -1 then (HASHPIPE_ERR_SYS, p, b)
      else if packet_size p \<noteq> 0 then
        (if word_of_int rv \<noteq> packet_size p then (HASHPIPE_ERR_PACKET, p, b) else (HASHPIPE_OK, p, b))
      else (HASHPIPE_OK, p\<lparr>packet_size := word_of_int rv\<rparr>, b))"

definition hpguppi_udp_close :: "hpguppi_udp_params \<Rightarrow> hashpipe_rc \<times> udp_call list" where
  "hpguppi_udp_close p = (HASHPIPE_OK, [CloseSock])"

section \<open>The fields of a packet\<close>

text \<open>The loop over the eight bytes.\<close>

definition change_endian64 :: "u64 \<Rightarrow> u64" where
  "change_endian64 d = (let inp = le_bytes 8 d in le_word (map (\<lambda>i. inp ! (7 - i)) [0..<8]))"

definition hpguppi_udp_packet_seq_num_from_payload :: "u8 list \<Rightarrow> u64 cres" where
  "hpguppi_udp_packet_seq_num_from_payload payload =
     cbind (cload 0 8 payload) (\<lambda>b. Inr (change_endian64 (le_word b) AND 0x00FFFFFFFFFFFFFF))"

definition hpguppi_udp_packet_seq_num :: "hpguppi_udp_packet \<Rightarrow> u64 cres" where
  "hpguppi_udp_packet_seq_num p = hpguppi_udp_packet_seq_num_from_payload (pkt_data p)"

definition hpguppi_udp_packet_datasize :: "u64 \<Rightarrow> u64" where
  "hpguppi_udp_packet_datasize sz =
     (if sz = PACKET_SIZE_1SFA then 8192 else if sz = PACKET_SIZE_SHORT then 512 else sz - 2 * 8)"

definition hpguppi_udp_packet_data_from_payload :: "u64 \<Rightarrow> nat" where
  "hpguppi_udp_packet_data_from_payload payload_size = (if payload_size = PACKET_SIZE_PASP then 16 else 8)"

definition hpguppi_udp_packet_data :: "hpguppi_udp_packet \<Rightarrow> nat" where
  "hpguppi_udp_packet_data p = hpguppi_udp_packet_data_from_payload (pkt_size p)"

definition hpguppi_udp_packet_flags_from_payload :: "u8 list \<Rightarrow> u64 \<Rightarrow> u64 cres" where
  "hpguppi_udp_packet_flags_from_payload payload payload_size =
     cbind (cload (unat (payload_size - 8)) 8 payload) (\<lambda>b. Inr (le_word b))"

definition hpguppi_udp_packet_flags :: "hpguppi_udp_packet \<Rightarrow> u64 cres" where
  "hpguppi_udp_packet_flags p = hpguppi_udp_packet_flags_from_payload (pkt_data p) (pkt_size p)"

section \<open>Copying the data\<close>

definition hpguppi_udp_packet_data_copy_from_payload :: "u8 list \<Rightarrow> u8 list \<Rightarrow> u64 \<Rightarrow> u8 list cres" where
  "hpguppi_udp_packet_data_copy_from_payload out payload payload_size =
     (let packet_data = hpguppi_udp_packet_data_from_payload payload_size in
      if payload_size = PACKET_SIZE_1SFA_OLD then
        let pad = 16; spec_data_size = 4096 - 2 * pad in
        cbind (memzero 0 pad out) (\<lambda>out.
        cbind (memcpy pad packet_data spec_data_size payload out) (\<lambda>out.
        cbind (memzero (pad + spec_data_size) (2 * pad) out) (\<lambda>out.
        cbind (memcpy (pad + spec_data_size + pad + pad) (packet_data + spec_data_size) spec_data_size payload out)
          (memzero (pad + spec_data_size + pad + pad + spec_data_size) pad))))
      else memcpy 0 packet_data (unat (hpguppi_udp_packet_datasize payload_size)) payload out)"

definition hpguppi_udp_packet_data_copy :: "u8 list \<Rightarrow> hpguppi_udp_packet \<Rightarrow> u8 list cres" where
  "hpguppi_udp_packet_data_copy out p = hpguppi_udp_packet_data_copy_from_payload out (pkt_data p) (pkt_size p)"

text \<open>The number of samples of a packet: a 64-bit quotient cut to 32 bits.\<close>

definition samp_per_packet :: "u32 \<Rightarrow> u64 \<Rightarrow> u32 cres" where
  "samp_per_packet nchan payload_size =
     (if nchan = 0 then Inl DivZero
      else Inr (ucast (hpguppi_udp_packet_datasize payload_size div 4 div ucast nchan)))"

text \<open>
  The corner turn. The state of the inner loop is the two pointers and the buffer, the state of
  the outer loop the output pointer and the buffer.
\<close>

definition transpose_sample ::
  "u8 list \<Rightarrow> nat \<Rightarrow> nat \<Rightarrow> (nat \<times> nat) \<times> u8 list \<Rightarrow> ((nat \<times> nat) \<times> u8 list) cres" where
  "transpose_sample payload chan_per_packet isamp = (\<lambda>((optr, iptr), databuf).
     cbind (memcpy optr iptr 4 payload databuf) (\<lambda>databuf.
       Inr ((optr + 4, iptr + chan_per_packet * 4), databuf)))"

definition transpose_chan ::
  "u8 list \<Rightarrow> nat \<Rightarrow> nat \<Rightarrow> nat \<Rightarrow> u32 \<Rightarrow> nat \<Rightarrow> nat \<times> u8 list \<Rightarrow> (nat \<times> u8 list) cres" where
  "transpose_chan payload inp chan_per_packet nsamp gap ichan = (\<lambda>(optr, databuf).
     cbind (cfold (transpose_sample payload chan_per_packet) [0..<nsamp] ((optr, inp + ichan * 4), databuf))
       (\<lambda>((optr, iptr), databuf). Inr (optr + 4 * unat gap, databuf)))"

definition hpguppi_udp_packet_data_copy_transpose_from_payload ::
  "u8 list \<Rightarrow> u32 \<Rightarrow> u32 \<Rightarrow> u32 \<Rightarrow> u8 list \<Rightarrow> u64 \<Rightarrow> u8 list cres" where
  "hpguppi_udp_packet_data_copy_transpose_from_payload databuf nchan block_pkt_idx packets_per_block payload payload_size =
     cbind (samp_per_packet nchan payload_size) (\<lambda>spp.
       let inp = hpguppi_udp_packet_data_from_payload payload_size;
           optr = 4 * unat (block_pkt_idx * spp);
           samp_per_block = packets_per_block * spp in
       cbind (cfold (transpose_chan payload inp (unat nchan) (unat spp) (samp_per_block - spp)) [0..<unat nchan]
           (optr, databuf)) (\<lambda>(optr, databuf). Inr databuf))"

definition hpguppi_udp_packet_data_copy_transpose ::
  "u8 list \<Rightarrow> u32 \<Rightarrow> u32 \<Rightarrow> u32 \<Rightarrow> hpguppi_udp_packet \<Rightarrow> u8 list cres" where
  "hpguppi_udp_packet_data_copy_transpose databuf nchan block_pkt_idx packets_per_block p =
     hpguppi_udp_packet_data_copy_transpose_from_payload databuf nchan block_pkt_idx packets_per_block
       (pkt_data p) (pkt_size p)"

text \<open>
  The routine it replaced, still in the file under \<^verbatim>\<open>#if 0\<close>: time in the outer loop, the input
  pointer runs through the packet.
\<close>

definition old_transpose_chan ::
  "u8 list \<Rightarrow> u32 \<Rightarrow> nat \<Rightarrow> (nat \<times> nat) \<times> u8 list \<Rightarrow> ((nat \<times> nat) \<times> u8 list) cres" where
  "old_transpose_chan payload samp_per_block ichan = (\<lambda>((optr, iptr), databuf).
     cbind (memcpy optr iptr 4 payload databuf) (\<lambda>databuf.
       Inr ((optr + 4 * unat samp_per_block, iptr + 4), databuf)))"

definition old_transpose_sample ::
  "u8 list \<Rightarrow> nat \<Rightarrow> u32 \<Rightarrow> u32 \<Rightarrow> nat \<Rightarrow> nat \<times> u8 list \<Rightarrow> (nat \<times> u8 list) cres" where
  "old_transpose_sample payload chan_per_packet first samp_per_block isamp = (\<lambda>(iptr, databuf).
     cbind (cfold (old_transpose_chan payload samp_per_block) [0..<chan_per_packet]
         ((4 * unat (first + of_nat isamp), iptr), databuf))
       (\<lambda>((optr, iptr), databuf). Inr (iptr, databuf)))"

definition old_copy_transpose :: "u8 list \<Rightarrow> u32 \<Rightarrow> u32 \<Rightarrow> u32 \<Rightarrow> u8 list \<Rightarrow> u64 \<Rightarrow> u8 list cres" where
  "old_copy_transpose databuf nchan block_pkt_idx packets_per_block payload payload_size =
     cbind (samp_per_packet nchan payload_size) (\<lambda>spp.
       cbind (cfold (old_transpose_sample payload (unat nchan) (block_pkt_idx * spp) (packets_per_block * spp))
           [0..<unat spp] (hpguppi_udp_packet_data_from_payload payload_size, databuf))
         (\<lambda>(iptr, databuf). Inr databuf))"

section \<open>Other packet formats\<close>

text \<open>
  Serendip 6 packets carry pairs of channels as \<^verbatim>\<open>X0 X1 Y0 Y1\<close>, 16 bits each; loads and stores are
  little-endian. \<open>block_chan\<close> is a signed 32-bit number.
\<close>

definition s6_chan_per_packet :: "u64 \<Rightarrow> u32" where
  "s6_chan_per_packet payload_size = ucast ((payload_size - 16) div 4)"

definition s6_reorder :: "u64 \<Rightarrow> u64" where
  "s6_reorder d = (d AND 0xffff00000000ffff) OR (push_bit 16 d AND 0x0000ffff00000000) OR
     (drop_bit 16 d AND 0x00000000ffff0000)"

definition s6_pair :: "u8 list \<Rightarrow> nat \<Rightarrow> (nat \<times> nat) \<times> u8 list \<Rightarrow> ((nat \<times> nat) \<times> u8 list) cres" where
  "s6_pair payload ichan = (\<lambda>((iptr, optr), databuf).
     cbind (cload iptr 8 payload) (\<lambda>b.
     cbind (blit optr (le_bytes 8 (s6_reorder (le_word b))) databuf) (\<lambda>databuf.
       Inr ((iptr + 8, optr + 8), databuf))))"

definition hpguppi_s6_packet_data_copy_from_payload ::
  "u8 list \<Rightarrow> u32 \<Rightarrow> u32 \<Rightarrow> u32 \<Rightarrow> u8 list \<Rightarrow> u64 \<Rightarrow> u8 list cres" where
  "hpguppi_s6_packet_data_copy_from_payload databuf block_chan block_time obsnchan payload payload_size =
     cbind (cfold (s6_pair payload) [0..<unat (s6_chan_per_packet payload_size div 2)]
         ((8, unat (ucast (block_time * obsnchan) * 4 + scast block_chan * 4 :: u64)), databuf))
       (\<lambda>(ptrs, databuf). Inr databuf)"

definition s6_first :: "u64 \<Rightarrow> u32" where
  "s6_first d = ucast ((drop_bit 32 d AND 0xffff0000) OR (drop_bit 16 d AND 0x0000ffff))"

definition s6_second :: "u64 \<Rightarrow> u32" where
  "s6_second d = ucast ((drop_bit 16 d AND 0xffff0000) OR (d AND 0x0000ffff))"

definition s6_pair_transpose ::
  "u8 list \<Rightarrow> u32 \<Rightarrow> nat \<Rightarrow> (nat \<times> nat) \<times> u8 list \<Rightarrow> ((nat \<times> nat) \<times> u8 list) cres" where
  "s6_pair_transpose payload ntime_per_block ichan = (\<lambda>((iptr, optr), databuf).
     let stride = 4 * unat (ucast ntime_per_block * 4 div 4 :: u64) in
     cbind (cload iptr 8 payload) (\<lambda>b.
     cbind (blit optr (le_bytes 4 (s6_first (le_word b))) databuf) (\<lambda>databuf.
     cbind (blit (optr + stride) (le_bytes 4 (s6_second (le_word b))) databuf) (\<lambda>databuf.
       Inr ((iptr + 8, optr + stride + stride), databuf)))))"

definition hpguppi_s6_packet_data_copy_transpose_from_payload ::
  "u8 list \<Rightarrow> u32 \<Rightarrow> u32 \<Rightarrow> u32 \<Rightarrow> u8 list \<Rightarrow> u64 \<Rightarrow> u8 list cres" where
  "hpguppi_s6_packet_data_copy_transpose_from_payload databuf block_chan block_time ntime_per_block payload payload_size =
     cbind (cfold (s6_pair_transpose payload ntime_per_block) [0..<unat (s6_chan_per_packet payload_size div 2)]
         ((8, unat (ucast (block_chan * ntime_per_block) * 4 + ucast block_time * 4 :: u64)), databuf))
       (\<lambda>(ptrs, databuf). Inr databuf)"

definition s6mb_row :: "u8 list \<Rightarrow> nat \<Rightarrow> nat \<Rightarrow> nat \<Rightarrow> (nat \<times> nat) \<times> u8 list \<Rightarrow> ((nat \<times> nat) \<times> u8 list) cres" where
  "s6mb_row payload istride ostride ichan = (\<lambda>((iptr, optr), databuf).
     cbind (memcpy optr iptr istride payload databuf) (\<lambda>databuf.
       Inr ((iptr + istride, optr + ostride), databuf)))"

definition hpguppi_s6mb_packet_data_copy_from_payload ::
  "u8 list \<Rightarrow> u32 \<Rightarrow> u32 \<Rightarrow> u32 \<Rightarrow> u8 list \<Rightarrow> u8 list cres" where
  "hpguppi_s6mb_packet_data_copy_from_payload databuf block_chan block_time ntime_per_block payload =
     (let chan_per_packet = 4; istride = 512 * 4; ostride = unat (ucast ntime_per_block * 4 :: u64) in
      cbind (cfold (s6mb_row payload istride ostride) [0..<chan_per_packet]
          ((8, unat (ucast (block_chan * ntime_per_block) * 4 + ucast block_time * 4 :: u64)), databuf))
        (\<lambda>(ptrs, databuf). Inr databuf))"

section \<open>Parkes packets\<close>

definition parkes_udp_packet_datasize :: "u64 \<Rightarrow> u64" where
  "parkes_udp_packet_datasize sz = sz - 8"

text \<open>
  \<open>tmp\<close> is the local array with whatever it holds; \<open>pol\<close> are the pointers into it, \<open>inp\<close> the one into
  the packet. \<open>nchan\<close> is a signed number.
\<close>

definition parkes_2pol :: "u8 list \<Rightarrow> nat \<Rightarrow> (nat \<times> nat \<times> nat) \<times> u8 list \<Rightarrow> ((nat \<times> nat \<times> nat) \<times> u8 list) cres" where
  "parkes_2pol payload i = (\<lambda>((pol0, pol1, inp), tmp).
     cbind (memcpy pol0 inp 2 payload tmp) (\<lambda>tmp.
     cbind (memcpy pol1 (inp + 2) 2 payload tmp) (\<lambda>tmp.
       Inr ((pol0 + 2, pol1 + 2, inp + 4), tmp))))"

definition parkes_4pol ::
  "u8 list \<Rightarrow> nat \<Rightarrow> (nat \<times> nat \<times> nat \<times> nat \<times> nat) \<times> u8 list \<Rightarrow>
     ((nat \<times> nat \<times> nat \<times> nat \<times> nat) \<times> u8 list) cres" where
  "parkes_4pol payload i = (\<lambda>((pol0, pol1, pol2, pol3, inp), tmp).
     cbind (memcpy pol0 inp 1 payload tmp) (\<lambda>tmp.
     cbind (memcpy pol1 (inp + 1) 1 payload tmp) (\<lambda>tmp.
     cbind (memcpy pol2 (inp + 2) 1 payload tmp) (\<lambda>tmp.
     cbind (memcpy pol3 (inp + 3) 1 payload tmp) (\<lambda>tmp.
       Inr ((pol0 + 1, pol1 + 1, pol2 + 1, pol3 + 1, inp + 4), tmp))))))"

definition parkes_reorder :: "u8 list \<Rightarrow> int \<Rightarrow> nat \<Rightarrow> u8 list \<Rightarrow> u8 list cres" where
  "parkes_reorder payload npol nchan tmp =
     (if npol = 2 then
        cbind (cfold (parkes_2pol payload) [0..<nchan div 2] ((0, nchan, 8), tmp)) (\<lambda>(ptrs, tmp). Inr tmp)
      else if npol = 4 then
        cbind (cfold (parkes_4pol payload) [0..<nchan] ((0, nchan, 2 * nchan, 3 * nchan, 8), tmp)) (\<lambda>(ptrs, tmp). Inr tmp)
      else Inr tmp)"

text \<open>For \<open>nchan\<close> at least 0; \<open>counts_per_packet\<close> is an unsigned 32-bit number.\<close>

definition parkes_to_guppi_from_payload :: "u8 list \<Rightarrow> int \<Rightarrow> int \<Rightarrow> nat \<Rightarrow> u8 list \<Rightarrow> u8 list cres" where
  "parkes_to_guppi_from_payload payload acc_len npol nchan tmp =
     (let counts_per_packet = word_of_int (int (nchan div 2) * acc_len) :: u32 in
      cbind (cload 0 8 payload) (\<lambda>b.
      if counts_per_packet = 0 then Inl DivZero
      else cbind (blit 0 (le_bytes 8 (change_endian64 (change_endian64 (le_word b) div ucast counts_per_packet))) payload)
        (\<lambda>payload.
      cbind (parkes_reorder payload npol nchan tmp) (\<lambda>tmp.
        memcpy 8 0 (unat (word_of_int (npol * int nchan) :: u64)) tmp payload))))"

definition parkes_to_guppi :: "hpguppi_udp_packet \<Rightarrow> int \<Rightarrow> int \<Rightarrow> nat \<Rightarrow> u8 list \<Rightarrow> hpguppi_udp_packet cres" where
  "parkes_to_guppi b acc_len npol nchan tmp =
     cbind (parkes_to_guppi_from_payload (pkt_data b) acc_len npol nchan tmp) (\<lambda>d. Inr (b\<lparr>pkt_data := d\<rparr>))"

section \<open>The corner turn\<close>

text \<open>Both loops are loops over the cells of the block they fill, in different orders.\<close>

lemma transpose_sample_loop:
  "cfold (transpose_sample payload C) [0..<n] ((optr, iptr), db) =
   cbind (cfold (\<lambda>t. memcpy (optr + t * 4) (iptr + t * (C * 4)) 4 payload) [0..<n] db)
     (\<lambda>db. Inr ((optr + n * 4, iptr + n * (C * 4)), db))"
  using pointer_loop [of n "transpose_sample payload C" "\<lambda>t. (optr + t * 4, iptr + t * (C * 4))"
      "\<lambda>t. memcpy (optr + t * 4) (iptr + t * (C * 4)) 4 payload" db]
  by (simp add: transpose_sample_def algebra_simps)

lemma transpose_chan_loop:
  assumes "unat gap + S = SB"
  shows "cfold (transpose_chan payload inp C S gap) [0..<n] (optr, db) =
    cbind (cfold (\<lambda>(c, t). memcpy (optr + c * (SB * 4) + t * 4) (inp + c * 4 + t * (C * 4)) 4 payload)
        (List.product [0..<n] [0..<S]) db) (\<lambda>db. Inr (optr + n * (SB * 4), db))"
proof -
  have gap: "optr + c * (SB * 4) + S * 4 + 4 * unat gap = optr + Suc c * (SB * 4)" for c using assms by auto
  have "transpose_chan payload inp C S gap c (optr + c * (SB * 4), d) =
      cbind (cfold (\<lambda>t. memcpy (optr + c * (SB * 4) + t * 4) (inp + c * 4 + t * (C * 4)) 4 payload) [0..<S] d)
        (\<lambda>d. Inr (optr + Suc c * (SB * 4), d))" for c d
    by (simp only: transpose_chan_def prod.case transpose_sample_loop cbind_assoc cbind_Inr gap)
  from pointer_loop [of n "transpose_chan payload inp C S gap" "\<lambda>c. optr + c * (SB * 4)", OF this, of db] show ?thesis
    unfolding cfold_product [symmetric] by simp
qed

lemma old_transpose_chan_loop:
  "cfold (old_transpose_chan payload sb) [0..<n] ((optr, iptr), db) =
   cbind (cfold (\<lambda>c. memcpy (optr + c * (unat sb * 4)) (iptr + c * 4) 4 payload) [0..<n] db)
     (\<lambda>db. Inr ((optr + n * (unat sb * 4), iptr + n * 4), db))"
  using pointer_loop [of n "old_transpose_chan payload sb" "\<lambda>c. (optr + c * (unat sb * 4), iptr + c * 4)"
      "\<lambda>c. memcpy (optr + c * (unat sb * 4)) (iptr + c * 4) 4 payload" db]
  by (simp add: old_transpose_chan_def algebra_simps)

lemma old_transpose_sample_loop:
  assumes "unat first + n < 2 ^ 32"
  shows "cfold (old_transpose_sample payload C first sb) [0..<n] (inp, db) =
    cbind (cfold (\<lambda>(t, c). memcpy ((unat first + t) * 4 + c * (unat sb * 4)) (inp + t * (C * 4) + c * 4) 4 payload)
        (List.product [0..<n] [0..<C]) db) (\<lambda>db. Inr (inp + n * (C * 4), db))"
proof -
  have f: "unat (first + of_nat t) = unat first + t" if "t < n" for t
    using assms that by (subst unat_add_small) (simp_all add: unat_of_nat_small)
  have "old_transpose_sample payload C first sb t (inp + t * (C * 4), d) =
      cbind (cfold (\<lambda>c. memcpy ((unat first + t) * 4 + c * (unat sb * 4)) (inp + t * (C * 4) + c * 4) 4 payload) [0..<C] d)
        (\<lambda>d. Inr (inp + Suc t * (C * 4), d))" if "t < n" for t d
    using f [OF that] by (simp add: old_transpose_sample_def old_transpose_chan_loop cbind_assoc algebra_simps)
  from pointer_loop [of n "old_transpose_sample payload C first sb" "\<lambda>t. inp + t * (C * 4)", OF this, of db] show ?thesis
    unfolding cfold_product [symmetric] by simp
qed

text \<open>The cells of packet \<open>idx\<close> in a block and what goes there.\<close>

definition turned :: "u8 list \<Rightarrow> nat \<Rightarrow> nat \<Rightarrow> nat \<Rightarrow> nat \<times> nat \<Rightarrow> u8 list" where
  "turned payload inp C first = (\<lambda>(c, t). peek (inp + ((t - first) * C + c) * 4) 4 payload)"

definition turn_ok :: "u32 \<Rightarrow> u32 \<Rightarrow> u32 \<Rightarrow> u32 \<Rightarrow> u64 \<Rightarrow> u8 list \<Rightarrow> u8 list \<Rightarrow> bool" where
  "turn_ok nchan spp idx ppb payload_size payload databuf \<longleftrightarrow>
     samp_per_packet nchan payload_size = Inr spp \<and> spp \<noteq> 0 \<and> unat idx < unat ppb \<and>
     unat ppb * unat spp < 2 ^ 32 \<and>
     hpguppi_udp_packet_data_from_payload payload_size + unat spp * unat nchan * 4 \<le> length payload \<and>
     unat nchan * (unat ppb * unat spp) * 4 \<le> length databuf"

lemma turn_okD:
  assumes "turn_ok nchan spp idx ppb payload_size payload databuf"
  shows "unat (ppb * spp) = unat ppb * unat spp" "unat (idx * spp) = unat idx * unat spp"
    "unat idx * unat spp + unat spp \<le> unat ppb * unat spp"
    "unat (ppb * spp - spp) + unat spp = unat ppb * unat spp"
    "unat (idx * spp) + unat spp < 2 ^ 32"
proof -
  have a: "unat idx < unat ppb" "unat ppb * unat spp < 2 ^ 32" using assms by (simp_all add: turn_ok_def)
  have "Suc (unat idx) * unat spp \<le> unat ppb * unat spp" using a(1) by (intro mult_le_mono1) simp
  then show le: "unat idx * unat spp + unat spp \<le> unat ppb * unat spp" by simp
  show p: "unat (ppb * spp) = unat ppb * unat spp" using a(2) by (simp add: unat_mult_small)
  show i: "unat (idx * spp) = unat idx * unat spp" using le a(2) by (intro unat_mult_small) simp
  have "unat spp \<le> unat (ppb * spp)" using le p by linarith
  then have "spp \<le> ppb * spp" by (simp add: word_le_nat_alt)
  then have "unat (ppb * spp - spp) = unat ppb * unat spp - unat spp" using p by (simp add: unat_sub)
  then show "unat (ppb * spp - spp) + unat spp = unat ppb * unat spp" using le by linarith
  show "unat (idx * spp) + unat spp < 2 ^ 32" using le a(2) i by linarith
qed

lemma turn_source:
  assumes "turn_ok nchan spp idx ppb payload_size payload databuf" "c < unat nchan" "t < unat spp"
  shows "hpguppi_udp_packet_data_from_payload payload_size + (t * unat nchan + c) * 4 + 4 \<le> length payload"
proof -
  have "Suc (t * unat nchan + c) * 4 \<le> unat spp * unat nchan * 4"
    using row_major_less [OF assms(3,2)] by (intro mult_le_mono1) simp
  then show ?thesis using assms(1) by (simp add: turn_ok_def)
qed

lemma turn_copy:
  assumes ok: "turn_ok nchan spp idx ppb payload_size payload databuf" and ct: "c < unat nchan" "t < unat spp"
    and i: "i = hpguppi_udp_packet_data_from_payload payload_size + (t * unat nchan + c) * 4"
    and d: "d = row_offset (unat ppb * unat spp) 4 (c, unat idx * unat spp + t)"
  shows "memcpy d i 4 payload = blit (row_offset (unat ppb * unat spp) 4 (c, unat idx * unat spp + t))
    (turned payload (hpguppi_udp_packet_data_from_payload payload_size) (unat nchan) (unat idx * unat spp) (c, unat idx * unat spp + t))"
  using turn_source [OF ok ct] by (simp add: fun_eq_iff memcpy_ok i d turned_def)

abbreviation (input) turn_cells :: "u32 \<Rightarrow> u32 \<Rightarrow> u32 \<Rightarrow> (nat \<times> nat) list" where
  "turn_cells nchan spp idx \<equiv> List.product [0..<unat nchan] [unat idx * unat spp..<unat idx * unat spp + unat spp]"

lemma new_transpose_cells:
  assumes ok: "turn_ok nchan spp idx ppb payload_size payload databuf"
  shows "hpguppi_udp_packet_data_copy_transpose_from_payload databuf nchan idx ppb payload payload_size =
    cfold (\<lambda>k. blit (row_offset (unat ppb * unat spp) 4 k)
        (turned payload (hpguppi_udp_packet_data_from_payload payload_size) (unat nchan) (unat idx * unat spp) k))
      (turn_cells nchan spp idx) databuf"
proof -
  let ?inp = "hpguppi_udp_packet_data_from_payload payload_size" and ?C = "unat nchan" and ?S = "unat spp"
  let ?SB = "unat ppb * unat spp" and ?f = "unat idx * unat spp"
  have cells: "turn_cells nchan spp idx = map (\<lambda>(c, t). (c, ?f + t)) (List.product [0..<?C] [0..<?S])"
    using map_add_upt [of ?f ?S, symmetric] by (simp add: product_concat_map map_concat comp_def add.commute)
  have "hpguppi_udp_packet_data_copy_transpose_from_payload databuf nchan idx ppb payload payload_size =
      cfold (\<lambda>(c, t). memcpy (4 * ?f + c * (?SB * 4) + t * 4) (?inp + c * 4 + t * (?C * 4)) 4 payload)
        (List.product [0..<?C] [0..<?S]) databuf"
    using ok turn_okD [OF ok]
    by (simp add: hpguppi_udp_packet_data_copy_transpose_from_payload_def turn_ok_def Let_def
        transpose_chan_loop [where SB = ?SB] cbind_assoc)
  also have "\<dots> = cfold (\<lambda>(c, t). blit (row_offset ?SB 4 (c, ?f + t)) (turned payload ?inp ?C ?f (c, ?f + t)))
      (List.product [0..<?C] [0..<?S]) databuf"
    by (rule cfold_cong, simp, clarsimp, rule turn_copy [OF ok, THEN fun_cong]) (simp_all add: row_offset_def algebra_simps)
  also have "\<dots> = cfold (\<lambda>k. blit (row_offset ?SB 4 k) (turned payload ?inp ?C ?f k)) (turn_cells nchan spp idx) databuf"
    unfolding cells cfold_map by (rule cfold_cong) auto
  finally show ?thesis .
qed

lemma old_transpose_cells:
  assumes ok: "turn_ok nchan spp idx ppb payload_size payload databuf"
  shows "old_copy_transpose databuf nchan idx ppb payload payload_size =
    cfold (\<lambda>k. blit (row_offset (unat ppb * unat spp) 4 k)
        (turned payload (hpguppi_udp_packet_data_from_payload payload_size) (unat nchan) (unat idx * unat spp) k))
      (map prod.swap (List.product [unat idx * unat spp..<unat idx * unat spp + unat spp] [0..<unat nchan])) databuf"
proof -
  let ?inp = "hpguppi_udp_packet_data_from_payload payload_size" and ?C = "unat nchan" and ?S = "unat spp"
  let ?SB = "unat ppb * unat spp" and ?f = "unat idx * unat spp"
  have cells: "map prod.swap (List.product [?f..<?f + ?S] [0..<?C]) =
      map (\<lambda>(t, c). (c, ?f + t)) (List.product [0..<?S] [0..<?C])"
    using map_add_upt [of ?f ?S, symmetric] by (simp add: product_concat_map map_concat comp_def add.commute)
  have "old_copy_transpose databuf nchan idx ppb payload payload_size =
      cfold (\<lambda>(t, c). memcpy ((?f + t) * 4 + c * (?SB * 4)) (?inp + t * (?C * 4) + c * 4) 4 payload)
        (List.product [0..<?S] [0..<?C]) databuf"
    using ok turn_okD [OF ok]
    by (simp add: old_copy_transpose_def turn_ok_def Let_def old_transpose_sample_loop cbind_assoc)
  also have "\<dots> = cfold (\<lambda>(t, c). blit (row_offset ?SB 4 (c, ?f + t)) (turned payload ?inp ?C ?f (c, ?f + t)))
      (List.product [0..<?S] [0..<?C]) databuf"
    by (rule cfold_cong, simp, clarsimp, rule turn_copy [OF ok, THEN fun_cong]) (simp_all add: row_offset_def algebra_simps)
  also have "\<dots> = cfold (\<lambda>k. blit (row_offset ?SB 4 k) (turned payload ?inp ?C ?f k))
      (map prod.swap (List.product [?f..<?f + ?S] [0..<?C])) databuf"
    unfolding cells cfold_map by (rule cfold_cong) auto
  finally show ?thesis .
qed

lemma turn_cells_ok:
  assumes ok: "turn_ok nchan spp idx ppb payload_size payload databuf"
  shows "\<forall>k \<in> set (turn_cells nchan spp idx). row_valid (unat nchan) (unat ppb * unat spp) k \<and>
    length (turned payload (hpguppi_udp_packet_data_from_payload payload_size) (unat nchan) (unat idx * unat spp) k) = 4"
proof (clarify, intro conjI)
  fix c t assume k: "(c, t) \<in> set (turn_cells nchan spp idx)"
  then show "row_valid (unat nchan) (unat ppb * unat spp) (c, t)"
    using turn_okD(3) [OF ok] by (auto simp: row_valid_def)
  have "t - unat idx * unat spp < unat spp" "c < unat nchan" using k by auto
  then show "length (turned payload (hpguppi_udp_packet_data_from_payload payload_size) (unat nchan) (unat idx * unat spp) (c, t)) = 4"
    using turn_source [OF ok, of c "t - unat idx * unat spp"] by (simp add: turned_def length_peek)
qed

text \<open>The order in which the cells are stored does not matter: both routines leave the same block.\<close>

lemma copy_transpose_as_before:
  assumes ok: "turn_ok nchan spp idx ppb payload_size payload databuf"
  shows "hpguppi_udp_packet_data_copy_transpose_from_payload databuf nchan idx ppb payload payload_size =
    old_copy_transpose databuf nchan idx ppb payload payload_size"
  unfolding new_transpose_cells [OF ok] old_transpose_cells [OF ok]
proof (rule rows.scatter_order)
  show "set (turn_cells nchan spp idx) =
      set (map prod.swap (List.product [unat idx * unat spp..<unat idx * unat spp + unat spp] [0..<unat nchan]))"
    by auto
  show "unat nchan * (unat ppb * unat spp) * 4 \<le> length databuf" using ok by (simp add: turn_ok_def)
qed (rule turn_cells_ok [OF ok])

text \<open>
  C31: the corner turn. When the packet holds its samples, its number is in the block and the block
  has room for all channels, copying a packet with transposition succeeds, puts sample \<open>t\<close> of channel
  \<open>c\<close> of packet \<open>idx\<close> at sample \<open>idx * spp + t\<close> of row \<open>c\<close> of the block, and changes no other byte. The
  routine it replaced, which is kept in the file between preprocessor conditionals, has the same
  result on the same arguments, although it stores the samples in another order.
\<close>

theorem copy_transpose_turns:
  assumes ok: "turn_ok nchan spp idx ppb payload_size payload databuf"
  shows "\<exists>r. hpguppi_udp_packet_data_copy_transpose_from_payload databuf nchan idx ppb payload payload_size = Inr r \<and>
    length r = length databuf \<and>
    (\<forall>c < unat nchan. \<forall>t < unat spp. peek ((c * (unat ppb * unat spp) + (unat idx * unat spp + t)) * 4) 4 r =
      peek (hpguppi_udp_packet_data_from_payload payload_size + (t * unat nchan + c) * 4) 4 payload) \<and>
    (\<forall>i < length databuf. (\<forall>c < unat nchan. \<forall>t < unat spp.
        i div 4 \<noteq> c * (unat ppb * unat spp) + (unat idx * unat spp + t)) \<longrightarrow> r ! i = databuf ! i) \<and>
    old_copy_transpose databuf nchan idx ppb payload payload_size = Inr r"
proof -
  let ?SB = "unat ppb * unat spp" and ?f = "unat idx * unat spp"
  have room: "unat nchan * ?SB * 4 \<le> length databuf" using ok by (simp add: turn_ok_def)
  obtain r where r: "hpguppi_udp_packet_data_copy_transpose_from_payload databuf nchan idx ppb payload payload_size = Inr r"
      "length r = length databuf"
      "\<forall>k \<in> set (turn_cells nchan spp idx). peek (row_offset ?SB 4 k) 4 r =
        turned payload (hpguppi_udp_packet_data_from_payload payload_size) (unat nchan) ?f k"
      "\<forall>i < length databuf. (\<forall>k \<in> set (turn_cells nchan spp idx). i < row_offset ?SB 4 k \<or> row_offset ?SB 4 k + 4 \<le> i)
        \<longrightarrow> r ! i = databuf ! i"
    using rows.scatter [OF turn_cells_ok [OF ok] room, folded new_transpose_cells [OF ok]] by (elim exE conjE) (rule that)
  have "peek ((c * ?SB + (?f + t)) * 4) 4 r =
      peek (hpguppi_udp_packet_data_from_payload payload_size + (t * unat nchan + c) * 4) 4 payload"
    if "c < unat nchan" "t < unat spp" for c t
    using r(3) [rule_format, of "(c, ?f + t)"] that by (simp add: row_offset_def turned_def)
  moreover have "r ! i = databuf ! i"
    if i: "i < length databuf" "\<forall>c < unat nchan. \<forall>t < unat spp. i div 4 \<noteq> c * ?SB + (?f + t)" for i
  proof -
    have "i < row_offset ?SB 4 k \<or> row_offset ?SB 4 k + 4 \<le> i" if kin: "k \<in> set (turn_cells nchan spp idx)" for k
    proof -
      obtain c u where u: "k = (c, u)" "c < unat nchan" "?f \<le> u" "u < ?f + unat spp" using kin by auto
      define t where "t = u - ?f"
      then have k: "k = (c, ?f + t)" "c < unat nchan" "t < unat spp" using u by auto
      have "i div 4 \<noteq> c * ?SB + (?f + t)" using i(2) k(2,3) by blast
      moreover have "i div 4 \<noteq> x \<Longrightarrow> i < x * 4 \<or> x * 4 + 4 \<le> i" for x by linarith
      ultimately show ?thesis unfolding k(1) row_offset_def prod.case by blast
    qed
    then show ?thesis using r(4) i(1) by blast
  qed
  ultimately show ?thesis using r(1,2) copy_transpose_as_before [OF ok] by auto
qed

lemma example_turn: "turn_ok 2 2 1 3 32 (replicate 8 0 @ replicate 16 7 @ replicate 8 0) (replicate 48 0)"
  by (simp add: turn_ok_def samp_per_packet_def hpguppi_udp_packet_datasize_def hpguppi_udp_packet_data_from_payload_def cconst)

theorem copy_transpose_turns_witness:
  "\<exists>r. hpguppi_udp_packet_data_copy_transpose_from_payload (replicate 48 0) 2 1 3
      (replicate 8 0 @ replicate 16 7 @ replicate 8 0) 32 = Inr r \<and> length r = 48 \<and> peek 32 4 r = replicate 4 7 \<and> r ! 0 = 0"
proof -
  obtain r where r: "hpguppi_udp_packet_data_copy_transpose_from_payload (replicate 48 0) 2 1 3
      (replicate 8 0 @ replicate 16 7 @ replicate 8 0) 32 = Inr r" "length r = 48"
      "\<forall>c < unat (2 :: u32). \<forall>t < unat (2 :: u32). peek ((c * (unat (3 :: u32) * unat (2 :: u32)) + (unat (1 :: u32) * unat (2 :: u32) + t)) * 4) 4 r =
        peek (hpguppi_udp_packet_data_from_payload 32 + (t * unat (2 :: u32) + c) * 4) 4
          (replicate 8 0 @ replicate 16 7 @ replicate 8 0)"
      "\<forall>i < 48. (\<forall>c < unat (2 :: u32). \<forall>t < unat (2 :: u32).
        i div 4 \<noteq> c * (unat (3 :: u32) * unat (2 :: u32)) + (unat (1 :: u32) * unat (2 :: u32) + t)) \<longrightarrow> r ! i = replicate 48 (0 :: u8) ! i"
    using copy_transpose_turns [OF example_turn, unfolded length_replicate] by (elim exE conjE) (rule that)
  have "peek 32 4 r = replicate 4 7"
    using r(3) [rule_format, of 1 0] by (simp add: hpguppi_udp_packet_data_from_payload_def cconst peek_def)
  moreover have "r ! 0 = 0" using r(4) [rule_format, of 0] by simp
  ultimately show ?thesis using r(1,2) by blast
qed

section \<open>Serendip 6 packets\<close>

text \<open>The two polarisations of channel \<open>c\<close> of a packet, as the packet format documents them.\<close>

definition s6_sample :: "u8 list \<Rightarrow> nat \<Rightarrow> u8 list" where
  "s6_sample payload c = peek (8 + 8 * (c div 2) + 2 * (c mod 2)) 2 payload @
     peek (8 + 8 * (c div 2) + 4 + 2 * (c mod 2)) 2 payload"

lemma s6_masks:
  "0xffff00000000ffff = (mask 16 OR push_bit 48 (mask 16) :: u64)"
  "0x0000ffff00000000 = (push_bit 32 (mask 16) :: u64)"
  "0xffff0000 = (push_bit 16 (mask 16) :: u64)"
  "0xffff = (mask 16 :: u64)"
  by (simp_all add: mask_eq_exp_minus_1 push_bit_eq_mult)

lemma bytes_of_loaded:
  assumes "length b = 8" "k < 8"
  shows "byte_of (le_word b :: u64) k = b ! k"
proof -
  have "le_bytes 8 (le_word b :: u64) ! k = b ! k" using assms(1) by simp
  then show ?thesis using assms(2) by (simp add: le_bytes_def)
qed

lemma s6_reorder_bytes:
  "byte_of (s6_reorder d) 0 = byte_of d 0" "byte_of (s6_reorder d) 1 = byte_of d 1"
  "byte_of (s6_reorder d) 2 = byte_of d 4" "byte_of (s6_reorder d) 3 = byte_of d 5"
  "byte_of (s6_reorder d) 4 = byte_of d 2" "byte_of (s6_reorder d) 5 = byte_of d 3"
  "byte_of (s6_reorder d) 6 = byte_of d 6" "byte_of (s6_reorder d) 7 = byte_of d 7"
  unfolding s6_reorder_def s6_masks
  by (rule bit_eqI, force simp: bit_byte_of bit_simps)+

lemma s6_row_bytes:
  "byte_of (s6_first d) 0 = byte_of d 2" "byte_of (s6_first d) 1 = byte_of d 3"
  "byte_of (s6_first d) 2 = byte_of d 6" "byte_of (s6_first d) 3 = byte_of d 7"
  "byte_of (s6_second d) 0 = byte_of d 0" "byte_of (s6_second d) 1 = byte_of d 1"
  "byte_of (s6_second d) 2 = byte_of d 4" "byte_of (s6_second d) 3 = byte_of d 5"
  unfolding s6_first_def s6_second_def s6_masks
  by (rule bit_eqI, force simp: bit_byte_of bit_simps)+

lemma le_bytes_4: "le_bytes 4 w = [byte_of w 0, byte_of w 1, byte_of w 2, byte_of w 3]"
  by (simp add: le_bytes_def upt_rec numeral_eq_Suc)

lemma le_bytes_8: "le_bytes 8 w = [byte_of w 0, byte_of w 1, byte_of w 2, byte_of w 3] @
    [byte_of w 4, byte_of w 5, byte_of w 6, byte_of w 7]"
  by (simp add: le_bytes_def upt_rec numeral_eq_Suc)

lemma peek_two: "off + 2 \<le> length xs \<Longrightarrow> peek off 2 xs = [xs ! off, xs ! (off + 1)]"
  by (rule nth_equalityI) (auto simp: nth_peek length_peek less_2_cases_iff)

lemma s6_pair_bytes:
  assumes "8 + 8 * i + 8 \<le> length payload"
  shows "le_bytes 8 (s6_reorder (le_word (peek (8 + 8 * i) 8 payload))) = s6_sample payload (2 * i) @ s6_sample payload (2 * i + 1)"
    "le_bytes 4 (s6_first (le_word (peek (8 + 8 * i) 8 payload))) = s6_sample payload (2 * i + 1)"
    "le_bytes 4 (s6_second (le_word (peek (8 + 8 * i) 8 payload))) = s6_sample payload (2 * i)"
  using assms unfolding le_bytes_8 le_bytes_4 s6_reorder_bytes s6_row_bytes
  by (simp_all add: bytes_of_loaded length_peek nth_peek s6_sample_def peek_two)

lemma length_s6_sample: "8 + 8 * (c div 2) + 8 \<le> length payload \<Longrightarrow> length (s6_sample payload c) = 4"
  by (simp add: s6_sample_def length_peek)

text \<open>A packet of \<open>n\<close> pairs of channels.\<close>

definition s6_packet :: "u64 \<Rightarrow> u8 list \<Rightarrow> nat \<Rightarrow> bool" where
  "s6_packet payload_size payload n \<longleftrightarrow>
     unat (s6_chan_per_packet payload_size div 2) = n \<and> 8 + 8 * n \<le> length payload"

lemma s6_copy_loop:
  assumes "8 + 8 * n \<le> length payload"
  shows "cfold (s6_pair payload) [0..<n] ((8, optr), db) =
    cbind (cfold (\<lambda>c. blit (optr + c * 4) (s6_sample payload c)) [0..<2 * n] db)
      (\<lambda>db. Inr ((8 + n * 8, optr + n * 8), db))"
proof -
  have "s6_pair payload i ((8 + i * 8, optr + i * 8), d) =
      cbind (cbind (blit (optr + 2 * i * 4) (s6_sample payload (2 * i)) d)
          (blit (optr + (2 * i + 1) * 4) (s6_sample payload (2 * i + 1))))
        (\<lambda>d. Inr ((8 + Suc i * 8, optr + Suc i * 8), d))" if i: "i < n" for i d
  proof -
    have "8 + 8 * i + 8 \<le> length payload" using i assms by simp
    note b = s6_pair_bytes(1) [OF this] length_s6_sample [of "2 * i" payload] and len = this
    have "cload (8 + i * 8) 8 payload = Inr (peek (8 + 8 * i) 8 payload)" using len by (simp add: cload_def mult.commute)
    then show ?thesis using b len by (simp add: s6_pair_def blit_append algebra_simps)
  qed
  from pointer_loop [of n "s6_pair payload" "\<lambda>i. (8 + i * 8, optr + i * 8)", OF this, of db]
  show ?thesis
    unfolding cfold_pairs [where f = "\<lambda>c. blit (optr + c * 4) (s6_sample payload c)"] by simp
qed

text \<open>The other channel of a pair.\<close>

definition s6_other :: "nat \<Rightarrow> nat" where
  "s6_other c = (if even c then c + 1 else c - 1)"

lemma s6_transpose_loop:
  assumes "8 + 8 * n \<le> length payload"
  shows "cfold (s6_pair_transpose payload nt) [0..<n] ((8, optr), db) =
    cbind (cfold (\<lambda>c. blit (optr + c * (unat nt * 4)) (s6_sample payload (s6_other c))) [0..<2 * n] db)
      (\<lambda>db. Inr ((8 + n * 8, optr + 2 * n * (unat nt * 4)), db))"
proof -
  have small: "unat nt < 2 ^ 32" using unat_less_exp [of nt] by simp
  then have nt: "unat (ucast nt :: u64) = unat nt" by (subst unat_ucast_small) simp_all
  have "unat (ucast nt * 4 :: u64) = unat nt * 4" using small nt by (subst unat_mult_small) simp_all
  then have stride: "4 * unat (ucast nt * 4 div 4 :: u64) = unat nt * 4" by (simp add: unat_div)
  have "s6_pair_transpose payload nt i ((8 + i * 8, optr + 2 * i * (unat nt * 4)), d) =
      cbind (cbind (blit (optr + 2 * i * (unat nt * 4)) (s6_sample payload (s6_other (2 * i))) d)
          (blit (optr + (2 * i + 1) * (unat nt * 4)) (s6_sample payload (s6_other (2 * i + 1)))))
        (\<lambda>d. Inr ((8 + Suc i * 8, optr + 2 * Suc i * (unat nt * 4)), d))" if i: "i < n" for i d
  proof -
    have len: "8 + 8 * i + 8 \<le> length payload" using i assms by simp
    have "cload (8 + i * 8) 8 payload = Inr (peek (8 + 8 * i) 8 payload)" using len by (simp add: cload_def mult.commute)
    then show ?thesis
      using s6_pair_bytes(2,3) [OF len] by (simp add: s6_pair_transpose_def stride s6_other_def Let_def cbind_assoc algebra_simps)
  qed
  from pointer_loop [of n "s6_pair_transpose payload nt" "\<lambda>i. (8 + i * 8, optr + 2 * i * (unat nt * 4))", OF this, of db]
  show ?thesis
    unfolding cfold_pairs [where f = "\<lambda>c. blit (optr + c * (unat nt * 4)) (s6_sample payload (s6_other c))"] by simp
qed

lemma s6_copy_cells:
  assumes pk: "s6_packet payload_size payload n" and bc: "unat bc < 2 ^ 31" and bt: "unat bt * unat oc < 2 ^ 32"
  shows "hpguppi_s6_packet_data_copy_from_payload databuf bc bt oc payload payload_size =
    cfold (\<lambda>c. blit (row_offset (unat oc) 4 (unat bt, unat bc + c)) (s6_sample payload c)) [0..<2 * n] databuf"
proof -
  have "sint bc = uint bc" using bc by (simp add: sint_cases uint_nat del: of_nat_unat)
  then have "scast bc = (ucast bc :: u64)" by (metis of_int_sint of_int_uint)
  then have b: "unat (scast bc :: u64) = unat bc" using bc by (simp add: unat_ucast_small)
  have t: "unat (ucast (bt * oc) :: u64) = unat bt * unat oc"
    using bt by (subst unat_ucast_small) (simp_all add: unat_mult_small)
  have t4: "unat (ucast (bt * oc) * 4 :: u64) = unat bt * unat oc * 4" using t bt by (subst unat_mult_small) simp_all
  have b4: "unat (scast bc * 4 :: u64) = unat bc * 4" using b bc by (subst unat_mult_small) simp_all
  have "unat (ucast (bt * oc) * 4 + scast bc * 4 :: u64) = (unat bt * unat oc + unat bc) * 4"
    using t4 b4 bt bc by (subst unat_add_small) simp_all
  then show ?thesis
    using pk by (simp add: hpguppi_s6_packet_data_copy_from_payload_def s6_packet_def s6_copy_loop cbind_assoc
        row_offset_def algebra_simps)
qed

lemma s6_transpose_cells:
  assumes pk: "s6_packet payload_size payload n" and bc: "unat bc * unat nt < 2 ^ 32"
  shows "hpguppi_s6_packet_data_copy_transpose_from_payload databuf bc bt nt payload payload_size =
    cfold (\<lambda>c. blit (row_offset (unat nt) 4 (unat bc + c, unat bt)) (s6_sample payload (s6_other c))) [0..<2 * n] databuf"
proof -
  have bt: "unat bt < 2 ^ 32" using unat_less_exp [of bt] by simp
  have c: "unat (ucast (bc * nt) :: u64) = unat bc * unat nt"
    using bc by (subst unat_ucast_small) (simp_all add: unat_mult_small)
  have t: "unat (ucast bt :: u64) = unat bt" using bt by (subst unat_ucast_small) simp_all
  have c4: "unat (ucast (bc * nt) * 4 :: u64) = unat bc * unat nt * 4" using c bc by (subst unat_mult_small) simp_all
  have t4: "unat (ucast bt * 4 :: u64) = unat bt * 4" using t bt by (subst unat_mult_small) simp_all
  have "unat (ucast (bc * nt) * 4 + ucast bt * 4 :: u64) = (unat bc * unat nt + unat bt) * 4"
    using c4 t4 bt bc by (subst unat_add_small) simp_all
  then show ?thesis
    using pk by (simp add: hpguppi_s6_packet_data_copy_transpose_from_payload_def s6_packet_def s6_transpose_loop
        cbind_assoc row_offset_def algebra_simps)
qed

lemma row_cells:
  assumes "\<forall>c < m. row_valid nc nt (g c) \<and> length (v c) = 4" "nc * nt * 4 \<le> length databuf" "inj g"
  shows "\<exists>r. cfold (\<lambda>c. blit (row_offset nt 4 (g c)) (v c)) [0..<m] databuf = Inr r \<and> length r = length databuf \<and>
    (\<forall>c < m. peek (row_offset nt 4 (g c)) 4 r = v c)"
proof -
  have inv: "inv g (g c) = c" for c using assms(3) by simp
  have ks: "\<forall>k \<in> set (map g [0..<m]). row_valid nc nt k \<and> length (v (inv g k)) = 4" using assms(1) by (auto simp: inv)
  show ?thesis
    using rows.scatter [OF ks assms(2)] unfolding cfold_map inv by (elim exE conjE) (rule exI, auto simp: inv)
qed

lemma s6_sample_lengths:
  assumes "s6_packet payload_size payload n" "c < 2 * n"
  shows "length (s6_sample payload c) = 4" "length (s6_sample payload (s6_other c)) = 4"
proof -
  have "c div 2 < n" "s6_other c div 2 = c div 2" using assms(2) by (auto simp: s6_other_def elim!: evenE oddE)
  then show "length (s6_sample payload c) = 4" "length (s6_sample payload (s6_other c)) = 4"
    using assms(1) by (auto simp: s6_packet_def intro!: length_s6_sample)
qed

text \<open>
  C33: the two routines for Serendip 6 packets disagree on the order of the channels. The plain copy
  puts channel \<open>c\<close> of the packet at channel \<open>bc + c\<close> of the spectrum, as documented; the transposing
  copy stores in row \<open>bc + c\<close> the other channel of the pair, so neighbouring channels are swapped.
\<close>

theorem s6_copies_disagree:
  assumes pk: "s6_packet payload_size payload n"
    and copy: "unat bc + 2 * n \<le> unat oc" "unat oc < 2 ^ 31" "unat bt * unat oc < 2 ^ 32" "(unat bt + 1) * unat oc * 4 \<le> length db"
    and turn: "unat bt < unat nt" "unat bc * unat nt < 2 ^ 32" "(unat bc + 2 * n) * unat nt * 4 \<le> length db'"
  shows "\<exists>r r'. hpguppi_s6_packet_data_copy_from_payload db bc bt oc payload payload_size = Inr r \<and>
    hpguppi_s6_packet_data_copy_transpose_from_payload db' bc bt nt payload payload_size = Inr r' \<and>
    (\<forall>c < 2 * n. peek ((unat bt * unat oc + (unat bc + c)) * 4) 4 r = s6_sample payload c \<and>
      peek (((unat bc + c) * unat nt + unat bt) * 4) 4 r' = s6_sample payload (s6_other c))"
proof -
  have bc: "unat bc < 2 ^ 31" using copy(1,2) by linarith
  have v: "\<forall>c < 2 * n. row_valid (unat bt + 1) (unat oc) (unat bt, unat bc + c) \<and> length (s6_sample payload c) = 4"
    using s6_sample_lengths [OF pk] copy(1) by (auto simp: row_valid_def)
  have w: "\<forall>c < 2 * n. row_valid (unat bc + 2 * n) (unat nt) (unat bc + c, unat bt) \<and> length (s6_sample payload (s6_other c)) = 4"
    using s6_sample_lengths [OF pk] turn(1) by (auto simp: row_valid_def)
  obtain r where r: "hpguppi_s6_packet_data_copy_from_payload db bc bt oc payload payload_size = Inr r"
      "\<forall>c < 2 * n. peek (row_offset (unat oc) 4 (unat bt, unat bc + c)) 4 r = s6_sample payload c"
    using row_cells [OF v copy(4)] s6_copy_cells [OF pk bc copy(3)] by (auto simp: inj_def)
  obtain r' where r': "hpguppi_s6_packet_data_copy_transpose_from_payload db' bc bt nt payload payload_size = Inr r'"
      "\<forall>c < 2 * n. peek (row_offset (unat nt) 4 (unat bc + c, unat bt)) 4 r' = s6_sample payload (s6_other c)"
    using row_cells [OF w turn(3)] s6_transpose_cells [OF pk turn(2)] by (auto simp: inj_def)
  show ?thesis using r r' by (auto simp: row_offset_def)
qed

theorem s6_copies_disagree_witness:
  "\<exists>r r'. hpguppi_s6_packet_data_copy_from_payload (replicate 8 0) 0 0 2
      (replicate 8 0 @ [1, 2, 3, 4, 5, 6, 7, 8] @ replicate 8 0) 24 = Inr r \<and>
    hpguppi_s6_packet_data_copy_transpose_from_payload (replicate 8 0) 0 0 1
      (replicate 8 0 @ [1, 2, 3, 4, 5, 6, 7, 8] @ replicate 8 0) 24 = Inr r' \<and>
    peek 0 4 r = [1, 2, 5, 6] \<and> peek 0 4 r' = [3, 4, 7, 8]"
proof -
  let ?p = "replicate 8 0 @ [1, 2, 3, 4, 5, 6, 7, 8] @ replicate 8 0 :: u8 list"
  have "s6_packet 24 ?p 1" by (simp add: s6_packet_def s6_chan_per_packet_def)
  from s6_copies_disagree [OF this, of 0 2 0 "replicate 8 0" 1 "replicate 8 0"]
  obtain r r' where r: "hpguppi_s6_packet_data_copy_from_payload (replicate 8 0) 0 0 2 ?p 24 = Inr r"
      "hpguppi_s6_packet_data_copy_transpose_from_payload (replicate 8 0) 0 0 1 ?p 24 = Inr r'"
      "peek 0 4 r = s6_sample ?p 0" "peek 0 4 r' = s6_sample ?p (s6_other 0)"
    by fastforce
  moreover have "s6_sample ?p 0 = [1, 2, 5, 6]" "s6_sample ?p (s6_other 0) = [3, 4, 7, 8]"
    by (simp_all add: s6_sample_def s6_other_def peek_def)
  ultimately show ?thesis by metis
qed

section \<open>Sockets and fields\<close>

lemma change_endian64_bswap: "change_endian64 d = bswap64 d"
proof -
  have "map (\<lambda>i. le_bytes 8 d ! (7 - i)) [0..<8] = rev (le_bytes 8 d)"
    by (rule nth_equalityI) (simp_all add: rev_nth)
  then show ?thesis by (simp add: change_endian64_def bswap64_def Let_def)
qed

text \<open>The first packet fixes the expected size (unless it is empty), later packets must have it.\<close>

lemma hpguppi_udp_recv_size:
  assumes "length bytes \<le> GUPPI_MAX_PACKET_SIZE" "length (pkt_data b) = GUPPI_MAX_PACKET_SIZE"
    and "hpguppi_udp_recv (Some bytes) p b = (rc, p', b')"
  shows "pkt_size b' = of_nat (length bytes)" "take (length bytes) (pkt_data b') = bytes"
    "length (pkt_data b') = GUPPI_MAX_PACKET_SIZE"
    "rc = (if packet_size p = 0 \<or> packet_size p = of_nat (length bytes) then HASHPIPE_OK else HASHPIPE_ERR_PACKET)"
    "packet_size p' = (if packet_size p = 0 then of_nat (length bytes) else packet_size p)"
  using assms by (auto simp: hpguppi_udp_recv_def recv_into_def Let_def split: if_splits)

text \<open>A failing bind leaves the socket open and the address list allocated; the other failures do not.\<close>

lemma hpguppi_udp_init_outcomes:
  assumes "hpguppi_udp_init sys p = (rc, p', calls)"
  shows "rc = HASHPIPE_OK \<longleftrightarrow> sys_getaddrinfo sys = 0 \<and> sys_socket sys \<noteq> -1 \<and> sys_bind sys \<noteq> -1 \<and>
      (\<exists>i < length (sys_connect sys). sys_connect sys ! i = 0)"
    "sys_getaddrinfo sys = 0 \<Longrightarrow> FreeAddrInfo \<in> set calls \<or> (sys_socket sys \<noteq> -1 \<and> sys_bind sys = -1)"
    "sys_getaddrinfo sys = 0 \<Longrightarrow> sys_socket sys \<noteq> -1 \<Longrightarrow> sys_bind sys = -1 \<Longrightarrow> calls = []"
proof -
  show "rc = HASHPIPE_OK \<longleftrightarrow> sys_getaddrinfo sys = 0 \<and> sys_socket sys \<noteq> -1 \<and> sys_bind sys \<noteq> -1 \<and>
      (\<exists>i < length (sys_connect sys). sys_connect sys ! i = 0)"
    by (cases rule: find_fromE [of "\<lambda>i. sys_connect sys ! i = 0" "length (sys_connect sys)"])
      (use assms in \<open>auto simp: hpguppi_udp_init_def Let_def split: if_splits\<close>)
qed (use assms in \<open>auto simp: hpguppi_udp_init_def Let_def split: if_splits\<close>)

text \<open>The old packets have two spectra without their outer channels; the gaps are filled with zeros.\<close>

lemma data_copy_1sfa_old:
  assumes "length payload = 8160" "8192 \<le> length out"
  shows "hpguppi_udp_packet_data_copy_from_payload out payload PACKET_SIZE_1SFA_OLD =
    Inr (replicate 16 0 @ peek 8 4064 payload @ replicate 32 0 @ peek 4072 4064 payload @ replicate 16 0 @ drop 8192 out)"
  using assms
  by (simp add: hpguppi_udp_packet_data_copy_from_payload_def hpguppi_udp_packet_data_from_payload_def cconst
      Let_def memzero_def memcpy_def cload_def blit_def length_peek)

end
