(* ===== verification/Job_Queue.thy ===== *)
theory Job_Queue
  imports Prelude
begin

text \<open>
  The model of the packet job queue of half_hashpipe/ata_volt_outer_thread.c (the part under
  \<^verbatim>\<open>USE_WORKER_THREADS\<close>): a ring of 65536 entries with 32-bit indices and counters. Each function
  holds the queue's mutex, so each is one step; a wait on a condition is the result \<open>Blocked\<close>.
\<close>

section \<open>The queue\<close>

definition N_WORKER_THREADS :: nat where [cconst]: "N_WORKER_THREADS = 2"
definition PJQ_NUM_ENTRIES :: u32 where [cconst]: "PJQ_NUM_ENTRIES = 65536"

record packet_job =
  job_src :: u64
  job_dst :: u64
  row_len :: u64
  job_ostride :: u64
  nbytes :: u64

record packet_job_queue =
  idxnew :: u32
  idxold :: u32
  num_queued :: u32
  num_pending :: u32
  jobs :: "packet_job list"

definition push_job :: "packet_job_queue \<Rightarrow> packet_job \<Rightarrow> int \<times> packet_job_queue" where
  "push_job pjq job =
     (let idx_nextnew = (idxnew pjq + 1) mod PJQ_NUM_ENTRIES in
      if idx_nextnew = idxold pjq then (1, pjq)
      else (0, pjq\<lparr>jobs := (jobs pjq)[unat (idxnew pjq) := job], idxnew := idx_nextnew,
             num_queued := num_queued pjq + 1, num_pending := num_pending pjq + 1\<rparr>))"

definition pop_job :: "packet_job_queue \<Rightarrow> (packet_job \<times> packet_job_queue) cres" where
  "pop_job pjq =
     (if num_queued pjq = 0 then Inl Blocked
      else if \<not> unat (idxold pjq) < length (jobs pjq) then Inl Overrun
      else Inr (jobs pjq ! unat (idxold pjq),
        pjq\<lparr>idxold := (idxold pjq + 1) mod PJQ_NUM_ENTRIES, num_queued := num_queued pjq - 1\<rparr>))"

definition complete_job :: "packet_job_queue \<Rightarrow> packet_job_queue" where
  "complete_job pjq = (if num_pending pjq \<noteq> 0 then pjq\<lparr>num_pending := num_pending pjq - 1\<rparr> else pjq)"

definition wait_for_job_completion :: "packet_job_queue \<Rightarrow> packet_job_queue cres" where
  "wait_for_job_completion pjq = (if num_pending pjq \<noteq> 0 then Inl Blocked else Inr pjq)"

text \<open>The queue as \<^verbatim>\<open>calloc\<close> returns it.\<close>

definition pjq_init :: packet_job_queue where
  "pjq_init = \<lparr>idxnew = 0, idxold = 0, num_queued = 0, num_pending = 0,
     jobs = replicate 65536 \<lparr>job_src = 0, job_dst = 0, row_len = 0, job_ostride = 0, nbytes = 0\<rparr>\<rparr>"

section \<open>A bounded queue\<close>

locale bounded_fifo =
  fixes inv :: "'q \<Rightarrow> bool"
    and items :: "'q \<Rightarrow> 'j list"
    and push :: "'q \<Rightarrow> 'j \<Rightarrow> 'q option"
    and pop :: "'q \<Rightarrow> ('j \<times> 'q) option"
    and capacity :: nat
  assumes push_None: "inv q \<Longrightarrow> push q j = None \<longleftrightarrow> length (items q) = capacity"
    and push_Some: "inv q \<Longrightarrow> push q j = Some q' \<Longrightarrow> inv q' \<and> items q' = items q @ [j]"
    and pop_None: "inv q \<Longrightarrow> pop q = None \<longleftrightarrow> items q = []"
    and pop_Some: "inv q \<Longrightarrow> pop q = Some (j, q') \<Longrightarrow> inv q' \<and> items q = j # items q'"
    and items_bounded: "inv q \<Longrightarrow> length (items q) \<le> capacity"
begin

text \<open>What was pushed is what was popped followed by what is queued.\<close>

lemma push_log:
  assumes "inv q" "pushed = taken @ items q" "push q j = Some q'"
  shows "inv q'" "pushed @ [j] = taken @ items q'"
  using push_Some [OF assms(1,3)] assms(2) by simp_all

lemma pop_log:
  assumes "inv q" "pushed = taken @ items q" "pop q = Some (j, q')"
  shows "inv q'" "pushed = (taken @ [j]) @ items q'"
  using pop_Some [OF assms(1,3)] assms(2) by simp_all

end

section \<open>The ring is a bounded queue\<close>

definition pjq_items :: "packet_job_queue \<Rightarrow> packet_job list" where
  "pjq_items q = map (\<lambda>i. jobs q ! ((unat (idxold q) + i) mod 65536)) [0..<unat (num_queued q)]"

definition pjq_ok :: "packet_job_queue \<Rightarrow> bool" where
  "pjq_ok q \<longleftrightarrow> length (jobs q) = 65536 \<and> unat (idxold q) < 65536 \<and> unat (num_queued q) < 65536 \<and>
     unat (idxnew q) = (unat (idxold q) + unat (num_queued q)) mod 65536"

definition pjq_push :: "packet_job_queue \<Rightarrow> packet_job \<Rightarrow> packet_job_queue option" where
  "pjq_push q j = (case push_job q j of (rv, q') \<Rightarrow> if rv = 0 then Some q' else None)"

definition pjq_pop :: "packet_job_queue \<Rightarrow> (packet_job \<times> packet_job_queue) option" where
  "pjq_pop q = (case pop_job q of Inr r \<Rightarrow> Some r | Inl e \<Rightarrow> None)"

lemma next_idx:
  fixes x :: u32
  assumes "unat x < 65536"
  shows "unat ((x + 1) mod PJQ_NUM_ENTRIES) = (unat x + 1) mod 65536"
proof -
  have "unat (x + 1) = unat x + 1" using assms by (subst unat_add_small) simp_all
  then show ?thesis by (simp add: unat_mod cconst)
qed

lemma ring_full_iff:
  assumes "(i :: nat) < 65536" "n < 65536"
  shows "((i + n) mod 65536 + 1) mod 65536 = i \<longleftrightarrow> n = 65535"
proof -
  have "((i + n) mod 65536 + 1) mod 65536 = (i + (n + 1)) mod 65536" by (simp add: mod_Suc_eq)
  moreover have "(i + (n + 1)) mod 65536 = i \<longleftrightarrow> n = 65535"
    using assms by (cases "i + (n + 1) < 65536") (auto simp: mod_if)
  ultimately show ?thesis by simp
qed

lemma push_job_full:
  assumes "pjq_ok q"
  shows "pjq_push q j = None \<longleftrightarrow> length (pjq_items q) = 65535"
proof -
  have new: "unat (idxnew q) = (unat (idxold q) + unat (num_queued q)) mod 65536" using assms by (simp add: pjq_ok_def)
  then have "unat (idxnew q) < 65536" by simp
  note nxt = next_idx [OF this]
  have "(idxnew q + 1) mod PJQ_NUM_ENTRIES = idxold q \<longleftrightarrow> unat (num_queued q) = 65535"
    unfolding word_unat_eq_iff nxt new using assms by (intro ring_full_iff) (simp_all add: pjq_ok_def)
  then show ?thesis by (simp add: pjq_push_def push_job_def Let_def pjq_items_def)
qed

lemma push_job_appends:
  assumes ok: "pjq_ok q" and p: "pjq_push q j = Some q'"
  shows "pjq_ok q'" "pjq_items q' = pjq_items q @ [j]"
proof -
  have room: "unat (num_queued q) \<noteq> 65535" using push_job_full [OF ok, of j] p by (simp add: pjq_items_def)
  have b: "length (jobs q) = 65536" "unat (idxold q) < 65536" "unat (num_queued q) < 65535"
      "unat (idxnew q) = (unat (idxold q) + unat (num_queued q)) mod 65536"
    using ok room by (auto simp: pjq_ok_def)
  then have new: "unat (idxnew q) < 65536" by simp
  have q': "jobs q' = (jobs q)[unat (idxnew q) := j]" "idxnew q' = (idxnew q + 1) mod PJQ_NUM_ENTRIES"
      "num_queued q' = num_queued q + 1" "idxold q' = idxold q"
    using p by (auto simp: pjq_push_def push_job_def Let_def split: if_splits)
  have n: "unat (num_queued q') = unat (num_queued q) + 1"
    unfolding q'(3) using b(3) by (subst unat_add_small) simp_all
  show "pjq_ok q'"
    using b n unfolding pjq_ok_def q'(1,2,4) next_idx [OF new] by (simp add: mod_Suc_eq)
  have "(unat (idxold q) + unat (num_queued q)) mod 65536 \<noteq> (unat (idxold q) + i) mod 65536"
    if "i < unat (num_queued q)" for i
    using mod_add_cancel_small [of "unat (idxold q)" i 65536 "unat (num_queued q)"] b(3) that by auto
  then show "pjq_items q' = pjq_items q @ [j]"
    unfolding pjq_items_def n q'(1,4) using b(1,4) new by simp
qed

lemma pop_job_takes:
  assumes ok: "pjq_ok q" and p: "pjq_pop q = Some (j, q')"
  shows "pjq_ok q'" "pjq_items q = j # pjq_items q'"
proof -
  have b: "length (jobs q) = 65536" "unat (idxold q) < 65536" "unat (num_queued q) < 65536"
      "unat (idxnew q) = (unat (idxold q) + unat (num_queued q)) mod 65536"
    using ok by (auto simp: pjq_ok_def)
  have q': "num_queued q \<noteq> 0" "j = jobs q ! unat (idxold q)" "jobs q' = jobs q" "idxnew q' = idxnew q"
      "idxold q' = (idxold q + 1) mod PJQ_NUM_ENTRIES" "num_queued q' = num_queued q - 1"
    using p by (auto simp: pjq_pop_def pop_job_def split: if_splits)
  define n where "n = unat (num_queued q')"
  have "1 \<le> num_queued q" using q'(1) by (simp add: word_le_nat_alt unat_gt_0 Suc_le_eq)
  then have n: "unat (num_queued q) = Suc n"
    using q'(1) unfolding n_def q'(6) by (subst unat_sub) (simp_all add: unat_gt_0)
  have old: "unat (idxold q') = (unat (idxold q) + 1) mod 65536" unfolding q'(5) by (rule next_idx [OF b(2)])
  show "pjq_ok q'"
    unfolding pjq_ok_def q'(3,4) old b(4) n n_def [symmetric] using b(1,3) n by (simp add: mod_simps)
  have "[0..<Suc n] = 0 # map Suc [0..<n]" by (simp add: upt_conv_Cons map_Suc_upt)
  then show "pjq_items q = j # pjq_items q'"
    unfolding pjq_items_def n n_def [symmetric] old q'(2,3) using b(2) by (simp add: mod_simps)
qed

interpretation pjq: bounded_fifo pjq_ok pjq_items pjq_push pjq_pop 65535
proof unfold_locales
  fix q j assume "pjq_ok q"
  then show "pjq_push q j = None \<longleftrightarrow> length (pjq_items q) = 65535" by (rule push_job_full)
next
  fix q j q' assume "pjq_ok q" "pjq_push q j = Some q'"
  then show "pjq_ok q' \<and> pjq_items q' = pjq_items q @ [j]" using push_job_appends by blast
next
  fix q assume "pjq_ok q"
  then show "pjq_pop q = None \<longleftrightarrow> pjq_items q = []"
    by (auto simp: pjq_pop_def pop_job_def pjq_items_def pjq_ok_def unat_eq_0 split: if_splits)
next
  fix q j q' assume "pjq_ok q" "pjq_pop q = Some (j, q')"
  then show "pjq_ok q' \<and> pjq_items q = j # pjq_items q'" using pop_job_takes by blast
next
  fix q assume "pjq_ok q"
  then show "length (pjq_items q) \<le> 65535" by (simp add: pjq_ok_def pjq_items_def)
qed

section \<open>The boss and its workers\<close>

text \<open>
  The boss pushes jobs (a full queue refuses one), each worker pops a job, works on it and completes
  it. \<open>pushed\<close> and \<open>taken\<close> are the jobs pushed and popped so far, \<open>busy\<close> counts the workers between pop
  and completion.
\<close>

record job_sys =
  queue :: packet_job_queue
  pushed :: "packet_job list"
  taken :: "packet_job list"
  busy :: nat

inductive job_step :: "job_sys \<Rightarrow> job_sys \<Rightarrow> bool" where
  push: "push_job (queue s) j = (0, q) \<Longrightarrow> job_step s (s\<lparr>queue := q, pushed := pushed s @ [j]\<rparr>)"
| refuse: "push_job (queue s) j = (1, q) \<Longrightarrow> job_step s (s\<lparr>queue := q\<rparr>)"
| pop: "busy s < N_WORKER_THREADS \<Longrightarrow> pop_job (queue s) = Inr (j, q) \<Longrightarrow>
    job_step s (s\<lparr>queue := q, taken := taken s @ [j], busy := busy s + 1\<rparr>)"
| complete: "0 < busy s \<Longrightarrow> job_step s (s\<lparr>queue := complete_job (queue s), busy := busy s - 1\<rparr>)"
| waited: "wait_for_job_completion (queue s) = Inr q \<Longrightarrow> job_step s (s\<lparr>queue := q\<rparr>)"

inductive job_reach :: "job_sys \<Rightarrow> bool" where
  start: "job_reach \<lparr>queue = pjq_init, pushed = [], taken = [], busy = 0\<rparr>"
| step: "job_reach s \<Longrightarrow> job_step s t \<Longrightarrow> job_reach t"

definition job_inv :: "job_sys \<Rightarrow> bool" where
  "job_inv s \<longleftrightarrow> pjq_ok (queue s) \<and> pushed s = taken s @ pjq_items (queue s) \<and> busy s \<le> N_WORKER_THREADS \<and>
     unat (num_pending (queue s)) = length (pjq_items (queue s)) + busy s"

lemma job_inv_init: "job_inv \<lparr>queue = pjq_init, pushed = [], taken = [], busy = 0\<rparr>"
  by (simp add: job_inv_def pjq_ok_def pjq_items_def pjq_init_def)

lemma pjq_items_pending [simp]: "pjq_items (q\<lparr>num_pending := n\<rparr>) = pjq_items q" "pjq_ok (q\<lparr>num_pending := n\<rparr>) = pjq_ok q"
  by (simp_all add: pjq_items_def pjq_ok_def)

lemma push_job_pending: "push_job q j = (0, q') \<Longrightarrow> num_pending q' = num_pending q + 1"
  by (auto simp: push_job_def Let_def split: if_splits)

lemma pop_job_pending: "pop_job q = Inr (j, q') \<Longrightarrow> num_pending q' = num_pending q"
  by (auto simp: pop_job_def split: if_splits)

lemma job_inv_step:
  assumes i: "job_inv s" and st: "job_step s t"
  shows "job_inv t"
proof -
  have q: "pjq_ok (queue s)" "pushed s = taken s @ pjq_items (queue s)" "busy s \<le> 2"
      "unat (num_pending (queue s)) = length (pjq_items (queue s)) + busy s"
    using i by (simp_all add: job_inv_def cconst)
  have bound: "length (pjq_items (queue s)) \<le> 65535" by (rule pjq.items_bounded [OF q(1)])
  from st show ?thesis
  proof cases
    case (push j q')
    then have p: "pjq_push (queue s) j = Some q'" by (simp add: pjq_push_def)
    have "unat (num_pending q') = unat (num_pending (queue s)) + 1"
      unfolding push_job_pending [OF push(2)] using q(3,4) bound by (subst unat_add_small) simp_all
    then show ?thesis
      using pjq.push_log [OF q(1,2) p] pjq.push_Some [OF q(1) p] q(3,4) by (simp add: push(1) job_inv_def cconst)
  next
    case (refuse j q')
    then have "q' = queue s" by (auto simp: push_job_def Let_def split: if_splits)
    then show ?thesis using i refuse(1) by simp
  next
    case (pop j q')
    then have p: "pjq_pop (queue s) = Some (j, q')" by (simp add: pjq_pop_def)
    show ?thesis
      using pjq.pop_log [OF q(1,2) p] pjq.pop_Some [OF q(1) p] q(4) pop(2) pop_job_pending [OF pop(3)]
      by (simp add: pop(1) job_inv_def cconst)
  next
    case complete
    then have "0 < unat (num_pending (queue s))" using q(4) by simp
    then have "num_pending (queue s) \<noteq> 0" by (metis less_numeral_extra(3) unat_0)
    moreover from this have "unat (num_pending (queue s) - 1) = unat (num_pending (queue s)) - 1"
      by (simp add: unat_minus_one)
    ultimately show ?thesis using q complete by (simp add: complete_job_def job_inv_def cconst)
  next
    case (waited q')
    then have "q' = queue s" by (auto simp: wait_for_job_completion_def split: if_splits)
    then show ?thesis using i waited(1) by simp
  qed
qed

lemma job_reach_inv: "job_reach s \<Longrightarrow> job_inv s"
  by (induction rule: job_reach.induct) (auto intro: job_inv_init job_inv_step)

text \<open>
  C34: the job queue under any interleaving of the boss and the workers. The jobs come off the queue
  in the order in which they were pushed and none is lost or taken twice; a push is refused exactly
  when 65535 jobs are queued; a worker finds the queue empty exactly when every job has been taken;
  and the boss's wait ends exactly when every pushed job has been taken and completed.
\<close>

theorem job_queue_fifo:
  assumes "job_reach s"
  shows "pushed s = taken s @ pjq_items (queue s) \<and>
    (fst (push_job (queue s) j) = 1 \<longleftrightarrow> length (pushed s) = length (taken s) + 65535) \<and>
    (pop_job (queue s) = Inl Blocked \<longleftrightarrow> taken s = pushed s) \<and>
    ((\<exists>q. wait_for_job_completion (queue s) = Inr q) \<longleftrightarrow> taken s = pushed s \<and> busy s = 0)"
proof -
  have i: "pjq_ok (queue s)" "pushed s = taken s @ pjq_items (queue s)"
      "unat (num_pending (queue s)) = length (pjq_items (queue s)) + busy s"
    using job_reach_inv [OF assms] by (simp_all add: job_inv_def)
  have "fst (push_job (queue s) j) = 1 \<longleftrightarrow> pjq_push (queue s) j = None"
    by (auto simp: pjq_push_def push_job_def Let_def)
  then have "fst (push_job (queue s) j) = 1 \<longleftrightarrow> length (pushed s) = length (taken s) + 65535"
    using pjq.push_None [OF i(1)] i(2) by simp
  moreover have "pop_job (queue s) = Inl Blocked \<longleftrightarrow> pjq_pop (queue s) = None"
    using i(1) by (auto simp: pjq_pop_def pop_job_def pjq_ok_def)
  then have "pop_job (queue s) = Inl Blocked \<longleftrightarrow> taken s = pushed s"
    using pjq.pop_None [OF i(1)] i(2) by simp
  moreover have "(\<exists>q. wait_for_job_completion (queue s) = Inr q) \<longleftrightarrow> unat (num_pending (queue s)) = 0"
    by (simp add: wait_for_job_completion_def unat_eq_0)
  then have "(\<exists>q. wait_for_job_completion (queue s) = Inr q) \<longleftrightarrow> taken s = pushed s \<and> busy s = 0"
    using i(2,3) by auto
  ultimately show ?thesis using i(2) by blast
qed

definition example_job :: packet_job where
  "example_job = \<lparr>job_src = 64, job_dst = 4096, row_len = 1024, job_ostride = 8192, nbytes = 1024\<rparr>"

theorem job_queue_fifo_witness:
  "fst (push_job (snd (push_job pjq_init example_job)) example_job) \<noteq> 1 \<and>
   pop_job (snd (push_job pjq_init example_job)) \<noteq> Inl Blocked"
proof -
  let ?s = "\<lparr>queue = snd (push_job pjq_init example_job), pushed = [example_job], taken = [], busy = 0\<rparr>"
  have "push_job pjq_init example_job = (0, snd (push_job pjq_init example_job))"
    by (simp add: push_job_def pjq_init_def Let_def cconst)
  then have "job_reach ?s" using job_reach.step [OF job_reach.start job_step.push] by fastforce
  from job_queue_fifo [OF this, of example_job] show ?thesis by simp
qed

end
