(* ===== verification/Mkfeng.thy ===== *)
theory Mkfeng
  imports Prelude
begin

text \<open>
  The model of half_hashpipe/hpguppi_mkfeng.h: the dimensions of a MeerKAT observation and of the
  GUPPI blocks assembled from it, and the parsing of the SPEAD header of an F engine packet. All
  arithmetic is at the widths of the C types (uint32_t and uint64_t; size_t has 64 bits).
\<close>

section \<open>Data\<close>

record mk_feng_spead_info =
  heap_offset :: u64
  payload_size :: u64
  timestamp :: u64
  feng_id :: u64
  feng_chan :: u64

record mk_obs_info =
  fenchan :: u32
  nants :: u32
  nstrm :: u32
  hntime :: u32
  hnchan :: u32
  hclocks :: u64
  schan :: u32

text \<open>\<^verbatim>\<open>schan\<close> is a signed 32-bit number; its invalid value is -1.\<close>

definition MK_OBS_INFO_INVALID_SCHAN :: u32 where [cconst]: "MK_OBS_INFO_INVALID_SCHAN = -1"
definition SPEAD_IMM_MASK :: u64 where [cconst]: "SPEAD_IMM_MASK = 0x0000ffffffffffff"
definition SPEAD_ID_IMM_HEAP_OFFSET :: u16 where [cconst]: "SPEAD_ID_IMM_HEAP_OFFSET = 0x0380"
definition SPEAD_ID_IMM_PAYLOAD_SIZE :: u16 where [cconst]: "SPEAD_ID_IMM_PAYLOAD_SIZE = 0x0480"
definition SPEAD_ID_IMM_TIMESTAMP :: u16 where [cconst]: "SPEAD_ID_IMM_TIMESTAMP = 0x0096"
definition SPEAD_ID_IMM_FENG_ID :: u16 where [cconst]: "SPEAD_ID_IMM_FENG_ID = 0x01c1"
definition SPEAD_ID_IMM_FENG_CHAN :: u16 where [cconst]: "SPEAD_ID_IMM_FENG_CHAN = 0x03c1"
definition SPEAD_ID_IMM_PAYLOAD_OFFSET :: u16 where [cconst]: "SPEAD_ID_IMM_PAYLOAD_OFFSET = 0x0043"

section \<open>Dimensions\<close>

text \<open>\<^verbatim>\<open>__builtin_clz\<close>: the number of zero bits above the highest one.\<close>

definition clz32 :: "u32 \<Rightarrow> nat" where
  "clz32 x = length (takeWhile (\<lambda>i. \<not> bit x i) (rev [0..<32]))"

definition prevpow2 :: "u32 \<Rightarrow> u32" where
  "prevpow2 x = (if x = 0 then 0 else drop_bit (clz32 x) 0x80000000)"

definition mk_obs_info_init :: mk_obs_info where
  "mk_obs_info_init = \<lparr>fenchan = 0, nants = 0, nstrm = 0, hntime = 0, hnchan = 0, hclocks = 0,
     schan = MK_OBS_INFO_INVALID_SCHAN\<rparr>"

definition mk_obs_info_valid :: "mk_obs_info \<Rightarrow> bool" where
  "mk_obs_info_valid oi \<longleftrightarrow> fenchan oi \<noteq> 0 \<and> nants oi \<noteq> 0 \<and> nstrm oi \<noteq> 0 \<and> hntime oi \<noteq> 0 \<and> hnchan oi \<noteq> 0 \<and>
     hclocks oi \<noteq> 0 \<and> schan oi \<noteq> MK_OBS_INFO_INVALID_SCHAN"

definition spead_imm_value :: "u64 \<Rightarrow> u64" where
  "spead_imm_value item = item AND SPEAD_IMM_MASK"

definition calc_mk_pktidx :: "u64 \<Rightarrow> u64 \<Rightarrow> u64 cres" where
  "calc_mk_pktidx ts clocks = (if clocks = 0 then Inl DivZero else Inr (ts div clocks))"

definition mk_pktidx :: "mk_obs_info \<Rightarrow> mk_feng_spead_info \<Rightarrow> u64 cres" where
  "mk_pktidx oi fesi = calc_mk_pktidx (timestamp fesi) (hclocks oi)"

definition calc_mk_obsnchan :: "u32 \<Rightarrow> u32 \<Rightarrow> u32 \<Rightarrow> u32" where
  "calc_mk_obsnchan na ns hc = na * ns * hc"

definition mk_obsnchan :: "mk_obs_info \<Rightarrow> u32" where
  "mk_obsnchan oi = calc_mk_obsnchan (nants oi) (nstrm oi) (hnchan oi)"

definition calc_mk_block_chan :: "u64 \<Rightarrow> u32 \<Rightarrow> u32 \<Rightarrow> u64 \<Rightarrow> u32 \<Rightarrow> u64" where
  "calc_mk_block_chan fid ns hc fc sc = fid * ucast ns * ucast hc + (fc - ucast sc)"

definition mk_block_chan :: "mk_obs_info \<Rightarrow> mk_feng_spead_info \<Rightarrow> u64" where
  "mk_block_chan oi fesi = calc_mk_block_chan (feng_id fesi) (nstrm oi) (hnchan oi) (feng_chan fesi) (schan oi)"

text \<open>The divisor is a 32-bit product, the division is 64-bit, the quotient is cut to 32 bits.\<close>

definition calc_mk_pktidx_per_block :: "u64 \<Rightarrow> u32 \<Rightarrow> u32 \<Rightarrow> u32 cres" where
  "calc_mk_pktidx_per_block block_size nchan ht =
     (let d = 4 * nchan * ht in
      if d = 0 then Inl DivZero else Inr (prevpow2 (ucast (block_size div ucast d))))"

definition mk_pktidx_per_block :: "u64 \<Rightarrow> mk_obs_info \<Rightarrow> u32 cres" where
  "mk_pktidx_per_block block_size oi = calc_mk_pktidx_per_block block_size (mk_obsnchan oi) (hntime oi)"

definition calc_mk_ntime :: "u64 \<Rightarrow> u32 \<Rightarrow> u32 \<Rightarrow> u32 cres" where
  "calc_mk_ntime block_size nchan ht = cbind (calc_mk_pktidx_per_block block_size nchan ht) (\<lambda>p. Inr (ht * p))"

definition mk_ntime :: "u64 \<Rightarrow> mk_obs_info \<Rightarrow> u32 cres" where
  "mk_ntime block_size oi = calc_mk_ntime block_size (mk_obsnchan oi) (hntime oi)"

definition calc_mk_block_size :: "u64 \<Rightarrow> u32 \<Rightarrow> u32 \<Rightarrow> u32 cres" where
  "calc_mk_block_size block_size nchan ht =
     cbind (calc_mk_pktidx_per_block block_size nchan ht) (\<lambda>p. Inr (4 * nchan * ht * p))"

definition mk_block_size :: "u64 \<Rightarrow> mk_obs_info \<Rightarrow> u32 cres" where
  "mk_block_size block_size oi = calc_mk_block_size block_size (mk_obsnchan oi) (hntime oi)"

section \<open>Parsing\<close>

text \<open>The switch on the (byte-reversed) item id; \<open>off\<close> is the payload offset.\<close>

definition spead_item :: "u16 \<Rightarrow> u64 \<Rightarrow> mk_feng_spead_info \<times> u64 \<Rightarrow> mk_feng_spead_info \<times> u64" where
  "spead_item ident be = (\<lambda>(fesi, off).
     if ident = SPEAD_ID_IMM_HEAP_OFFSET then (fesi\<lparr>heap_offset := spead_imm_value be\<rparr>, off)
     else if ident = SPEAD_ID_IMM_PAYLOAD_SIZE then (fesi\<lparr>payload_size := spead_imm_value be\<rparr>, off)
     else if ident = SPEAD_ID_IMM_TIMESTAMP then (fesi\<lparr>timestamp := spead_imm_value be\<rparr>, off)
     else if ident = SPEAD_ID_IMM_FENG_ID then (fesi\<lparr>feng_id := spead_imm_value be\<rparr>, off)
     else if ident = SPEAD_ID_IMM_FENG_CHAN then (fesi\<lparr>feng_chan := spead_imm_value be\<rparr>, off)
     else if ident = SPEAD_ID_IMM_PAYLOAD_OFFSET then (fesi, spead_imm_value be)
     else (fesi, off))"

fun spead_items :: "nat \<Rightarrow> u8 list \<Rightarrow> mk_feng_spead_info \<times> u64 \<Rightarrow> (mk_feng_spead_info \<times> u64) cres" where
  "spead_items 0 bytes s = Inr s"
| "spead_items (Suc n) bytes s =
     (if length bytes < 8 then Inl Overrun
      else spead_items n (drop 8 bytes) (spead_item (le_word (take 2 bytes)) (be_word (take 8 bytes)) s))"

text \<open>The result has the metadata and the offset of the payload in the UDP payload.\<close>

definition mk_parse_mkfeng_packet :: "u8 list \<Rightarrow> mk_feng_spead_info \<Rightarrow> (mk_feng_spead_info \<times> nat) cres" where
  "mk_parse_mkfeng_packet p fesi =
     (if length p < 8 then Inl Overrun
      else let nitems = unat (be_word (peek 6 2 p) :: u16) in
        cbind (spead_items nitems (drop 8 p) (fesi, 0)) (\<lambda>(fesi', off).
          Inr (fesi', 8 * (nitems + 1) + unat off)))"

text \<open>The variant for the aligned packet layout ignores the payload offset; its header has 12 words.\<close>

definition mk_parse_mkfeng_ibv_spead_packet :: "u8 list \<Rightarrow> mk_feng_spead_info \<Rightarrow> mk_feng_spead_info cres" where
  "mk_parse_mkfeng_ibv_spead_packet spdhdr fesi =
     (if length spdhdr < 8 then Inl Overrun
      else let nitems = unat (be_word (peek 6 2 spdhdr) :: u16) in
        cbind (spead_items nitems (drop 8 spdhdr) (fesi, 0)) (\<lambda>(fesi', off). Inr fesi'))"

text \<open>
  A packet at the offset \<open>p\<close> of a buffer, in the aligned layout: after the link layer headers (14, 20
  and 8 bytes) and 22 bytes of padding come the 12 words of the header, 32 bytes of padding and the
  payload, which has no end of its own.
\<close>

definition SPDHDR_OFFSET :: nat where [cconst]: "SPDHDR_OFFSET = 14 + 20 + 8 + 22"
definition PAYLOAD_OFFSET :: nat where [cconst]: "PAYLOAD_OFFSET = SPDHDR_OFFSET + 12 * 8 + 32"

definition mk_ibv_spead_pkt :: "nat \<Rightarrow> u8 list \<Rightarrow> (u8 list \<times> u8 list) cres" where
  "mk_ibv_spead_pkt p mem =
     (if p + PAYLOAD_OFFSET \<le> length mem then Inr (peek (p + SPDHDR_OFFSET) (12 * 8) mem, drop (p + PAYLOAD_OFFSET) mem)
      else Inl Overrun)"

section \<open>Powers of two\<close>

lemma clz32_highest:
  assumes "x \<noteq> 0"
  shows "\<exists>k<32. clz32 x = 31 - k \<and> bit x k \<and> (\<forall>i>k. \<not> bit x i)"
proof -
  define k where "k = Max {i. bit x i}"
  have fin: "finite {i. bit x i}" by (rule finite_subset [of _ "{..<32}"]) (auto dest: bit_imp_le_length)
  have ne: "{i. bit x i} \<noteq> {}" using assms by (auto simp: bit_eq_iff)
  have k: "bit x k" "k < 32" using Max_in [OF fin ne] bit_imp_le_length [of x k] by (auto simp: k_def)
  have hi: "\<not> bit x i" if "i > k" for i
  proof
    assume "bit x i"
    then have "i \<le> k" unfolding k_def by (intro Max_ge [OF fin]) simp
    with that show False by simp
  qed
  have "rev [0..<32] = rev [Suc k..<32] @ k # rev [0..<k]"
    using k(2) upt_add_eq_append [of 0 k "32 - k"] by (simp add: upt_conv_Cons)
  moreover have "takeWhile (\<lambda>i. \<not> bit x i) (rev [Suc k..<32] @ k # rev [0..<k]) = rev [Suc k..<32]"
    using k(1) hi by (subst takeWhile_append2) auto
  ultimately have "clz32 x = 31 - k" by (simp add: clz32_def)
  with k hi show ?thesis by blast
qed

lemma highest_bit_bounds:
  fixes x :: u32
  assumes "bit x k" "\<forall>i>k. \<not> bit x i"
  shows "2 ^ k \<le> unat x" "unat x < 2 ^ Suc k"
proof -
  have "k < 32" using bit_imp_le_length [OF assms(1)] by simp
  have "odd (unat x div 2 ^ k)" using assms(1) unfolding bit_unsigned_iff [symmetric, where ?'a=nat]
    by (metis assms(1) bit_iff_odd bit_unsigned_iff possible_bit_nat)
  then have "unat x div 2 ^ k \<noteq> 0" by (metis even_zero)
  then show "2 ^ k \<le> unat x" by (simp add: div_eq_0_iff)
  have "take_bit (Suc k) x = x" using assms(2) by (intro bit_eqI) (auto simp: bit_take_bit_iff less_Suc_eq_le intro: leI)
  then show "unat x < 2 ^ Suc k" by (metis unat_take_bit_mod mod_less_divisor zero_less_numeral zero_less_power)
qed

lemma prevpow2_power:
  assumes "x \<noteq> 0"
  shows "\<exists>k. unat (prevpow2 x) = 2 ^ k \<and> 2 ^ k \<le> unat x \<and> unat x < 2 ^ Suc k"
proof -
  obtain k where k: "k < 32" "clz32 x = 31 - k" "bit x k" "\<forall>i>k. \<not> bit x i" using clz32_highest [OF assms] by blast
  have "(2 :: nat) ^ 31 = 2 ^ (31 - k) * 2 ^ k"
    using k(1) by (simp flip: power_add)
  then have "(2 :: nat) ^ 31 div 2 ^ (31 - k) = 2 ^ k"
    by (metis nonzero_mult_div_cancel_left power_not_zero zero_neq_numeral)
  then have "unat (prevpow2 x) = 2 ^ k"
    using assms k(2) by (simp add: prevpow2_def unat_drop_bit_div)
  with highest_bit_bounds [OF k(3,4)] show ?thesis by blast
qed

section \<open>The layout of a block\<close>

lemma calc_mk_pktidx_per_block_power:
  assumes d: "unat nchan * unat ht * 4 < 2 ^ 32" "nchan \<noteq> 0" "ht \<noteq> 0"
    and fits: "unat nchan * unat ht * 4 \<le> unat block_size" "unat block_size < 2 ^ 32"
  obtains p k where "calc_mk_pktidx_per_block block_size nchan ht = Inr p" "unat p = 2 ^ k"
    "unat nchan * unat ht * 4 * 2 ^ k \<le> unat block_size"
    "unat block_size < 2 * (unat nchan * unat ht * 4 * 2 ^ k)"
    "unat (4 * nchan * ht) = unat nchan * unat ht * 4"
proof -
  define D where "D = unat nchan * unat ht * 4"
  have pos: "0 < unat nchan" "0 < unat ht" using d(2,3) by (simp_all add: unat_gt_0)
  have "4 * unat nchan \<le> D" using pos by (simp add: D_def)
  then have "4 * unat nchan < 2 ^ 32" using d(1) unfolding D_def by linarith
  then have 4: "unat (4 * nchan) = 4 * unat nchan" by (subst unat_mult_small) simp_all
  have D: "unat (4 * nchan * ht) = D"
    using d(1) by (subst unat_mult_small) (simp_all add: 4 D_def)
  have D0: "0 < D" using pos by (simp add: D_def)
  then have nz: "4 * nchan * ht \<noteq> 0" using D by (metis less_numeral_extra(3) unat_0)
  define q :: u32 where "q = ucast (block_size div ucast (4 * nchan * ht))"
  have cD: "unat (ucast (4 * nchan * ht) :: u64) = D"
    using d(1) by (subst unat_ucast_small) (simp_all add: D, simp add: D_def)
  have quot: "unat (block_size div ucast (4 * nchan * ht)) = unat block_size div D"
    by (simp add: unat_div cD)
  have "unat block_size div D < 2 ^ 32" using fits(2) by (meson div_le_dividend le_less_trans)
  then have q: "unat q = unat block_size div D" unfolding q_def by (subst unat_ucast_small) (simp_all add: quot)
  have "0 < unat block_size div D" using fits(1) D0 by (simp add: D_def div_greater_zero_iff)
  then have "q \<noteq> 0" using q by (metis less_numeral_extra(3) unat_0)
  then obtain k where k: "unat (prevpow2 q) = 2 ^ k" "2 ^ k \<le> unat q" "unat q < 2 ^ Suc k" using prevpow2_power by blast
  have "calc_mk_pktidx_per_block block_size nchan ht = Inr (prevpow2 q)"
    using nz by (simp add: calc_mk_pktidx_per_block_def Let_def q_def)
  moreover have "D * 2 ^ k \<le> unat block_size"
    using k(2) D0 unfolding q by (metis less_eq_div_iff_mult_less_eq mult.commute)
  moreover have "unat block_size < 2 * (D * 2 ^ k)"
    using k(3) D0 unfolding q by (metis div_less_iff_less_mult mult.left_commute mult.commute power_Suc)
  ultimately show thesis using that [of "prevpow2 q" k] k(1) D by (simp add: D_def)
qed

text \<open>
  C29: For a block of less than 4 GiB that has room for at least one set of heaps, the number of
  packet indices per block is a power of two, the number of time samples is that power times the
  samples of a heap, and the effective block size is exactly what these heaps fill: it fits the
  given block size and more than half of the block is used.
\<close>

theorem block_dimensions:
  assumes "unat nchan * unat ht * 4 < 2 ^ 32" "nchan \<noteq> 0" "ht \<noteq> 0"
    and "unat nchan * unat ht * 4 \<le> unat block_size" "unat block_size < 2 ^ 32"
  shows "\<exists>p k t b. calc_mk_pktidx_per_block block_size nchan ht = Inr p \<and> unat p = 2 ^ k \<and>
    calc_mk_ntime block_size nchan ht = Inr t \<and> unat t = unat ht * 2 ^ k \<and>
    calc_mk_block_size block_size nchan ht = Inr b \<and> unat b = 4 * unat nchan * unat t \<and>
    unat b \<le> unat block_size \<and> unat block_size < 2 * unat b"
proof -
  obtain p k where p: "calc_mk_pktidx_per_block block_size nchan ht = Inr p" "unat p = 2 ^ k"
      "unat nchan * unat ht * 4 * 2 ^ k \<le> unat block_size"
      "unat block_size < 2 * (unat nchan * unat ht * 4 * 2 ^ k)"
      "unat (4 * nchan * ht) = unat nchan * unat ht * 4"
    using calc_mk_pktidx_per_block_power [OF assms] by blast
  have b: "unat (4 * nchan * ht * p) = unat nchan * unat ht * 4 * 2 ^ k"
    using le_less_trans [OF p(3) assms(5)] by (subst unat_mult_small) (simp_all add: p(2,5))
  have "0 < unat nchan * 4" using assms(2) by (simp add: unat_gt_0)
  then have "unat ht * 2 ^ k \<le> unat nchan * 4 * (unat ht * 2 ^ k)" by simp
  also have "\<dots> = unat nchan * unat ht * 4 * 2 ^ k" by simp
  finally have "unat ht * 2 ^ k \<le> unat block_size" using p(3) by linarith
  then have t: "unat (ht * p) = unat ht * 2 ^ k"
    using assms(5) by (subst unat_mult_small) (simp_all add: p(2))
  show ?thesis
    using p(1,2,3,4) b t by (intro exI [of _ p] exI [of _ k] exI [of _ "ht * p"] exI [of _ "4 * nchan * ht * p"])
      (simp add: calc_mk_ntime_def calc_mk_block_size_def)
qed

theorem block_dimensions_witness:
  "\<exists>p k t b. calc_mk_pktidx_per_block 0x8000000 1920 256 = Inr p \<and> unat p = 2 ^ k \<and>
    calc_mk_ntime 0x8000000 1920 256 = Inr t \<and> unat t = unat (256 :: u32) * 2 ^ k \<and>
    calc_mk_block_size 0x8000000 1920 256 = Inr b \<and> unat b = 4 * unat (1920 :: u32) * unat t \<and>
    unat b \<le> unat (0x8000000 :: u64) \<and> unat (0x8000000 :: u64) < 2 * unat b"
  by (rule block_dimensions) simp_all

section \<open>The SPEAD header\<close>

text \<open>
  What an F engine puts on the wire: an item is a big-endian 64-bit word, the 16-bit id (whose top
  bit says that the value is immediate) above the 48-bit value; the header word ends with the
  number of items.
\<close>

definition spead_wire :: "u16 \<times> u64 \<Rightarrow> u8 list" where
  "spead_wire = (\<lambda>(ident, v). rev (le_bytes 8 (push_bit 48 (ucast ident) OR v :: u64)))"

definition spead_packet :: "u8 list \<Rightarrow> (u16 \<times> u64) list \<Rightarrow> u8 list \<Rightarrow> u8 list" where
  "spead_packet magic items payload =
     magic @ rev (le_bytes 2 (of_nat (length items) :: u16)) @ concat (map spead_wire items) @ payload"

definition item_value :: "(u16 \<times> u64) list \<Rightarrow> u16 \<Rightarrow> u64 \<Rightarrow> u64" where
  "item_value items ident d = (case map_of (rev items) ident of None \<Rightarrow> d | Some v \<Rightarrow> v)"

definition spead_view :: "(u16 \<times> u64) list \<Rightarrow> mk_feng_spead_info \<Rightarrow> mk_feng_spead_info" where
  "spead_view items fesi = \<lparr>heap_offset = item_value items 0x8003 (heap_offset fesi),
     payload_size = item_value items 0x8004 (payload_size fesi),
     timestamp = item_value items 0x9600 (timestamp fesi),
     feng_id = item_value items 0xc101 (feng_id fesi),
     feng_chan = item_value items 0xc103 (feng_chan fesi)\<rparr>"

definition swap16 :: "u16 \<Rightarrow> u16" where
  "swap16 i = le_word (rev (le_bytes 2 i))"

lemma swap16_involutive [simp]: "swap16 (swap16 i) = i"
  by (simp add: swap16_def)

lemma swap16_eq_iff: "swap16 i = j \<longleftrightarrow> i = swap16 j"
  by (metis swap16_involutive)

lemma swap16_ids:
  "swap16 0x0380 = 0x8003" "swap16 0x0480 = 0x8004" "swap16 0x0096 = 0x9600"
  "swap16 0x01c1 = 0xc101" "swap16 0x03c1 = 0xc103" "swap16 0x0043 = 0x4300"
  by (code_simp)+

lemma length_spead_wire [simp]: "length (spead_wire it) = 8"
  by (cases it) (simp add: spead_wire_def)

lemma byte_of_wire_top:
  assumes "unat v < 2 ^ 48"
  shows "byte_of (push_bit 48 (ucast ident) OR v :: u64) 6 = byte_of (ident :: u16) 0"
    "byte_of (push_bit 48 (ucast ident) OR v :: u64) 7 = byte_of ident 1"
proof -
  have hi: "\<not> bit v n" if "48 \<le> n" for n using bit_small [OF assms, of n] that by force
  show "byte_of (push_bit 48 (ucast ident) OR v :: u64) 6 = byte_of ident 0"
    by (rule bit_eqI) (auto simp: bit_byte_of bit_simps hi)
  show "byte_of (push_bit 48 (ucast ident) OR v :: u64) 7 = byte_of ident 1"
    by (rule bit_eqI) (auto simp: bit_byte_of bit_simps hi)
qed

lemma spead_wire_ident:
  assumes "unat v < 2 ^ 48"
  shows "le_word (take 2 (spead_wire (ident, v))) = swap16 ident"
proof -
  have top: "take 2 (rev (le_bytes 8 w)) = [byte_of w 7, byte_of w 6]" for w :: u64
    by (simp add: le_bytes_def upt_rec numeral_eq_Suc)
  have both: "rev (le_bytes 2 ident) = [byte_of ident 1, byte_of ident 0]"
    by (simp add: le_bytes_def upt_rec numeral_2_eq_2)
  show ?thesis
    using byte_of_wire_top [OF assms, of ident] by (simp only: spead_wire_def prod.case top both swap16_def)
qed

lemma spead_wire_value:
  assumes "unat v < 2 ^ 48"
  shows "spead_imm_value (be_word (spead_wire (ident, v))) = v"
proof -
  have mask: "SPEAD_IMM_MASK = mask 48" by (simp add: SPEAD_IMM_MASK_def mask_eq_exp_minus_1)
  have "be_word (spead_wire (ident, v)) = (push_bit 48 (ucast ident) OR v :: u64)"
    by (simp add: spead_wire_def be_word_def)
  then show ?thesis
    using take_bit_small [OF assms] unfolding spead_imm_value_def mask
    by (simp add: take_bit_eq_mask [symmetric] take_bit_push_bit)
qed

lemma item_value_Nil [simp]: "item_value [] ident d = d"
  by (simp add: item_value_def)

lemma item_value_Cons: "item_value ((i, v) # items) ident d = item_value items ident (if i = ident then v else d)"
  by (simp add: item_value_def map_add_def split: option.splits)

lemma spead_item_view:
  assumes "unat v < 2 ^ 48"
  shows "spead_item (swap16 ident) (be_word (spead_wire (ident, v))) (fesi, off) =
    (spead_view [(ident, v)] fesi, item_value [(ident, v)] 0x4300 off)"
  using spead_wire_value [OF assms, of ident]
  by (auto simp: spead_item_def spead_view_def item_value_Cons cconst swap16_eq_iff swap16_ids)

lemma spead_view_Cons: "spead_view items (spead_view [it] fesi) = spead_view (it # items) fesi"
  by (cases it) (simp add: spead_view_def item_value_Cons)

lemma spead_items_view:
  assumes "\<forall>(i, v) \<in> set items. unat v < 2 ^ 48"
  shows "spead_items (length items) (concat (map spead_wire items) @ rest) (fesi, off) =
    Inr (spead_view items fesi, item_value items 0x4300 off)"
  using assms
proof (induction items arbitrary: fesi off)
  case Nil
  show ?case by (simp add: spead_view_def)
next
  case (Cons it items)
  obtain i v where it: "it = (i, v)" by fastforce
  have v: "unat v < 2 ^ 48" using Cons.prems it by simp
  have "item_value items 0x4300 (item_value [it] 0x4300 off) = item_value (it # items) 0x4300 off"
    by (simp add: it item_value_Cons)
  then show ?case
    using Cons.IH [of "spead_view [it] fesi" "item_value [it] 0x4300 off"] Cons.prems
    by (simp add: it spead_wire_ident [OF v] spead_item_view [OF v] spead_view_Cons)
qed

lemma ibv_spead_view:
  assumes "length items < 2 ^ 16" "\<forall>(i, v) \<in> set items. unat v < 2 ^ 48" "length magic = 6"
  shows "mk_parse_mkfeng_ibv_spead_packet (spead_packet magic items payload) fesi = Inr (spead_view items fesi)"
proof -
  let ?p = "spead_packet magic items payload"
  have "unat (be_word (peek 6 2 ?p) :: u16) = length items"
    using assms(1,3) by (simp add: spead_packet_def peek_def be_word_def unat_of_nat_small)
  moreover have "drop 8 ?p = concat (map spead_wire items) @ payload" "\<not> length ?p < 8"
    using assms(3) by (simp_all add: spead_packet_def)
  ultimately show ?thesis using spead_items_view [OF assms(2), of payload fesi 0]
    by (simp add: mk_parse_mkfeng_ibv_spead_packet_def Let_def)
qed

text \<open>
  C30: Parsing the header of an F engine packet recovers what was sent: for every list of at most
  65535 items (in any order, with any other ids among them) each field holds the value of the last
  item with its id, or keeps its old value when there is none, the payload is found after the items
  (and the payload offset), and the parser for the aligned packets gives the same fields.
\<close>

theorem parse_spead_packet:
  assumes "length items < 2 ^ 16" "\<forall>(i, v) \<in> set items. unat v < 2 ^ 48" "length magic = 6"
  shows "mk_parse_mkfeng_packet (spead_packet magic items payload) fesi =
      Inr (spead_view items fesi, 8 * (length items + 1) + unat (item_value items 0x4300 0)) \<and>
    mk_parse_mkfeng_ibv_spead_packet (spead_packet magic items payload) fesi = Inr (spead_view items fesi) \<and>
    drop (8 * (length items + 1)) (spead_packet magic items payload) = payload"
proof -
  let ?p = "spead_packet magic items payload"
  have n: "unat (be_word (peek 6 2 ?p) :: u16) = length items"
    using assms(1,3) by (simp add: spead_packet_def peek_def be_word_def unat_of_nat_small)
  have rest: "drop 8 ?p = concat (map spead_wire items) @ payload"
    using assms(3) by (simp add: spead_packet_def)
  have len: "length (concat (map spead_wire items)) = 8 * length items"
    by (simp add: length_concat comp_def sum_list_triv)
  have "drop (8 * (length items + 1)) ?p = drop (8 * length items) (drop 8 ?p)" by (simp add: add.commute)
  also have "\<dots> = payload" unfolding rest by (simp add: len)
  finally have "drop (8 * (length items + 1)) ?p = payload" .
  moreover have "\<not> length ?p < 8" using assms(3) by (simp add: spead_packet_def)
  ultimately show ?thesis
    using spead_items_view [OF assms(2), of payload fesi 0] ibv_spead_view [OF assms]
    by (simp add: mk_parse_mkfeng_packet_def n rest Let_def)
qed

definition example_items :: "(u16 \<times> u64) list" where
  "example_items = [(0x8001, 77), (0xc103, 64), (0x9600, 0x123456789a), (0x8003, 1024), (0xc101, 3), (0x8004, 1024)]"

theorem parse_spead_packet_witness:
  "mk_parse_mkfeng_packet (spead_packet [0x53, 4, 2, 6, 0, 0] example_items [1, 2, 3])
      \<lparr>heap_offset = 0, payload_size = 0, timestamp = 0, feng_id = 0, feng_chan = 0\<rparr> =
    Inr (\<lparr>heap_offset = 1024, payload_size = 1024, timestamp = 0x123456789a, feng_id = 3, feng_chan = 64\<rparr>, 56)"
  using parse_spead_packet [of example_items "[0x53, 4, 2, 6, 0, 0]" "[1, 2, 3]"
      "\<lparr>heap_offset = 0, payload_size = 0, timestamp = 0, feng_id = 0, feng_chan = 0\<rparr>"]
  by (simp add: example_items_def spead_view_def item_value_def)

end
