(* ===== verification/Hpguppi_Util.thy ===== *)
theory Hpguppi_Util
  imports Copying
begin

text \<open>
  The model of half_hashpipe/hpguppi_util.c: creating a directory with its parents, and clearing and
  copying memory with wide non-temporal stores. \<open>nt\<close> is \<^verbatim>\<open>SIZE_NT\<close>, the logarithm of the width of a
  store: 6 with AVX512F, 5 with AVX2. That the addresses are aligned is not part of the model.
\<close>

section \<open>Directories\<close>

definition strchr_from :: "string \<Rightarrow> nat \<Rightarrow> nat option" where
  "strchr_from s p = (let r = find_from (\<lambda>i. s ! i = CHR ''/'') (length s) p in if r = -1 then None else Some (nat r))"

lemma strchr_from_SomeD:
  assumes "strchr_from s p = Some i"
  shows "p \<le> i" "i < length s" "s ! i = CHR ''/''" "\<forall>j. p \<le> j \<and> j < i \<longrightarrow> s ! j \<noteq> CHR ''/''"
  using assms find_from_range [of "\<lambda>i. s ! i = CHR ''/''" "length s" p]
  by (auto simp: strchr_from_def Let_def split: if_splits)

lemma strchr_from_NoneD:
  assumes "strchr_from s p = None" "p \<le> j" "j < length s"
  shows "s ! j \<noteq> CHR ''/''"
  using assms find_from_range [of "\<lambda>i. s ! i = CHR ''/''" "length s" p]
  by (auto simp: strchr_from_def Let_def split: if_splits)

text \<open>
  \<open>mk d\<close> says whether \<^verbatim>\<open>mkdir\<close> of \<open>d\<close> succeeds or fails with EEXIST. The result is the return value
  and the directories asked for, in order.
\<close>

function mkdir_parents :: "(string \<Rightarrow> bool) \<Rightarrow> string \<Rightarrow> nat option \<Rightarrow> string list \<Rightarrow> int \<times> string list" where
  "mkdir_parents mk path None made = (0, made)"
| "mkdir_parents mk path (Some i) made =
     (if i < length path then
        if mk (take i path) then mkdir_parents mk path (strchr_from path (Suc i)) (made @ [take i path])
        else (-1, made @ [take i path])
      else (0, made))"
  by pat_completeness auto
termination
  by (relation "measure (\<lambda>(mk, path, p, made). case p of None \<Rightarrow> 0 | Some i \<Rightarrow> Suc (length path) - i)")
    (auto split: option.split dest: strchr_from_SomeD)

definition mkdir_p :: "(string \<Rightarrow> bool) \<Rightarrow> string option \<Rightarrow> int \<times> string list" where
  "mkdir_p mk pathname = (case pathname of None \<Rightarrow> (-1, [])
     | Some path \<Rightarrow>
       let p = (if path \<noteq> [] \<and> hd path = CHR ''/'' then 1 else 0) in
       case mkdir_parents mk path (strchr_from path p) [] of (rc, made) \<Rightarrow>
         if rc = -1 then (-1, made)
         else if mk path then (0, made @ [path]) else (-1, made @ [path]))"

text \<open>
  The parents are exactly the prefixes that end before a slash (not counting a leading one), in order
  of length.
\<close>

definition parents_from :: "string \<Rightarrow> nat \<Rightarrow> string list" where
  "parents_from path p = map (\<lambda>i. take i path) (filter (\<lambda>i. path ! i = CHR ''/'') [p..<length path])"

lemma parents_from_strchr:
  "parents_from path p = (case strchr_from path p of None \<Rightarrow> []
     | Some i \<Rightarrow> take i path # parents_from path (Suc i))"
proof (cases "strchr_from path p")
  case None
  then show ?thesis using strchr_from_NoneD [OF None] by (auto simp: parents_from_def filter_empty_conv)
next
  case (Some i)
  note i = strchr_from_SomeD [OF Some]
  have "[p..<length path] = [p..<i] @ i # [Suc i..<length path]"
    using i(1,2) upt_add_eq_append [of p i "length path - i"] by (simp add: upt_conv_Cons)
  moreover have "filter (\<lambda>i. path ! i = CHR ''/'') [p..<i] = []" using i(4) by (auto simp: filter_empty_conv)
  ultimately show ?thesis using Some i(3) by (simp add: parents_from_def)
qed

lemma mkdir_parents_all:
  assumes "\<forall>d. mk d"
  shows "mkdir_parents mk path (strchr_from path p) made = (0, made @ parents_from path p)"
proof (induction "length path - p" arbitrary: p made rule: less_induct)
  case less
  show ?case
  proof (cases "strchr_from path p")
    case None
    then show ?thesis using parents_from_strchr [of path p] by simp
  next
    case (Some i)
    then have "length path - Suc i < length path - p" using strchr_from_SomeD [OF Some] by linarith
    then show ?thesis
      using less [of "Suc i" "made @ [take i path]"] Some strchr_from_SomeD(2) [OF Some] assms parents_from_strchr [of path p]
      by simp
  qed
qed

lemma mkdir_p_all:
  assumes "\<forall>d. mk d"
  shows "mkdir_p mk (Some path) =
    (0, parents_from path (if path \<noteq> [] \<and> hd path = CHR ''/'' then 1 else 0) @ [path])"
  by (simp add: mkdir_p_def mkdir_parents_all [OF assms] assms [rule_format])

section \<open>Wide stores\<close>

definition bzero_wide :: "nat \<Rightarrow> nat \<Rightarrow> nat \<times> u8 list \<Rightarrow> (nat \<times> u8 list) cres" where
  "bzero_wide nt i = (\<lambda>(pwide, dst). cbind (memzero pwide (2 ^ nt) dst) (\<lambda>dst. Inr (pwide + 2 ^ nt, dst)))"

definition bzero_nt :: "nat \<Rightarrow> nat \<Rightarrow> u64 \<Rightarrow> u8 list \<Rightarrow> u8 list cres" where
  "bzero_nt nt dst len mem = cbind (cfold (bzero_wide nt) [0..<unat (drop_bit nt len)] (dst, mem)) (\<lambda>(pwide, mem). Inr mem)"

definition memcpy_wide :: "nat \<Rightarrow> u8 list \<Rightarrow> nat \<Rightarrow> (nat \<times> nat) \<times> u8 list \<Rightarrow> ((nat \<times> nat) \<times> u8 list) cres" where
  "memcpy_wide nt src i = (\<lambda>((dstwide, srcwide), mem).
     cbind (memcpy dstwide srcwide (2 ^ nt) src mem) (\<lambda>mem. Inr ((dstwide + 2 ^ nt, srcwide + 2 ^ nt), mem)))"

definition memcpy_nt :: "nat \<Rightarrow> nat \<Rightarrow> nat \<Rightarrow> u64 \<Rightarrow> u8 list \<Rightarrow> u8 list \<Rightarrow> u8 list cres" where
  "memcpy_nt nt dst src len from mem =
     cbind (cfold (memcpy_wide nt from) [0..<unat (drop_bit nt len)] ((dst, src), mem)) (\<lambda>(ptrs, mem). Inr mem)"

text \<open>The wide copy is a plain copy of the length rounded down to the width of a store.\<close>

lemma memcpy_split:
  assumes "s + (m + n) \<le> length src"
  shows "cbind (memcpy d s m src dst) (memcpy (d + m) (s + m) n src) = memcpy d s (m + n) src dst"
proof -
  have "peek s (m + n) src = peek s m src @ peek (s + m) n src" by (simp add: peek_def take_add add.commute)
  moreover have "memcpy (d + m) (s + m) n src = blit (d + m) (peek (s + m) n src)"
    using assms by (simp add: fun_eq_iff memcpy_ok)
  ultimately show ?thesis using assms blit_append [of d "peek s m src" "peek (s + m) n src" dst]
    by (simp add: memcpy_ok length_peek)
qed

lemma memcpy_wide_loop:
  assumes "s + n * 2 ^ nt \<le> length src" "d + n * 2 ^ nt \<le> length dst"
  shows "cfold (\<lambda>i. memcpy (d + i * 2 ^ nt) (s + i * 2 ^ nt) (2 ^ nt) src) [0..<n] dst = memcpy d s (n * 2 ^ nt) src dst"
  using assms
proof (induction n)
  case 0
  then show ?case by (simp add: memcpy_def cload_def peek_def blit_def)
next
  case (Suc n)
  have "cfold (\<lambda>i. memcpy (d + i * 2 ^ nt) (s + i * 2 ^ nt) (2 ^ nt) src) [0..<Suc n] dst =
      cbind (memcpy d s (n * 2 ^ nt) src dst) (memcpy (d + n * 2 ^ nt) (s + n * 2 ^ nt) (2 ^ nt) src)"
    using Suc by (simp add: cfold_append fun_eq_iff cbind_def split: sum.split)
  also have "\<dots> = memcpy d s (n * 2 ^ nt + 2 ^ nt) src dst"
    using Suc.prems by (intro memcpy_split) simp
  finally show ?case by (simp add: add.commute)
qed

lemma memcpy_nt_rounds_down:
  assumes "s + unat (drop_bit nt len) * 2 ^ nt \<le> length src" "d + unat (drop_bit nt len) * 2 ^ nt \<le> length dst"
  shows "memcpy_nt nt d s len src dst = memcpy d s (unat len div 2 ^ nt * 2 ^ nt) src dst"
proof -
  let ?n = "unat (drop_bit nt len)"
  have "memcpy_wide nt src i ((d + i * 2 ^ nt, s + i * 2 ^ nt), mem) =
      cbind (memcpy (d + i * 2 ^ nt) (s + i * 2 ^ nt) (2 ^ nt) src mem)
        (\<lambda>mem. Inr ((d + Suc i * 2 ^ nt, s + Suc i * 2 ^ nt), mem))" for i mem
    by (simp add: memcpy_wide_def ac_simps)
  from pointer_loop [of ?n "memcpy_wide nt src" "\<lambda>i. (d + i * 2 ^ nt, s + i * 2 ^ nt)", OF this, of dst]
  have "memcpy_nt nt d s len src dst =
      cfold (\<lambda>i. memcpy (d + i * 2 ^ nt) (s + i * 2 ^ nt) (2 ^ nt) src) [0..<?n] dst"
    by (simp add: memcpy_nt_def cbind_assoc)
  then show ?thesis using memcpy_wide_loop [OF assms] by (simp add: unat_drop_bit_div)
qed

lemma memcpy_nt_multiple:
  assumes "2 ^ nt dvd unat len" "s + unat len \<le> length src" "d + unat len \<le> length dst"
  shows "memcpy_nt nt d s len src dst = memcpy d s (unat len) src dst"
  using assms memcpy_nt_rounds_down [of s nt len src d dst] by (simp add: unat_drop_bit_div dvd_div_mult_self)

end
