(* ===== verification/Hpguppi_Databuf.thy ===== *)
theory Hpguppi_Databuf
  imports Status_Buffer
begin

text \<open>
  The model of half_hashpipe/hpguppi_databuf.h and the compiled part of hpguppi_databuf.c: a shared
  ring of blocks with a header and data. The header of a block is a status header. The semaphores
  that mark blocks free or filled belong to the hashpipe library: the calls that set them are logged
  by the users of this theory, the results of the calls that wait for them are inputs.
\<close>

definition ALIGNMENT_SIZE :: nat where [cconst]: "ALIGNMENT_SIZE = 4096"
definition N_INPUT_BLOCKS :: nat where [cconst]: "N_INPUT_BLOCKS = 24"
definition BLOCK_HDR_SIZE :: nat where [cconst]: "BLOCK_HDR_SIZE = 5 * 80 * 512"
definition BLOCK_DATA_SIZE :: nat where [cconst]: "BLOCK_DATA_SIZE = 128 * 1024 * 1024"

record 'st hpguppi_input_block =
  blk_hdr :: 'st
  blk_data :: "u8 list"

record 'st hpguppi_input_databuf =
  n_block :: int
  blocks :: "'st hpguppi_input_block list"

datatype db_event = SetFilled int | SetFree int

text \<open>\<open>d\<close> is what \<^verbatim>\<open>hashpipe_databuf_create\<close> returns for this size.\<close>

definition hpguppi_input_databuf_create ::
  "('st, 'f) status_ops \<Rightarrow> 'st hpguppi_input_databuf option \<Rightarrow> 'st hpguppi_input_databuf option" where
  "hpguppi_input_databuf_create api d = (case d of None \<Rightarrow> None
     | Some d \<Rightarrow> Some (d\<lparr>blocks := map (\<lambda>i. if i < N_INPUT_BLOCKS
         then \<lparr>blk_hdr = end_header api, blk_data = replicate BLOCK_DATA_SIZE 0\<rparr> else blocks d ! i) [0..<length (blocks d)]\<rparr>))"

text \<open>
  The pointer to the header or data of a block, as the number of the block; \<open>None\<close> is \<^verbatim>\<open>NULL\<close>. The
  test lets the number of blocks itself pass, for which the array has no element.
\<close>

definition hpguppi_databuf_header :: "'st hpguppi_input_databuf \<Rightarrow> int \<Rightarrow> nat option cres" where
  "hpguppi_databuf_header d block_id =
     (if block_id < 0 \<or> n_block d < block_id then Inr None
      else if nat block_id < length (blocks d) then Inr (Some (nat block_id)) else Inl NoBlock)"

definition hpguppi_databuf_data :: "'st hpguppi_input_databuf \<Rightarrow> int \<Rightarrow> nat option cres" where
  "hpguppi_databuf_data d block_id =
     (if block_id < 0 \<or> n_block d < block_id then Inr None
      else if nat block_id < length (blocks d) then Inr (Some (nat block_id)) else Inl NoBlock)"

definition databuf_ok :: "'st hpguppi_input_databuf \<Rightarrow> bool" where
  "databuf_ok d \<longleftrightarrow> 0 < n_block d \<and> n_block d = int (length (blocks d)) \<and>
     (\<forall>b \<in> set (blocks d). length (blk_data b) = BLOCK_DATA_SIZE)"

lemma databuf_pointer:
  assumes "databuf_ok d"
  shows "0 \<le> i \<Longrightarrow> i < n_block d \<Longrightarrow> hpguppi_databuf_data d i = Inr (Some (nat i)) \<and> hpguppi_databuf_header d i = Inr (Some (nat i))"
    "i < 0 \<or> n_block d < i \<Longrightarrow> hpguppi_databuf_data d i = Inr None \<and> hpguppi_databuf_header d i = Inr None"
    "hpguppi_databuf_data d (n_block d) = Inl NoBlock" "hpguppi_databuf_header d (n_block d) = Inl NoBlock"
  using assms by (auto simp: databuf_ok_def hpguppi_databuf_data_def hpguppi_databuf_header_def)

end
