(* ===== verification/Hpguppi_Time.thy ===== *)
theory Hpguppi_Time
  imports Status_Buffer
begin

text \<open>
  The model of half_hashpipe/hpguppi_time.c: a time as a Modified Julian Date and back, and the sidereal
  time. The calendar of the C library, the functions of slalib and the operations on doubles are
  parameters.
\<close>

record tm =
  tm_year :: int
  tm_mon :: int
  tm_mday :: int
  tm_hour :: int
  tm_min :: int
  tm_sec :: int

record 'f time_ops =
  gmtime_r :: "u64 \<Rightarrow> tm option"
  slaCaldj :: "int \<Rightarrow> int \<Rightarrow> int \<Rightarrow> 'f \<times> int"
  f_to_int :: "'f \<Rightarrow> int"
  nsec_to_sec :: "u64 \<Rightarrow> 'f"
  usec_to_sec :: "u64 \<Rightarrow> 'f"

text \<open>
  The three results are the values of the variables the caller passes, which stay as they are on an
  error.
\<close>

definition get_mjd_from_timespec ::
  "'f time_ops \<Rightarrow> u64 \<times> u64 \<Rightarrow> int \<times> int \<times> 'f \<Rightarrow> hashpipe_rc \<times> int \<times> int \<times> 'f" where
  "get_mjd_from_timespec t = (\<lambda>(tv_sec, tv_nsec) old.
     case gmtime_r t tv_sec of None \<Rightarrow> (HASHPIPE_ERR_SYS, old)
     | Some gmt \<Rightarrow> (case slaCaldj t (tm_year gmt + 1900) (tm_mon gmt + 1) (tm_mday gmt) of (mjd, rv) \<Rightarrow>
         if rv \<noteq> 0 then (HASHPIPE_ERR_GEN, old)
         else (HASHPIPE_OK, f_to_int t mjd, tm_hour gmt * 3600 + tm_min gmt * 60 + tm_sec gmt, nsec_to_sec t tv_nsec)))"

definition get_mjd_from_timeval ::
  "'f time_ops \<Rightarrow> u64 \<times> u64 \<Rightarrow> int \<times> int \<times> 'f \<Rightarrow> hashpipe_rc \<times> int \<times> int \<times> 'f" where
  "get_mjd_from_timeval t = (\<lambda>(tv_sec, tv_usec) old.
     case gmtime_r t tv_sec of None \<Rightarrow> (HASHPIPE_ERR_SYS, old)
     | Some gmt \<Rightarrow> (case slaCaldj t (tm_year gmt + 1900) (tm_mon gmt + 1) (tm_mday gmt) of (mjd, rv) \<Rightarrow>
         if rv \<noteq> 0 then (HASHPIPE_ERR_GEN, old)
         else (HASHPIPE_OK, f_to_int t mjd, tm_hour gmt * 3600 + tm_min gmt * 60 + tm_sec gmt, usec_to_sec t tv_usec)))"

text \<open>\<open>now\<close> is what gettimeofday gives, or its failure.\<close>

definition get_current_mjd ::
  "'f time_ops \<Rightarrow> (u64 \<times> u64) option \<Rightarrow> int \<times> int \<times> 'f \<Rightarrow> hashpipe_rc \<times> int \<times> int \<times> 'f" where
  "get_current_mjd t now old = (case now of None \<Rightarrow> (HASHPIPE_ERR_SYS, old) | Some tv \<Rightarrow> get_mjd_from_timeval t tv old)"

text \<open>
  Doubles: literals, conversions (\<open>r_trunc\<close> is the conversion to an integer, \<open>r_rint\<close> that of a rounded
  number, \<open>r_float\<close> that to single precision) and arithmetic, and what is used of slalib.
\<close>

record 'f real_ops =
  r_lit :: "string \<Rightarrow> 'f"
  r_of_int :: "int \<Rightarrow> 'f"
  r_trunc :: "'f \<Rightarrow> int"
  r_rint :: "'f \<Rightarrow> int"
  r_float :: "'f \<Rightarrow> 'f"
  r_add :: "'f \<Rightarrow> 'f \<Rightarrow> 'f"
  r_sub :: "'f \<Rightarrow> 'f \<Rightarrow> 'f"
  r_mul :: "'f \<Rightarrow> 'f \<Rightarrow> 'f"
  r_div :: "'f \<Rightarrow> 'f \<Rightarrow> 'f"
  r_neg :: "'f \<Rightarrow> 'f"
  r_less :: "'f \<Rightarrow> 'f \<Rightarrow> bool"
  r_eq :: "'f \<Rightarrow> 'f \<Rightarrow> bool"

record 'f sla_ops =
  slaDjcl :: "'f \<Rightarrow> int \<times> int \<times> int \<times> 'f \<times> int"
  slaObs_lon :: "string \<Rightarrow> 'f"
  slaGmst :: "'f \<Rightarrow> 'f"
  slaDtt :: "'f \<Rightarrow> 'f"
  slaEqeqx :: "'f \<Rightarrow> 'f"
  slaDranrm :: "'f \<Rightarrow> 'f"
  slaEqgal :: "'f \<Rightarrow> 'f \<Rightarrow> 'f \<times> 'f"

text \<open>
  The date and the time of day; \<open>old\<close> are hour, minute and second as the caller has them. slalib sets
  the date also when it fails.
\<close>

definition datetime_from_mjd ::
  "'f real_ops \<Rightarrow> 'f sla_ops \<Rightarrow> 'f \<Rightarrow> int \<times> int \<times> 'f \<Rightarrow> hashpipe_rc \<times> (int \<times> int \<times> int) \<times> (int \<times> int \<times> 'f)" where
  "datetime_from_mjd r sla m old = (case slaDjcl sla m of (yyyy, mm, dd, fracday, err) \<Rightarrow>
     if err = -1 then (HASHPIPE_ERR_GEN, (yyyy, mm, dd), old)
     else let fracday = r_mul r fracday (r_lit r ''24.0''); h = r_trunc r fracday;
              fracday = r_mul r (r_sub r fracday (r_of_int r h)) (r_lit r ''60.0''); mi = r_trunc r fracday in
       (HASHPIPE_OK, (yyyy, mm, dd), (h, mi, r_mul r (r_sub r fracday (r_of_int r mi)) (r_lit r ''60.0''))))"

definition get_current_lst :: "'f real_ops \<Rightarrow> 'f sla_ops \<Rightarrow> 'f \<Rightarrow> hashpipe_rc \<times> int" where
  "get_current_lst r sla m =
     (let lon = r_neg r (slaObs_lon sla ''GBT'');
          gmst = slaGmst sla m;
          tt = r_add r m (r_div r (slaDtt sla m) (r_lit r ''86400.0''));
          eqeqx = slaEqeqx sla tt;
          lst_rad = slaDranrm sla (r_add r (r_add r gmst eqeqx) lon) in
      (HASHPIPE_OK, r_trunc r (r_div r (r_mul r lst_rad (r_lit r ''86400.0'')) (r_lit r ''6.283185307179586476925''))))"

text \<open>The second of the day is in range whenever the calendar gives proper hours, minutes and seconds.\<close>

lemma mjd_second_of_day:
  assumes "get_mjd_from_timespec t ts old = (HASHPIPE_OK, d, s, f)"
    and "\<And>x gmt. gmtime_r t x = Some gmt \<Longrightarrow>
      tm_hour gmt \<in> {0..23} \<and> tm_min gmt \<in> {0..59} \<and> tm_sec gmt \<in> {0..59}"
  shows "0 \<le> s" "s < 86400"
proof -
  obtain gmt where "gmtime_r t (fst ts) = Some gmt" "s = tm_hour gmt * 3600 + tm_min gmt * 60 + tm_sec gmt"
    using assms(1) by (auto simp: get_mjd_from_timespec_def split: prod.splits option.splits if_splits)
  with assms(2) [of "fst ts" gmt] show "0 \<le> s" "s < 86400" by auto
qed

end
