(* ===== verification/Outer_Thread.thy ===== *)
theory Outer_Thread
  imports Mkfeng Hpguppi_Util Hpguppi_Databuf Hpguppi_Time "HOL-Library.Signed_Division"
begin

text \<open>
  The model of half_hashpipe/ata_volt_outer_thread.c and its header, without the worker threads (the
  macro \<^verbatim>\<open>USE_WORKER_THREADS\<close> is not defined; see the theory of the job queue). The thread takes
  blocks of packets from the input buffer and assembles two working blocks of the output buffer.

  The file is unfinished: \<^verbatim>\<open>run\<close> uses fields that \<^verbatim>\<open>struct ata_obs_info\<close> does not have, passes that
  structure to functions that take a \<^verbatim>\<open>struct mk_obs_info\<close>, and uses names that are declared nowhere.
  The model reads \<^verbatim>\<open>obs_info\<close> as having the fields of both structures and \<^verbatim>\<open>nstreams\<close> as an
  unsigned variable; \<^verbatim>\<open>ata_obs_info_valid\<close> is a parameter.
\<close>

section \<open>Data\<close>

datatype run_states = IDLE | LISTEN | RECORD

definition VOLT_OUTER_HASHPIPE_BLOCKS_AT_A_TIME :: nat where [cconst]: "VOLT_OUTER_HASHPIPE_BLOCKS_AT_A_TIME = 2"
definition MAXANTS :: nat where [cconst]: "MAXANTS = 4"
definition ATA_ANT_NOT_INITED :: u32 where [cconst]: "ATA_ANT_NOT_INITED = 0xFFFF"

text \<open>The product \<^verbatim>\<open>SAMPLES_PER_PACKET*POLS_PER_PACKET*CHANS_PER_PACKET*BYTES_PER_COMPLEX_SAMPLE\<close>.\<close>

definition ATA_BYTES_PER_PACKET :: u32 where [cconst]: "ATA_BYTES_PER_PACKET = 16 * 2 * 256 * 1"

record ata_obs_info =
  ata_nchan :: u32
  ata_nants :: u32
  ata_schan :: u32
  antids :: "u32 list"

text \<open>The absolute block number is a signed 64-bit number; packet indices have at most 48 bits.\<close>

record block_info =
  block_idx_out :: int
  block_num :: int
  bi_pktidx_per_block :: u64
  pkts_per_block :: u64
  npacket :: u32
  ndrop :: u32

section \<open>Observation information\<close>

definition ata_obs_info_init :: "ata_obs_info \<Rightarrow> int \<times> ata_obs_info" where
  "ata_obs_info_init info = (0, \<lparr>ata_nchan = 0, ata_nants = 0, ata_schan = 0, antids = replicate MAXANTS ATA_ANT_NOT_INITED\<rparr>)"

definition get_ata_ant_index :: "ata_obs_info \<Rightarrow> u32 \<Rightarrow> int" where
  "get_ata_ant_index info antid =
     (if unat (ata_nants info) \<ge> MAXANTS then -1
      else find_from (\<lambda>iK. antids info ! iK = antid) (unat (ata_nants info)) 0)"

definition ata_pktidx_per_block :: "u64 \<Rightarrow> ata_obs_info \<Rightarrow> u32 cres" where
  "ata_pktidx_per_block block_size info =
     (let d = ata_nants info * ata_nchan info * ATA_BYTES_PER_PACKET in
      if d = 0 then Inl DivZero else Inr (prevpow2 (ucast (block_size div ucast d))))"

definition ata_block_size :: "u64 \<Rightarrow> ata_obs_info \<Rightarrow> u32 cres" where
  "ata_block_size block_size info = cbind (ata_pktidx_per_block block_size info) (\<lambda>p.
     Inr (p * (ata_nants info * ata_nchan info * ATA_BYTES_PER_PACKET)))"

section \<open>Blocks\<close>

text \<open>A pointer that may be \<^verbatim>\<open>NULL\<close> is dereferenced.\<close>

definition deref :: "nat option cres \<Rightarrow> nat cres" where
  "deref m = cbind m (\<lambda>p. case p of None \<Rightarrow> Inl NoBlock | Some i \<Rightarrow> Inr i)"

definition block_info_data :: "'st hpguppi_input_databuf \<Rightarrow> block_info \<Rightarrow> nat option cres" where
  "block_info_data dbout bi = hpguppi_databuf_data dbout (block_idx_out bi)"

definition block_info_header :: "'st hpguppi_input_databuf \<Rightarrow> block_info \<Rightarrow> nat option cres" where
  "block_info_header dbout bi = hpguppi_databuf_header dbout (block_idx_out bi)"

definition reset_block_info_stats :: "block_info \<Rightarrow> block_info" where
  "reset_block_info_stats bi = bi\<lparr>npacket := 0, ndrop := 0\<rparr>"

text \<open>The pointer to the output buffer is the same for all blocks and not part of the record.\<close>

definition init_block_info :: "block_info \<Rightarrow> int \<Rightarrow> int \<Rightarrow> u64 \<Rightarrow> block_info" where
  "init_block_info bi idx num pkts =
     (let bi = (if idx \<ge> 0 then bi\<lparr>block_idx_out := idx\<rparr> else bi);
          bi = bi\<lparr>block_num := num\<rparr>;
          bi = (if pkts > 0 then bi\<lparr>pkts_per_block := pkts\<rparr> else bi) in
      reset_block_info_stats bi)"

text \<open>The output side of the thread: the status buffer, the blocks and the log of set semaphores.\<close>

record 'st outer_out =
  stat :: 'st
  dbout :: "'st hpguppi_input_databuf"
  events :: "db_event list"

definition update_header :: "nat \<Rightarrow> ('st \<Rightarrow> 'st) \<Rightarrow> 'st hpguppi_input_databuf \<Rightarrow> 'st hpguppi_input_databuf" where
  "update_header i f d = d\<lparr>blocks := (blocks d)[i := (blocks d ! i)\<lparr>blk_hdr := f (blk_hdr (blocks d ! i))\<rparr>]\<rparr>"

definition update_data :: "nat \<Rightarrow> u8 list \<Rightarrow> 'st hpguppi_input_databuf \<Rightarrow> 'st hpguppi_input_databuf" where
  "update_data i bytes d = d\<lparr>blocks := (blocks d)[i := (blocks d ! i)\<lparr>blk_data := bytes\<rparr>]\<rparr>"

text \<open>\<^verbatim>\<open>pthread_exit\<close> after a reported error is \<open>Fatal\<close>.\<close>

definition finalize_block ::
  "('st, 'f) status_ops \<Rightarrow> block_info \<Rightarrow> 'st outer_out \<Rightarrow> (block_info \<times> 'st outer_out) cres" where
  "finalize_block api bi st =
     (if block_idx_out bi < 0 then Inl (Fatal ''block_idx_out'')
      else cbind (deref (block_info_header (dbout st) bi)) (\<lambda>h.
        let bi = (if pkts_per_block bi > ucast (npacket bi)
                  then bi\<lparr>ndrop := ucast (pkts_per_block bi - ucast (npacket bi))\<rparr> else bi);
            dropstat = dec_int (sint (ndrop bi)) @ ''/'' @ dec (unat (pkts_per_block bi));
            d = update_header h (\<lambda>hdr. hputs api ''DROPSTAT'' dropstat (hputi4 api ''NDROP'' (ndrop bi)
                  (hputi4 api ''NPKT'' (npacket bi)
                    (hputi8 api ''PKTIDX'' (word_of_int (block_num bi) * bi_pktidx_per_block bi) hdr)))) (dbout st) in
        Inr (bi, st\<lparr>dbout := d, events := events st @ [SetFilled (block_idx_out bi)]\<rparr>)))"

definition increment_block :: "'st hpguppi_input_databuf \<Rightarrow> block_info \<Rightarrow> int \<Rightarrow> block_info cres" where
  "increment_block d bi num =
     (if n_block d < 1 then Inl (Fatal ''n_block'')
      else Inr (reset_block_info_stats (bi\<lparr>block_idx_out := (block_idx_out bi + 1) smod n_block d, block_num := num\<rparr>)))"

text \<open>
  Waiting for a block: \<open>full\<close> is the number of filled blocks read first; each element of the schedule
  is the result of one wait and the number of filled blocks read after it when it timed out. The
  wait has not ended when the schedule does.
\<close>

type_synonym free_waits = "int \<times> (hashpipe_rc \<times> int) list"

definition netbuf_status :: "int \<Rightarrow> int \<Rightarrow> string" where
  "netbuf_status full n = dec_int full @ ''/'' @ dec_int n"

fun wait_free_loop ::
  "('st, 'f) status_ops \<Rightarrow> string \<Rightarrow> int \<Rightarrow> (hashpipe_rc \<times> int) list \<Rightarrow> 'st \<Rightarrow> 'st cres" where
  "wait_free_loop api key n [] s = Inl Blocked"
| "wait_free_loop api key n ((rv, full) # ws) s =
     (if rv = HASHPIPE_OK then Inr s
      else if rv = HASHPIPE_TIMEOUT then
        wait_free_loop api key n ws (hputs api ''NETBUFST'' (netbuf_status full n) (hputs api key ''outblocked'' s))
      else Inl (Fatal ''error waiting for free databuf''))"

definition wait_for_block_free ::
  "('st, 'f) status_ops \<Rightarrow> string \<Rightarrow> free_waits \<Rightarrow> block_info \<Rightarrow> 'st outer_out \<Rightarrow> 'st outer_out cres" where
  "wait_for_block_free api key = (\<lambda>(full, ws) bi st.
     let netstat = or_else (hgets api (stat st) key 80) [];
         s = hputs api ''NETBUFST'' (netbuf_status full (n_block (dbout st))) (hputs api key ''waitfree'' (stat st)) in
     cbind (wait_free_loop api key (n_block (dbout st)) ws s) (\<lambda>s.
       let s = hputs api key netstat s in
       cbind (deref (block_info_header (dbout st) bi)) (\<lambda>h.
         Inr (st\<lparr>stat := s, dbout := update_header h (\<lambda>_. s) (dbout st)\<rparr>))))"

section \<open>Copying a packet\<close>

text \<open>\<open>None\<close> is a loop that does not end. \<open>bytes\<close> is signed; it is reduced by an unsigned number.\<close>

partial_function (option) copy_rows ::
  "nat \<Rightarrow> u64 \<Rightarrow> u64 \<Rightarrow> u8 list \<Rightarrow> u32 \<Rightarrow> nat \<Rightarrow> nat \<Rightarrow> u8 list \<Rightarrow> u8 list cres option" where
  "copy_rows nt istride ostride payload bytes src dst mem =
     (if 0 < sint bytes then
        (case memcpy_nt nt dst src istride payload mem of Inl e \<Rightarrow> Some (Inl e)
         | Inr mem' \<Rightarrow> copy_rows nt istride ostride payload (ucast (scast bytes - istride))
             (src + unat istride) (dst + unat ostride) mem')
      else Some (Inr mem))"

text \<open>Where the heap of a packet starts in the block, as an offset modulo the address space.\<close>

definition heap_start :: "block_info \<Rightarrow> mk_obs_info \<Rightarrow> mk_feng_spead_info \<Rightarrow> u64 \<Rightarrow> u64 \<Rightarrow> u64 cres" where
  "heap_start bi p_oi p_fesi istride ostride =
     cbind (mk_pktidx p_oi p_fesi) (\<lambda>pktidx.
     if bi_pktidx_per_block bi = 0 \<or> istride = 0 then Inl DivZero
     else let slot_idx = ucast (pktidx mod bi_pktidx_per_block bi) :: u32;
              block_chan = ucast (mk_block_chan p_oi p_fesi) :: u32 in
       Inr (scast slot_idx * istride + scast block_chan * ostride + (heap_offset p_fesi div istride) * ostride))"

definition copy_packet_data_to_databuf ::
  "nat \<Rightarrow> 'st hpguppi_input_databuf \<Rightarrow> block_info \<Rightarrow> mk_obs_info \<Rightarrow> mk_feng_spead_info \<Rightarrow> u8 list \<Rightarrow>
     'st hpguppi_input_databuf cres option" where
  "copy_packet_data_to_databuf nt d bi p_oi p_fesi payload =
     (case deref (block_info_data d bi) of Inl e \<Rightarrow> Some (Inl e)
      | Inr b \<Rightarrow>
        (case mk_ntime (of_nat BLOCK_DATA_SIZE) p_oi of Inl e \<Rightarrow> Some (Inl e)
         | Inr ntime \<Rightarrow>
           let istride = ucast (4 * hntime p_oi) :: u64; ostride = ucast (4 * ntime) :: u64 in
           (case heap_start bi p_oi p_fesi istride ostride of Inl e \<Rightarrow> Some (Inl e)
            | Inr dst \<Rightarrow>
              (case copy_rows nt istride ostride payload (ucast (payload_size p_fesi)) 0 (unat dst) (blk_data (blocks d ! b)) of
                 None \<Rightarrow> None
               | Some (Inl e) \<Rightarrow> Some (Inl e)
               | Some (Inr bytes) \<Rightarrow> Some (Inr (update_data b bytes d))))))"

section \<open>Starting and stopping\<close>

text \<open>
  The floating-point expressions of the thread. \<open>fp_lit\<close> is a literal; the others are named after
  what the expression computes, in the order of their occurrence.
\<close>

record 'f fp_ops =
  fp_lit :: "string \<Rightarrow> 'f"
  fp_bandwidth_nonzero :: "u32 \<Rightarrow> 'f \<Rightarrow> bool"
  fp_realtime_secs :: "u64 \<Rightarrow> u32 \<Rightarrow> 'f \<Rightarrow> 'f"
  fp_timespec :: "u64 \<Rightarrow> 'f \<Rightarrow> u64 \<times> u64"
  fp_is_zero :: "'f \<Rightarrow> bool"
  fp_tbin :: "'f \<Rightarrow> 'f"
  fp_obsbw :: "'f \<Rightarrow> u32 \<Rightarrow> u32 \<Rightarrow> 'f"
  fp_gbps :: "u64 \<Rightarrow> u64 \<Rightarrow> 'f"
  fp_pkps :: "u64 \<Rightarrow> u64 \<Rightarrow> 'f"
  fp_dwell_blocks :: "'f \<Rightarrow> 'f \<Rightarrow> u32 \<Rightarrow> u64"
  fp_netblkms :: "u64 \<Rightarrow> 'f"

definition start_time ::
  "('st, 'f) status_ops \<Rightarrow> 'f fp_ops \<Rightarrow> 'f time_ops \<Rightarrow> u64 \<Rightarrow> 'st \<Rightarrow> 'st" where
  "start_time api fp t pktidx s =
     (let s = hputu4 api ''STTVALID'' 1 s;
          hcl = or_else (hgetu8 api s ''HCLOCKS'') 1;
          fench = or_else (hgetu4 api s ''FENCHAN'') 1;
          chan_bw = or_else (hgetr8 api s ''CHAN_BW'') (fp_lit fp ''1.0'');
          synctime = or_else (hgetu8 api s ''SYNCTIME'') 0;
          secs = (if fp_bandwidth_nonzero fp fench chan_bw then fp_realtime_secs fp (pktidx * hcl) fench chan_bw
                  else fp_lit fp ''0.0'') in
      case get_mjd_from_timespec t (fp_timespec fp synctime secs) (0, 0, fp_lit fp ''0'') of (rc, imjd, smjd, offs) \<Rightarrow>
        hputr8 api ''STT_OFFS'' offs (hputu4 api ''STT_SMJD'' (word_of_int smjd)
          (hputu4 api ''STT_IMJD'' (word_of_int imjd) s)))"

definition check_start_stop ::
  "('st, 'f) status_ops \<Rightarrow> 'f fp_ops \<Rightarrow> 'f time_ops \<Rightarrow> u64 \<Rightarrow> 'st \<Rightarrow> run_states \<times> 'st" where
  "check_start_stop api fp t pktidx s =
     (let sttvalid = or_else (hgetu4 api s ''STTVALID'') 0;
          pktstart = or_else (hgetu8 api s ''PKTSTART'') 0;
          pktstop = or_else (hgetu8 api s ''PKTSTOP'') 0 in
      if pktstart \<le> pktidx \<and> pktidx < pktstop then
        let s = hputs api ''DAQSTATE'' ''RECORD'' s in
        (RECORD, if sttvalid \<noteq> 1 then start_time api fp t pktidx s else s)
      else
        let s = hputs api ''DAQSTATE'' ''LISTEN'' s in
        (LISTEN, if sttvalid \<noteq> 0 then hputu4 api ''STTVALID'' 0 s else s))"

section \<open>The state of the thread\<close>

text \<open>\<^verbatim>\<open>obs_info\<close> with the fields the thread uses, those of both structures.\<close>

record outer_obs_info = mk_obs_info +
  nchan :: u32
  obs_antids :: "u32 list"

definition obs_mk :: "outer_obs_info \<Rightarrow> mk_obs_info" where
  "obs_mk oi = \<lparr>fenchan = fenchan oi, nants = nants oi, nstrm = nstrm oi, hntime = hntime oi, hnchan = hnchan oi,
     hclocks = hclocks oi, schan = schan oi\<rparr>"

definition obs_ata :: "outer_obs_info \<Rightarrow> ata_obs_info" where
  "obs_ata oi = \<lparr>ata_nchan = nchan oi, ata_nants = nants oi, ata_schan = schan oi, antids = obs_antids oi\<rparr>"

record ('st, 'f) outer =
  out :: "'st outer_out"
  wblk :: "block_info list"
  obs :: outer_obs_info
  pktidx_per_block :: u32
  eff_block_size :: u32
  fesi :: mk_feng_spead_info
  status_seq_num :: u64
  start_seq_num :: u64
  stop_seq_num :: u64
  dwell_seconds :: 'f
  chan_bw :: 'f
  packet_count :: u64
  u64tmp :: u64
  ndrop_total :: u64
  nlate :: u64
  netgbps :: 'f
  netpkps :: 'f
  bits_net :: u64
  pkts_net :: u64
  ns_net :: u64
  physgbps :: 'f
  physpkps :: 'f
  bits_phys :: u64
  pkts_phys :: u64
  nstreams :: u32
  dest_ip :: string
  dest_ip_new :: string
  flows :: "(u32 \<times> (u32 \<times> u32) option) list"
  waiting :: bool
  block_idx_in :: int
  in_events :: "db_event list"
  fill_to_free_sum :: u64
  fill_to_free_block :: "u64 list"

text \<open>
  What the thread is given: the accessors of the status buffer, the floating-point expressions, the
  calendar, the width of a store, the validity test, the name of its status field, the configuration
  of the flows, the library functions used to parse \<^verbatim>\<open>DESTIP\<close>, and the number of slots of an input block
  with their size.
\<close>

record ('st, 'f) outer_env =
  env_api :: "('st, 'f) status_ops"
  env_fp :: "'f fp_ops"
  env_cal :: "'f time_ops"
  nt_size :: nat
  obs_valid :: "outer_obs_info \<Rightarrow> bool"
  status_key :: string
  max_flows :: u32
  env_port :: u32
  inet_aton :: "string \<Rightarrow> u32 option"
  strtoul0 :: "string \<Rightarrow> u64"
  flow_ok :: "u32 \<Rightarrow> bool"
  slots_per_block :: nat
  slot_size :: nat

definition set_stat :: "('st \<Rightarrow> 'st) \<Rightarrow> ('st, 'f) outer \<Rightarrow> ('st, 'f) outer" where
  "set_stat f st = st\<lparr>out := (out st)\<lparr>stat := f (stat (out st))\<rparr>\<rparr>"

section \<open>Initialisation\<close>

text \<open>The offsets of the header and of the payload in a packet, after the link layer headers.\<close>

definition PKT_OFFSET_ATA_VOLT_HEADER :: nat where [cconst]: "PKT_OFFSET_ATA_VOLT_HEADER = 14 + 20 + 8"
definition PKT_OFFSET_ATA_VOLT_PAYLOAD :: nat where [cconst]: "PKT_OFFSET_ATA_VOLT_PAYLOAD = PKT_OFFSET_ATA_VOLT_HEADER + 1 * 8"

definition ibvpktsz_ok :: "(nat \<Rightarrow> nat) \<Rightarrow> nat \<Rightarrow> bool" where
  "ibvpktsz_ok slot_offset alignment \<longleftrightarrow> \<not> (slot_offset PKT_OFFSET_ATA_VOLT_HEADER mod alignment \<noteq> 0 \<or>
     slot_offset PKT_OFFSET_ATA_VOLT_PAYLOAD mod alignment \<noteq> 0)"

text \<open>
  \<open>slot_offset\<close> is where the input buffer puts a byte of a packet in its slot, \<open>alignment\<close> is
  \<^verbatim>\<open>PKT_ALIGNMENT_SIZE\<close>; the calls that change the scheduling only report errors. \<open>key\<close> is the status
  field of the thread.
\<close>

definition outer_init ::
  "('st, 'f) status_ops \<Rightarrow> 'f fp_ops \<Rightarrow> string \<Rightarrow> (nat \<Rightarrow> nat) \<Rightarrow> nat \<Rightarrow> 'st \<Rightarrow> hashpipe_rc \<times> 'st" where
  "outer_init api fp key slot_offset alignment s =
     (if \<not> ibvpktsz_ok slot_offset alignment then (HASHPIPE_ERR_PARAM, s)
      else let blocsize = or_else (hgeti4 api s ''BLOCSIZE'') (of_nat BLOCK_DATA_SIZE);
               directio = or_else (hgeti4 api s ''DIRECTIO'') 1;
               nants0 = or_else (hgeti4 api s ''NANTS'') 1;
               nbits = or_else (hgeti4 api s ''NBITS'') 8;
               npol = or_else (hgeti4 api s ''NPOL'') 4;
               bw = or_else (hgetr8 api s ''CHAN_BW'') (fp_lit fp ''1.0'');
               obsnchan = or_else (hgeti4 api s ''OBSNCHAN'') 1;
               overlap = or_else (hgeti4 api s ''OVERLAP'') 0;
               obs_mode = or_else (hgets api s ''OBS_MODE'' 80) ''RAW'';
               s = (if nants0 = 0 then hputi4 api ''NANTS'' 1 s else s);
               nants1 = (if nants0 = 0 then 1 else nants0);
               bw = (if fp_is_zero fp bw then fp_lit fp ''900.0/4096.0'' else bw);
               tbin = fp_tbin fp bw;
               obsbw = fp_obsbw fp bw obsnchan nants1;
               s = hputs api ''DAQSTATE'' ''LISTEN'' s;
               s = hputi4 api ''BLOCSIZE'' blocsize s;
               s = hputi4 api ''DIRECTIO'' directio s;
               s = hputi4 api ''NBITS'' nbits s;
               s = hputi4 api ''NPOL'' npol s;
               s = hputr8 api ''OBSBW'' obsbw s;
               s = hputr8 api ''CHAN_BW'' bw s;
               s = hputi4 api ''OBSNCHAN'' obsnchan s;
               s = hputi4 api ''OVERLAP'' overlap s;
               s = hputs api ''PKTFMT'' ''ATAVOLT'' s;
               s = hputr8 api ''TBIN'' tbin s;
               s = hputs api ''OBS_MODE'' obs_mode s;
               s = hputi4 api ''NDROP'' 0 s;
               s = hputs api key ''init'' s in
           (HASHPIPE_OK, s))"

text \<open>The start of \<^verbatim>\<open>run\<close>: the fields read from the status buffer, or the thread ends for want of flows.\<close>

definition run_begin :: "('st, 'f) status_ops \<Rightarrow> string \<Rightarrow> 'st \<Rightarrow> (u32 \<times> u32) option \<times> 'st" where
  "run_begin api key s =
     (let s = hputs api key ''listen'' s;
          flows = or_else (hgetu4 api s ''MAXFLOWS'') 0;
          port = or_else (hgetu4 api s ''BINDPORT'') 4016;
          s = hputu4 api ''BINDPORT'' port s in
      if flows = 0 then (None, s) else (Some (flows, port), s))"

text \<open>The working blocks get the first blocks of the buffer; the other fields of \<open>bis\<close> are not set.\<close>

fun init_working_blocks ::
  "('st, 'f) status_ops \<Rightarrow> string \<Rightarrow> nat list \<Rightarrow> free_waits list \<Rightarrow> block_info list \<Rightarrow> 'st outer_out \<Rightarrow>
     (block_info list \<times> 'st outer_out) cres" where
  "init_working_blocks api key [] ws bis st = Inr (bis, st)"
| "init_working_blocks api key (i # is) [] bis st = Inl Blocked"
| "init_working_blocks api key (i # is) (w # ws) bis st =
     (let bi = init_block_info (bis ! i) (int i) (int i) 0 in
      cbind (wait_for_block_free api key w bi st) (init_working_blocks api key is ws (bis[i := bi])))"

text \<open>The observation parameters read before the main loop.\<close>

definition read_obs_info :: "('st, 'f) outer_env \<Rightarrow> ('st, 'f) outer \<Rightarrow> ('st, 'f) outer cres" where
  "read_obs_info env st =
     (let a = env_api env; s = stat (out st);
          oi = (obs st)\<lparr>nchan := or_else (hgetu4 a s ''FREQCHAN'') (nchan (obs st))\<rparr>;
          oi = oi\<lparr>nants := or_else (hgetu4 a s ''NANTS'') (nants oi)\<rparr>;
          oi = oi\<lparr>schan := or_else (hgeti4 a s ''SCHAN'') (schan oi)\<rparr> in
      cbind (if obs_valid env oi then
          cbind (ata_pktidx_per_block (of_nat BLOCK_DATA_SIZE) (obs_ata oi)) (\<lambda>p.
          cbind (ata_block_size (of_nat BLOCK_DATA_SIZE) (obs_ata oi)) (\<lambda>b.
            Inr (p, b, hputs a ''OBSINFO'' ''VALID'' s)))
        else Inr (pktidx_per_block st, eff_block_size st, hputs a ''OBSINFO'' ''INVALID'' s)) (\<lambda>(p, b, s).
      let s = hputu4 a ''FREQCHAN'' (fenchan oi) s;
          s = hputu4 a ''NANTS'' (nants oi) s;
          s = hputi4 a ''SCHAN'' (schan oi) s;
          s = hputu4 a ''PIPERBLK'' p s;
          s = hputi4 a ''BLOCSIZE'' b s in
      Inr (set_stat (\<lambda>_. s) (st\<lparr>obs := oi, pktidx_per_block := p, eff_block_size := b\<rparr>))))"

section \<open>Waiting for packets\<close>

text \<open>
  Once per second the thread publishes its counters and reads the observation parameters again.
  \<open>timestr\<close> is the time as text, \<open>ns\<close> the time since the last update (\<open>None\<close> on the first one).
\<close>

definition update_phys :: "'f fp_ops \<Rightarrow> u64 option \<Rightarrow> ('st, 'f) outer \<Rightarrow> ('st, 'f) outer" where
  "update_phys f ns st = (case ns of None \<Rightarrow> st
     | Some n \<Rightarrow> st\<lparr>physgbps := fp_gbps f (bits_phys st) n, physpkps := fp_pkps f (pkts_phys st) n,
         bits_phys := 0, pkts_phys := 0\<rparr>)"

definition reread_obs_info :: "('st, 'f) outer_env \<Rightarrow> ('st, 'f) outer \<Rightarrow> ('st, 'f) outer cres" where
  "reread_obs_info env st =
     (let a = env_api env; s = stat (out st); oi0 = obs st;
          oi = oi0\<lparr>fenchan := or_else (hgetu4 a s ''FENCHAN'') (fenchan oi0),
            nants := or_else (hgetu4 a s ''NANTS'') (nants oi0),
            nstrm := or_else (hgetu4 a s ''NSTRM'') (nstrm oi0),
            hntime := or_else (hgetu4 a s ''HNTIME'') (hntime oi0),
            hnchan := or_else (hgetu4 a s ''HNCHAN'') (hnchan oi0),
            hclocks := or_else (hgetu8 a s ''HCLOCKS'') (hclocks oi0),
            schan := or_else (hgeti4 a s ''SCHAN'') (schan oi0)\<rparr> in
      if obs_valid env oi then
        cbind (mk_pktidx_per_block (of_nat BLOCK_DATA_SIZE) (obs_mk oi)) (\<lambda>p.
        cbind (mk_block_size (of_nat BLOCK_DATA_SIZE) (obs_mk oi)) (\<lambda>b.
          let s = hputu4 a ''OBSNCHAN'' (mk_obsnchan (obs_mk oi)) s;
              s = hputu4 a ''PIPERBLK'' p s;
              s = hputi4 a ''BLOCSIZE'' b s;
              s = hputs a ''OBSINFO'' ''VALID'' s in
          Inr (set_stat (\<lambda>_. s) (st\<lparr>obs := oi, pktidx_per_block := p, eff_block_size := b\<rparr>))))
      else Inr (set_stat (hputs a ''OBSINFO'' ''INVALID'') (st\<lparr>obs := oi\<rparr>)))"

definition second_update :: "('st, 'f) outer_env \<Rightarrow> string \<Rightarrow> u64 option \<Rightarrow> ('st, 'f) outer \<Rightarrow> ('st, 'f) outer cres" where
  "second_update env timestr ns st =
     (let a = env_api env;
          st = update_phys (env_fp env) ns st;
          st = set_stat (hputs a ''DAQPULSE'' timestr) st;
          total = or_else (hgetu8 a (stat (out st)) ''NPKTS'') (u64tmp st) + packet_count st;
          st = st\<lparr>u64tmp := total, packet_count := 0\<rparr>;
          st = set_stat (\<lambda>s. hputr4 a ''PHYSPKPS'' (physpkps st) (hputr4 a ''PHYSGBPS'' (physgbps st) (hputu8 a ''NPKTS'' total s))) st in
      cbind (reread_obs_info env st) (\<lambda>st.
        Inr (st\<lparr>dest_ip_new := or_else (hgets a (stat (out st)) ''DESTIP'' 80) (dest_ip_new st)\<rparr>)))"

text \<open>Flows are removed (\<open>None\<close>) or added with address and port; adding stops at the first failure.\<close>

fun add_flows :: "('st, 'f) outer_env \<Rightarrow> u32 \<Rightarrow> u32 list \<Rightarrow> (u32 \<times> (u32 \<times> u32) option) list" where
  "add_flows env addr [] = []"
| "add_flows env addr (i # is) =
     (i, Some (addr + i, env_port env)) # (if flow_ok env i then add_flows env addr is else [])"

definition stream_indices :: "u32 \<Rightarrow> u32 list" where
  "stream_indices n = map of_nat [0..<unat n]"

text \<open>
  \<^verbatim>\<open>inet_aton\<close> gives the address in host order here. The new string stays cut at the plus sign when
  the address does not parse.
\<close>

definition switch_streams :: "('st, 'f) outer_env \<Rightarrow> ('st, 'f) outer \<Rightarrow> ('st, 'f) outer" where
  "switch_streams env st =
     (let new = dest_ip_new st;
          ip = takeWhile (\<lambda>c. c \<noteq> CHR ''+'') new;
          extra = (if CHR ''+'' \<in> set new then Some (tl (dropWhile (\<lambda>c. c \<noteq> CHR ''+'') new)) else None) in
      case inet_aton env ip of None \<Rightarrow> st\<lparr>dest_ip_new := ip\<rparr>
      | Some addr \<Rightarrow>
        let st = (if addr = 0
            then st\<lparr>flows := flows st @ map (\<lambda>i. (i, None)) (stream_indices (nstreams st)), nstreams := 0\<rparr>
            else let n = (case extra of None \<Rightarrow> 1 | Some t \<Rightarrow> ucast (strtoul0 env t) + 1);
                     n = (if n > max_flows env then max_flows env else n) in
              st\<lparr>nstreams := n, flows := flows st @ add_flows env addr (stream_indices n)\<rparr>) in
        st\<lparr>dest_ip := new\<rparr>)"

definition destip_change :: "('st, 'f) outer_env \<Rightarrow> ('st, 'f) outer \<Rightarrow> ('st, 'f) outer" where
  "destip_change env st =
     (if dest_ip st = dest_ip_new st then st
      else let st = (if nstreams st > 0 \<and> dest_ip_new st \<noteq> ''0.0.0.0'' then st else switch_streams env st) in
        set_stat (\<lambda>s. hputu4 (env_api env) ''NSTRM'' (nstreams st) (hputs (env_api env) ''DESTIP'' (dest_ip st) s)) st)"

text \<open>
  One iteration of the wait: \<open>ns\<close> is the processing time added (0 on the first iteration), \<open>filled\<close>
  says whether the input block is filled, \<open>sec\<close> is given when a new second has begun; \<^verbatim>\<open>run_threads()\<close>
  is called up to three times: for the status field (\<open>run1\<close>), for the loop (\<open>run2\<close>) and after it (\<open>run3\<close>).
\<close>

type_synonym wait_result = "u64 \<times> bool \<times> (string \<times> u64 option) option \<times> bool \<times> bool \<times> bool"

definition wait_iteration :: "('st, 'f) outer_env \<Rightarrow> wait_result \<Rightarrow> ('st, 'f) outer \<Rightarrow> ('st, 'f) outer cres" where
  "wait_iteration env = (\<lambda>(ns, filled, sec, run1, run2, run3) st.
     let st = st\<lparr>ns_net := ns_net st + ns\<rparr> in
     if \<not> filled \<and> sec = None then Inr st
     else cbind (case sec of None \<Rightarrow> Inr st
         | Some (timestr, phys) \<Rightarrow> cbind (second_update env timestr phys st) (\<lambda>st. Inr (destip_change env st))) (\<lambda>st.
       if \<not> filled \<and> run1 \<and> \<not> waiting st
       then Inr ((set_stat (hputs (env_api env) (status_key env) ''waiting'') st)\<lparr>waiting := True\<rparr>)
       else Inr st))"

text \<open>The result says whether a block was filled and whether the thread goes on.\<close>

fun wait_for_packets ::
  "('st, 'f) outer_env \<Rightarrow> wait_result list \<Rightarrow> ('st, 'f) outer \<Rightarrow> (bool \<times> bool \<times> ('st, 'f) outer) cres" where
  "wait_for_packets env [] st = Inl Blocked"
| "wait_for_packets env ((ns, filled, sec, run1, run2, run3) # ws) st =
     cbind (wait_iteration env (ns, filled, sec, run1, run2, run3) st) (\<lambda>st.
       if \<not> filled \<and> run2 then wait_for_packets env ws st else Inr (filled, run3, st))"

section \<open>Processing packets\<close>

text \<open>
  At the first packet of a block the thread publishes the rates, rounds \<^verbatim>\<open>PKTSTART\<close> down to a block
  boundary and computes \<^verbatim>\<open>PKTSTOP\<close> from \<^verbatim>\<open>DWELL\<close>.
\<close>

definition update_net :: "'f fp_ops \<Rightarrow> ('st, 'f) outer \<Rightarrow> ('st, 'f) outer" where
  "update_net f st = (if ns_net st \<noteq> 0
     then st\<lparr>netgbps := fp_gbps f (bits_net st) (ns_net st), netpkps := fp_pkps f (pkts_net st) (ns_net st),
       bits_net := 0, pkts_net := 0, ns_net := 0\<rparr> else st)"

definition publish_counters :: "('st, 'f) status_ops \<Rightarrow> ('st, 'f) outer \<Rightarrow> ('st, 'f) outer" where
  "publish_counters a st =
     (let nd = or_else (hgetu8 a (stat (out st)) ''NDROP'') (u64tmp st) + ndrop_total st;
          st = set_stat (hputu8 a ''NDROP'' nd) (st\<lparr>u64tmp := nd, ndrop_total := 0\<rparr>);
          nl = or_else (hgetu8 a (stat (out st)) ''NLATE'') (u64tmp st) + nlate st in
      set_stat (hputu8 a ''NLATE'' nl) (st\<lparr>u64tmp := nl, nlate := 0\<rparr>))"

definition block_status ::
  "('st, 'f) outer_env \<Rightarrow> u64 \<Rightarrow> ('st, 'f) outer \<Rightarrow> ('st \<times> u64 \<times> u64 \<times> 'f \<times> 'f) cres" where
  "block_status env seq st =
     (let a = env_api env; f = env_fp env; ppb = ucast (pktidx_per_block st) :: u64;
          s = hputi4 a ''BLOCSIZE'' (eff_block_size st) (hputi8 a ''PKTIDX'' seq (stat (out st)));
          start0 = or_else (hgetu8 a s ''PKTSTART'') (start_seq_num st);
          start = start0 - start0 mod ppb;
          s = hputu8 a ''PKTSTART'' start s;
          dwell = or_else (hgetr8 a s ''DWELL'') (dwell_seconds st);
          s = hputr8 a ''DWELL'' dwell s;
          s = hputr4 a ''NETPKPS'' (netpkps st) (hputr4 a ''NETGBPS'' (netgbps st) s);
          bw0 = or_else (hgetr8 a s ''CHAN_BW'') (chan_bw st);
          bw = (if fp_is_zero f bw0 then fp_lit f ''1.0'' else bw0);
          tbin = fp_tbin f bw;
          s = hputr8 a ''TBIN'' tbin s in
      cbind (mk_ntime (of_nat BLOCK_DATA_SIZE) (obs_mk (obs st))) (\<lambda>ntime.
        let stop = start + ppb * fp_dwell_blocks f dwell tbin ntime in
        Inr (hputi8 a ''PKTSTOP'' stop s, start, stop, dwell, bw)))"

definition block_status_update :: "('st, 'f) outer_env \<Rightarrow> u64 \<Rightarrow> ('st, 'f) outer \<Rightarrow> ('st, 'f) outer cres" where
  "block_status_update env seq st =
     (if seq mod ucast (pktidx_per_block st) = 0 \<and> seq \<noteq> status_seq_num st then
        let st = update_net (env_fp env) (st\<lparr>status_seq_num := seq\<rparr>) in
        cbind (block_status env seq st) (\<lambda>(s, start, stop, dwell, bw).
          Inr (publish_counters (env_api env) (set_stat (\<lambda>_. s)
            (st\<lparr>start_seq_num := start, stop_seq_num := stop, dwell_seconds := dwell, chan_bw := bw\<rparr>))))
      else Inr st)"

definition start_stop_at :: "('st, 'f) outer_env \<Rightarrow> int \<Rightarrow> ('st, 'f) outer \<Rightarrow> ('st, 'f) outer" where
  "start_stop_at env num st =
     set_stat (\<lambda>s. snd (check_start_stop (env_api env) (env_fp env) (env_cal env)
       (word_of_int num * ucast (pktidx_per_block st)) s)) st"

text \<open>The number of packets of a block: a signed number is divided by an unsigned one.\<close>

definition block_pkts :: "('st, 'f) outer \<Rightarrow> u64" where
  "block_pkts st = scast (eff_block_size st) div payload_size (fesi st)"

definition advance_blocks :: "('st, 'f) outer_env \<Rightarrow> free_waits \<Rightarrow> int \<Rightarrow> ('st, 'f) outer \<Rightarrow> ('st, 'f) outer cres" where
  "advance_blocks env fw blk st =
     cbind (finalize_block (env_api env) (wblk st ! 0) (out st)) (\<lambda>(w0, o1).
       let st = st\<lparr>out := o1, ndrop_total := ndrop_total st + ucast (ndrop w0), wblk := (wblk st)[0 := wblk st ! 1]\<rparr>;
           st = start_stop_at env (block_num (wblk st ! 0)) st in
       cbind (increment_block (dbout (out st)) (wblk st ! 1) blk) (\<lambda>w1.
       cbind (wait_for_block_free (env_api env) (status_key env) fw w1 (out st)) (\<lambda>o2.
         Inr (st\<lparr>out := o2, wblk := (wblk st)[1 := w1]\<rparr>))))"

definition reset_blocks :: "('st, 'f) outer_env \<Rightarrow> int \<Rightarrow> ('st, 'f) outer \<Rightarrow> ('st, 'f) outer" where
  "reset_blocks env blk st =
     (let st = st\<lparr>wblk := [init_block_info (wblk st ! 0) (-1) (blk + 0 + 1) (block_pkts st),
                 init_block_info (wblk st ! 1) (-1) (blk + 1 + 1) (block_pkts st)]\<rparr> in
      start_stop_at env (block_num (wblk st ! 0)) st)"

definition manage_blocks :: "('st, 'f) outer_env \<Rightarrow> free_waits \<Rightarrow> int \<Rightarrow> ('st, 'f) outer \<Rightarrow> ('st, 'f) outer cres" where
  "manage_blocks env fw blk st =
     (if blk = block_num (wblk st ! 1) + 1 then advance_blocks env fw blk st
      else if blk < block_num (wblk st ! 0) - 1 \<or> blk > block_num (wblk st ! 1) + 1 then Inr (reset_blocks env blk st)
      else if blk = block_num (wblk st ! 0) - 1 then Inr (st\<lparr>nlate := nlate st + 1\<rparr>)
      else Inr st)"

text \<open>The index of the working block of a packet, cut to a signed 32-bit number.\<close>

definition wblk_index :: "int \<Rightarrow> ('st, 'f) outer \<Rightarrow> int" where
  "wblk_index blk st = sint (word_of_int (blk - block_num (wblk st ! 0)) :: u32)"

definition place_in_block :: "('st, 'f) outer_env \<Rightarrow> int \<Rightarrow> u8 list \<Rightarrow> ('st, 'f) outer \<Rightarrow> ('st, 'f) outer cres option" where
  "place_in_block env blk payload st =
     (let wblk_idx = wblk_index blk st in
      if 0 \<le> wblk_idx \<and> wblk_idx < 2 then
        let i = nat wblk_idx;
            bi = (wblk st ! i)\<lparr>pkts_per_block := block_pkts st, bi_pktidx_per_block := ucast (pktidx_per_block st)\<rparr> in
        (case copy_packet_data_to_databuf (nt_size env) (dbout (out st)) bi (obs_mk (obs st)) (fesi st) payload of
           None \<Rightarrow> None
         | Some (Inl e) \<Rightarrow> Some (Inl e)
         | Some (Inr d) \<Rightarrow> Some (Inr (st\<lparr>out := (out st)\<lparr>dbout := d\<rparr>,
             wblk := (wblk st)[i := bi\<lparr>npacket := npacket bi + 1\<rparr>]\<rparr>)))
      else Some (Inr st))"

definition count_packet :: "('st, 'f) outer \<Rightarrow> ('st, 'f) outer" where
  "count_packet st = st\<lparr>packet_count := packet_count st + 1, pkts_net := pkts_net st + 1, pkts_phys := pkts_phys st + 1,
     bits_net := bits_net st + 8 * payload_size (fesi st), bits_phys := bits_phys st + 8 * payload_size (fesi st)\<rparr>"

text \<open>
  A packet: the 12 words of its header, its payload, and how the wait for a free block goes if it
  causes one. The metadata of the previous packet stays where an item is missing.
\<close>

type_synonym outer_packet = "u8 list \<times> u8 list \<times> free_waits"

definition process_packet :: "('st, 'f) outer_env \<Rightarrow> outer_packet \<Rightarrow> ('st, 'f) outer \<Rightarrow> ('st, 'f) outer cres option" where
  "process_packet env = (\<lambda>(spdhdr, payload, fw) st.
     (case mk_parse_mkfeng_ibv_spead_packet spdhdr (fesi st) of Inl e \<Rightarrow> Some (Inl e)
      | Inr f \<Rightarrow>
        let st = st\<lparr>fesi := f\<rparr> in
        if payload_size f \<noteq> 1024 then Some (Inr st)
        else if feng_id f \<ge> ucast (nants (obs st)) then Some (Inr st)
        else let st = count_packet st in
          (case mk_pktidx (obs_mk (obs st)) f of Inl e \<Rightarrow> Some (Inl e)
           | Inr seq \<Rightarrow>
             if pktidx_per_block st = 0 then Some (Inl DivZero)
             else let blk = sint (seq div ucast (pktidx_per_block st)) in
               (case cbind (block_status_update env seq st) (manage_blocks env fw blk) of Inl e \<Rightarrow> Some (Inl e)
                | Inr st \<Rightarrow> place_in_block env blk payload st))))"

text \<open>
  The loop over the slots of an input block: \<open>p\<close> is where the slot starts in the block's data, each
  element of the list is how the wait goes that the packet of a slot may cause.
\<close>

fun process_slots ::
  "('st, 'f) outer_env \<Rightarrow> u8 list \<Rightarrow> nat \<Rightarrow> free_waits list \<Rightarrow> ('st, 'f) outer \<Rightarrow> ('st, 'f) outer cres option" where
  "process_slots env data p [] st = Some (Inr st)"
| "process_slots env data p (fw # fws) st =
     (case mk_ibv_spead_pkt p data of Inl e \<Rightarrow> Some (Inl e)
      | Inr (spdhdr, payload) \<Rightarrow>
        (case process_packet env (spdhdr, payload, fw) st of None \<Rightarrow> None
         | Some (Inl e) \<Rightarrow> Some (Inl e)
         | Some (Inr st') \<Rightarrow> process_slots env data (p + slot_size env) fws st'))"

section \<open>The main loop\<close>

definition free_input :: "('st, 'f) outer \<Rightarrow> ('st, 'f) outer" where
  "free_input st = st\<lparr>in_events := in_events st @ [SetFree (block_idx_in st)]\<rparr>"

text \<open>\<open>n_in\<close> is the number of blocks of the input buffer.\<close>

definition next_input :: "int \<Rightarrow> ('st, 'f) outer \<Rightarrow> ('st, 'f) outer" where
  "next_input n_in st = st\<lparr>block_idx_in := (block_idx_in st + 1) smod n_in\<rparr>"

definition skip_block :: "('st, 'f) outer_env \<Rightarrow> int \<Rightarrow> ('st, 'f) outer \<Rightarrow> ('st, 'f) outer" where
  "skip_block env n_in st =
     next_input n_in (free_input ((set_stat (hputs (env_api env) (status_key env) ''obsinfo'') st)\<lparr>waiting := False\<rparr>))"

definition start_receiving :: "('st, 'f) outer_env \<Rightarrow> ('st, 'f) outer \<Rightarrow> ('st, 'f) outer" where
  "start_receiving env st = (if waiting st
     then (set_stat (hputs (env_api env) (status_key env) ''receiving'') st)\<lparr>waiting := False\<rparr> else st)"

text \<open>\<open>ns\<close> is the time from the filling of the input block to its release.\<close>

definition finish_block :: "('st, 'f) outer_env \<Rightarrow> int \<Rightarrow> u64 \<Rightarrow> ('st, 'f) outer \<Rightarrow> ('st, 'f) outer" where
  "finish_block env n_in ns st =
     (let st = free_input st; i = nat (block_idx_in st);
          st = st\<lparr>fill_to_free_sum := fill_to_free_sum st + (ns - fill_to_free_block st ! i),
            fill_to_free_block := (fill_to_free_block st)[i := ns]\<rparr>;
          st = (if block_idx_in st = int N_INPUT_BLOCKS - 1
            then set_stat (hputr8 (env_api env) ''NETBLKMS'' (fp_netblkms (env_fp env) (fill_to_free_sum st))) st else st) in
      next_input n_in st)"

text \<open>
  One pass of the main loop; the result says whether the thread goes on. It is given the waits for
  the input block, the data of that block, how the waits go that the packet of each slot may cause,
  and the time the block took.
\<close>

type_synonym outer_input = "wait_result list \<times> u8 list \<times> (nat \<Rightarrow> free_waits) \<times> u64"

definition outer_pass ::
  "('st, 'f) outer_env \<Rightarrow> int \<Rightarrow> outer_input \<Rightarrow> ('st, 'f) outer \<Rightarrow> (bool \<times> ('st, 'f) outer) cres option" where
  "outer_pass env n_in = (\<lambda>(ws, data, fws, ns) st.
     (case wait_for_packets env ws st of Inl e \<Rightarrow> Some (Inl e)
      | Inr (filled, running, st) \<Rightarrow>
        if \<not> running then Some (Inr (False, if filled then free_input st else st))
        else if \<not> obs_valid env (obs st) then Some (Inr (True, skip_block env n_in st))
        else (case process_slots env data 0 (map fws [0..<slots_per_block env]) (start_receiving env st) of None \<Rightarrow> None
          | Some (Inl e) \<Rightarrow> Some (Inl e)
          | Some (Inr st) \<Rightarrow> Some (Inr (True, finish_block env n_in ns st)))))"

fun outer_main ::
  "('st, 'f) outer_env \<Rightarrow> int \<Rightarrow> (bool \<times> outer_input) list \<Rightarrow> ('st, 'f) outer \<Rightarrow> ('st, 'f) outer cres option" where
  "outer_main env n_in [] st = Some (Inl Blocked)"
| "outer_main env n_in ((running, inp) # sched) st =
     (if \<not> running then Some (Inr st)
      else (case outer_pass env n_in inp st of None \<Rightarrow> None
        | Some (Inl e) \<Rightarrow> Some (Inl e)
        | Some (Inr (go, st')) \<Rightarrow> if go then outer_main env n_in sched st' else Some (Inr st')))"

text \<open>
  The variables of \<^verbatim>\<open>run\<close> at its start, with the first \<^verbatim>\<open>N_INPUT_BLOCKS\<close> blocks of the output buffer, the size of
  the array in the structure, set to zero (\<open>hdr0\<close> is the header of zeros). \<open>wblk0\<close>, \<open>eff0\<close>, \<open>seq0\<close> and \<open>n0\<close> are what the variables without an initial value hold;
  \<open>oi0\<close> is the observation information before \<^verbatim>\<open>ata_obs_info_init\<close>.
\<close>

definition clear_blocks :: "'st \<Rightarrow> 'st hpguppi_input_databuf \<Rightarrow> 'st hpguppi_input_databuf" where
  "clear_blocks hdr0 d = d\<lparr>blocks := map (\<lambda>b. \<lparr>blk_hdr = hdr0, blk_data = replicate BLOCK_DATA_SIZE 0\<rparr>)
     (take N_INPUT_BLOCKS (blocks d)) @ drop N_INPUT_BLOCKS (blocks d)\<rparr>"

definition init_obs :: "outer_obs_info \<Rightarrow> outer_obs_info" where
  "init_obs oi = (let info = snd (ata_obs_info_init (obs_ata oi)) in
     oi\<lparr>nchan := ata_nchan info, nants := ata_nants info, schan := ata_schan info, obs_antids := antids info\<rparr>)"

definition outer_locals ::
  "'f fp_ops \<Rightarrow> block_info list \<Rightarrow> u32 \<Rightarrow> u64 \<Rightarrow> u32 \<Rightarrow> outer_obs_info \<Rightarrow> 'st outer_out \<Rightarrow> ('st, 'f) outer" where
  "outer_locals f wblk0 eff0 seq0 n0 oi0 o1 = \<lparr>out = o1, wblk = wblk0, obs = init_obs oi0, pktidx_per_block = 0, eff_block_size = eff0,
     fesi = \<lparr>heap_offset = 0, payload_size = 0, timestamp = 0, feng_id = 0, feng_chan = 0\<rparr>,
     status_seq_num = seq0, start_seq_num = 0, stop_seq_num = 0, dwell_seconds = fp_lit f ''300.0'', chan_bw = fp_lit f ''1.0'',
     packet_count = 0, u64tmp = 0, ndrop_total = 0, nlate = 0, netgbps = fp_lit f ''0.0'', netpkps = fp_lit f ''0.0'',
     bits_net = 0, pkts_net = 0, ns_net = 0, physgbps = fp_lit f ''0.0'', physpkps = fp_lit f ''0.0'', bits_phys = 0, pkts_phys = 0,
     nstreams = n0, dest_ip = [], dest_ip_new = [], flows = [], waiting = False, block_idx_in = 0, in_events = [],
     fill_to_free_sum = 0, fill_to_free_block = replicate N_INPUT_BLOCKS 0\<rparr>"

text \<open>
  \<^verbatim>\<open>run\<close> after its start: the working blocks, the observation parameters, the main loop. The
  initial state has the variables as they are declared; what is not initialised is arbitrary.
\<close>

definition outer_run ::
  "('st, 'f) outer_env \<Rightarrow> int \<Rightarrow> free_waits list \<Rightarrow> (bool \<times> outer_input) list \<Rightarrow> ('st, 'f) outer \<Rightarrow> ('st, 'f) outer cres option" where
  "outer_run env n_in fws sched st =
     (case cbind (init_working_blocks (env_api env) (status_key env) [0..<VOLT_OUTER_HASHPIPE_BLOCKS_AT_A_TIME] fws (wblk st) (out st))
         (\<lambda>(bis, o1). read_obs_info env (st\<lparr>wblk := bis, out := o1\<rparr>)) of
        Inl e \<Rightarrow> Some (Inl e)
      | Inr st \<Rightarrow> outer_main env n_in sched st)"

text \<open>
  The whole of \<^verbatim>\<open>run\<close>; the flows and the port of the environment are those the thread has read.
\<close>

definition outer_thread ::
  "('st, 'f) outer_env \<Rightarrow> int \<Rightarrow> 'st \<Rightarrow> block_info list \<Rightarrow> u32 \<Rightarrow> u64 \<Rightarrow> u32 \<Rightarrow> outer_obs_info \<Rightarrow> free_waits list \<Rightarrow>
     (bool \<times> outer_input) list \<Rightarrow> 'st outer_out \<Rightarrow> ('st, 'f) outer cres option" where
  "outer_thread env n_in hdr0 wblk0 eff0 seq0 n0 oi0 fws sched o0 =
     (case run_begin (env_api env) (status_key env) (stat o0) of
        (None, s) \<Rightarrow> Some (Inl (Fatal ''MAXFLOWS not found!''))
      | (Some (mf, prt), s) \<Rightarrow>
        outer_run (env\<lparr>max_flows := mf, env_port := prt\<rparr>) n_in fws sched
          (outer_locals (env_fp env) wblk0 eff0 seq0 n0 oi0 (o0\<lparr>stat := s, dbout := clear_blocks hdr0 (dbout o0)\<rparr>)))"

end
