(* ===== verification/Outer_Blocks.thy ===== *)
theory Outer_Blocks
  imports Outer_Thread
begin

text \<open>
  Properties of the outer thread: the working blocks stay a window of two consecutive blocks that
  moves through the ring of output blocks, what a packet does by its block number, where the data
  of a packet goes, and when recording starts and stops.
\<close>

section \<open>What does not touch the blocks\<close>

definition same_ring :: "('st, 'f) outer \<Rightarrow> ('st, 'f) outer \<Rightarrow> bool" where
  "same_ring st st' \<longleftrightarrow> wblk st' = wblk st \<and> dbout (out st') = dbout (out st) \<and> events (out st') = events (out st)"

lemma same_ring_refl [simp]: "same_ring st st"
  by (simp add: same_ring_def)

lemma same_ring_trans: "same_ring a b \<Longrightarrow> same_ring b c \<Longrightarrow> same_ring a c"
  by (simp add: same_ring_def)

lemma same_ring_set_stat [simp]: "same_ring a (set_stat f st) \<longleftrightarrow> same_ring a st"
  by (simp add: same_ring_def set_stat_def)

lemma same_ring_fields [simp]:
  "same_ring a (st\<lparr>fesi := v1\<rparr>) \<longleftrightarrow> same_ring a st" "same_ring a (st\<lparr>u64tmp := v2\<rparr>) \<longleftrightarrow> same_ring a st"
  "same_ring a (st\<lparr>packet_count := v3\<rparr>) \<longleftrightarrow> same_ring a st" "same_ring a (st\<lparr>nlate := v4\<rparr>) \<longleftrightarrow> same_ring a st"
  "same_ring a (st\<lparr>ndrop_total := v5\<rparr>) \<longleftrightarrow> same_ring a st" "same_ring a (st\<lparr>obs := v6\<rparr>) \<longleftrightarrow> same_ring a st"
  "same_ring a (st\<lparr>waiting := v7\<rparr>) \<longleftrightarrow> same_ring a st" "same_ring a (st\<lparr>ns_net := v8\<rparr>) \<longleftrightarrow> same_ring a st"
  "same_ring a (st\<lparr>dest_ip_new := v9\<rparr>) \<longleftrightarrow> same_ring a st"
  by (simp_all add: same_ring_def)

lemma reread_obs_info_ring: "reread_obs_info env st = Inr st' \<Longrightarrow> same_ring st st'"
  by (auto simp: reread_obs_info_def Let_def cres_simps same_ring_def set_stat_def split: if_splits)

lemma second_update_ring: "second_update env ts ns st = Inr st' \<Longrightarrow> same_ring st st'"
  by (auto simp: second_update_def update_phys_def Let_def cres_simps same_ring_def set_stat_def
      dest!: reread_obs_info_ring split: option.splits)

lemma destip_change_ring: "same_ring st (destip_change env st)"
  by (auto simp: destip_change_def switch_streams_def Let_def same_ring_def set_stat_def split: option.splits)

lemma wait_iteration_ring:
  assumes "wait_iteration env w st = Inr st'"
  shows "same_ring st st'"
proof -
  obtain ns filled sec run1 run2 run3 where w: "w = (ns, filled, sec, run1, run2, run3)" by (cases w)
  let ?st = "st\<lparr>ns_net := ns_net st + ns\<rparr>"
  have "\<exists>s. (case sec of None \<Rightarrow> Inr ?st
      | Some (t, p) \<Rightarrow> cbind (second_update env t p ?st) (\<lambda>st. Inr (destip_change env st))) = Inr s \<and> same_ring s st' \<or> st' = ?st"
    using assms by (auto simp: w wait_iteration_def Let_def cres_simps split: if_splits)
  moreover have "same_ring ?st s" if "(case sec of None \<Rightarrow> Inr ?st
      | Some (t, p) \<Rightarrow> cbind (second_update env t p ?st) (\<lambda>st. Inr (destip_change env st))) = Inr s" for s
    using that by (auto simp: cres_simps split: option.splits prod.splits
        dest!: second_update_ring intro: same_ring_trans destip_change_ring)
  ultimately show ?thesis by (auto simp: same_ring_def)
qed

lemma wait_for_packets_ring: "wait_for_packets env ws st = Inr (fl, rn, st') \<Longrightarrow> same_ring st st'"
  by (induction env ws st rule: wait_for_packets.induct)
    (auto simp: cres_simps split: if_splits dest!: wait_iteration_ring intro: same_ring_trans)

lemma block_status_update_ring: "block_status_update env seq st = Inr st' \<Longrightarrow> same_ring st st'"
  by (auto simp: block_status_update_def update_net_def publish_counters_def Let_def cres_simps same_ring_def set_stat_def
      split: if_splits)

section \<open>The window\<close>

text \<open>
  After \<open>m\<close> blocks were handed on, the working blocks are the blocks \<open>m\<close> and \<open>m + 1\<close> of the ring of
  \<open>n\<close> blocks, and their absolute numbers are consecutive.
\<close>

definition window :: "int \<Rightarrow> nat \<Rightarrow> ('st, 'f) outer \<Rightarrow> bool" where
  "window n m st \<longleftrightarrow> 0 < n \<and> n_block (dbout (out st)) = n \<and> length (wblk st) = 2 \<and>
     block_idx_out (wblk st ! 0) = int m mod n \<and> block_idx_out (wblk st ! 1) = (int m + 1) mod n \<and>
     block_num (wblk st ! 1) = block_num (wblk st ! 0) + 1 \<and>
     events (out st) = map (\<lambda>i. SetFilled (int i mod n)) [0..<m]"

lemma window_same_ring: "same_ring st st' \<Longrightarrow> window n m st' = window n m st"
  by (simp add: same_ring_def window_def)

lemma smod_nonneg: "0 \<le> a \<Longrightarrow> 0 < (n :: int) \<Longrightarrow> a smod n = a mod n"
  by (cases "a = 0") (simp_all add: signed_modulo_int_def)

lemma init_block_info_window [simp]:
  "block_num (init_block_info bi idx num pkts) = num"
  "block_idx_out (init_block_info bi idx num pkts) = (if idx \<ge> 0 then idx else block_idx_out bi)"
  by (simp_all add: init_block_info_def reset_block_info_stats_def Let_def)

lemma wait_for_block_free_ring:
  assumes "wait_for_block_free api key fw bi o1 = Inr o2"
  shows "n_block (dbout o2) = n_block (dbout o1)" "events o2 = events o1"
  using assms by (auto simp: wait_for_block_free_def update_header_def Let_def cres_simps split: prod.splits)

lemma finalize_block_ring:
  assumes "finalize_block api bi o1 = Inr (bi', o2)"
  shows "n_block (dbout o2) = n_block (dbout o1)" "events o2 = events o1 @ [SetFilled (block_idx_out bi)]"
  using assms by (auto simp: finalize_block_def update_header_def Let_def cres_simps split: if_splits)

lemma advance_blocks_window:
  fixes st :: "('st, 'f) outer"
  assumes w: "window n m st" and a: "advance_blocks env fw blk st = Inr st'" and blk: "blk = block_num (wblk st ! 1) + 1"
  shows "window n (Suc m) st'" "block_num (wblk st' ! 0) = block_num (wblk st ! 1)"
proof -
  obtain w0 o1 w1 o2 and st1 :: "('st, 'f) outer" where f: "finalize_block (env_api env) (wblk st ! 0) (out st) = Inr (w0, o1)"
    and s1: "wblk st1 = [wblk st ! 1, wblk st ! 1]" "dbout (out st1) = dbout o1" "events (out st1) = events o1"
    and i: "increment_block (dbout o1) (wblk st ! 1) blk = Inr w1"
    and o2: "wait_for_block_free (env_api env) (status_key env) fw w1 (out st1) = Inr o2"
    and st': "wblk st' = [wblk st ! 1, w1]" "out st' = o2"
  proof -
    have len: "\<exists>x y. wblk st = [x, y]" using w by (auto simp: window_def numeral_2_eq_2 length_Suc_conv)
    then obtain x y where xy: "wblk st = [x, y]" by blast
    let ?st1 = "\<lambda>w0 o1. start_stop_at env (block_num y) (st\<lparr>out := o1, ndrop_total := ndrop_total st + ucast (ndrop w0), wblk := [y, y]\<rparr>)"
    obtain w0 o1 w1 o2 where r: "finalize_block (env_api env) x (out st) = Inr (w0, o1)"
        "increment_block (dbout (out (?st1 w0 o1))) y blk = Inr w1"
        "wait_for_block_free (env_api env) (status_key env) fw w1 (out (?st1 w0 o1)) = Inr o2"
        "st' = (?st1 w0 o1)\<lparr>out := o2, wblk := [y, w1]\<rparr>"
      using a xy by (auto simp: advance_blocks_def Let_def cres_simps start_stop_at_def set_stat_def)
    show thesis
      by (rule that [of w0 o1 "?st1 w0 o1" w1 o2]) (use r xy in \<open>simp_all add: start_stop_at_def set_stat_def\<close>)
  qed
  have w1: "block_idx_out w1 = (block_idx_out (wblk st ! 1) + 1) smod n" "block_num w1 = blk"
    using i finalize_block_ring(1) [OF f] w
    by (auto simp: increment_block_def reset_block_info_stats_def window_def split: if_splits)
  have pos: "0 < n" "0 \<le> block_idx_out (wblk st ! 1)" using w by (auto simp: window_def)
  have "block_idx_out w1 = (int (Suc m) + 1) mod n"
    using w pos smod_nonneg [of "block_idx_out (wblk st ! 1) + 1" n] unfolding w1 by (simp add: window_def mod_simps ac_simps)
  moreover have "events o2 = map (\<lambda>i. SetFilled (int i mod n)) [0..<Suc m]"
    using wait_for_block_free_ring(2) [OF o2] s1(3) finalize_block_ring(2) [OF f] w by (simp add: window_def)
  moreover have "n_block (dbout o2) = n"
    using wait_for_block_free_ring(1) [OF o2] s1(2) finalize_block_ring(1) [OF f] w by (simp add: window_def)
  ultimately show "window n (Suc m) st'" using w w1(2) blk st' by (simp add: window_def add.commute)
  show "block_num (wblk st' ! 0) = block_num (wblk st ! 1)" by (simp add: st')
qed

lemma reset_blocks_window:
  assumes "window n m st"
  shows "window n m (reset_blocks env blk st)" "block_num (wblk (reset_blocks env blk st) ! 0) = blk + 1"
  using assms by (simp_all add: window_def reset_blocks_def Let_def start_stop_at_def set_stat_def)

lemma manage_blocks_window:
  assumes "window n m st" "manage_blocks env fw blk st = Inr st'"
  shows "\<exists>m'. window n m' st'"
proof (cases "blk = block_num (wblk st ! 1) + 1")
  case True
  then have "advance_blocks env fw blk st = Inr st'" using assms(2) by (simp add: manage_blocks_def)
  from advance_blocks_window(1) [OF assms(1) this True] show ?thesis by blast
next
  case False
  have "window n m (st\<lparr>nlate := nlate st + 1\<rparr>)" using assms(1) by (simp add: window_def)
  then show ?thesis using False assms reset_blocks_window(1) [OF assms(1), of env blk]
    by (auto simp: manage_blocks_def split: if_splits)
qed

lemma place_in_block_window:
  assumes w: "window n m st" and p: "place_in_block env blk payload st = Some (Inr st')"
  shows "window n m st'"
proof -
  have d: "n_block d = n_block (dbout (out st))"
    if "copy_packet_data_to_databuf nt (dbout (out st)) bi oi f payload = Some (Inr d)" for d nt bi oi f
    using that by (auto simp: copy_packet_data_to_databuf_def update_data_def Let_def split: sum.splits option.splits)
  have "\<exists>x y. wblk st = [x, y]" using w by (auto simp: window_def numeral_2_eq_2 length_Suc_conv)
  then obtain x y where xy: "wblk st = [x, y]" by blast
  show ?thesis
  proof (cases "0 \<le> wblk_index blk st \<and> wblk_index blk st < 2")
    case True
    then have "wblk_index blk st = 0 \<or> wblk_index blk st = 1" by auto
    then show ?thesis
      using p w d xy by (auto simp: place_in_block_def Let_def window_def split: option.splits sum.splits)
  next
    case False
    then show ?thesis using p w by (auto simp: place_in_block_def Let_def)
  qed
qed

lemma process_packet_window:
  assumes w: "window n m st" and p: "process_packet env pkt st = Some (Inr st')"
  shows "\<exists>m'. window n m' st'"
proof -
  obtain spdhdr payload fw where pkt: "pkt = (spdhdr, payload, fw)" by (cases pkt)
  obtain f where f: "mk_parse_mkfeng_ibv_spead_packet spdhdr (fesi st) = Inr f"
    using p by (auto simp: process_packet_def pkt split: sum.splits)
  have w1: "window n m (st\<lparr>fesi := f\<rparr>)" "window n m (count_packet (st\<lparr>fesi := f\<rparr>))"
    using w by (simp_all add: window_def count_packet_def)
  consider "st' = st\<lparr>fesi := f\<rparr>"
    | seq blk s1 s2 where "block_status_update env seq (count_packet (st\<lparr>fesi := f\<rparr>)) = Inr s1"
      "manage_blocks env fw blk s1 = Inr s2" "place_in_block env blk payload s2 = Some (Inr st')"
    using p f by (auto simp: process_packet_def pkt Let_def cres_simps split: sum.splits if_splits)
  then show ?thesis
  proof cases
    case 1
    then show ?thesis using w1(1) by blast
  next
    case 2
    have "window n m s1" using block_status_update_ring [OF 2(1)] w1(2) window_same_ring by blast
    then obtain m' where "window n m' s2" using manage_blocks_window [OF _ 2(2)] by blast
    then show ?thesis using place_in_block_window [OF _ 2(3)] by blast
  qed
qed

lemma process_slots_window:
  "process_slots env data p fws st = Some (Inr st') \<Longrightarrow> window n m st \<Longrightarrow> \<exists>m'. window n m' st'"
proof (induction fws arbitrary: p st m)
  case (Cons fw fws)
  then obtain h pl s1 where s1: "process_packet env (h, pl, fw) st = Some (Inr s1)" "process_slots env data (p + slot_size env) fws s1 = Some (Inr st')"
    by (auto split: option.splits sum.splits)
  then show ?case using process_packet_window [OF Cons.prems(2) s1(1)] Cons.IH [OF s1(2)] by blast
qed auto

lemma outer_pass_window:
  assumes "window n m st" "outer_pass env n_in inp st = Some (Inr (go, st'))"
  shows "\<exists>m'. window n m' st'"
proof -
  obtain ws data fws ns where inp: "inp = (ws, data, fws, ns)" by (cases inp)
  obtain fl rn s1 where s1: "wait_for_packets env ws st = Inr (fl, rn, s1)"
    using assms(2) by (auto simp: outer_pass_def inp split: sum.splits)
  have w1: "window n m s1" using window_same_ring [OF wait_for_packets_ring [OF s1]] assms(1) by simp
  then have w2: "window n m (free_input s1)" "window n m (skip_block env n_in s1)" "window n m (start_receiving env s1)"
    by (simp_all add: window_def free_input_def skip_block_def next_input_def start_receiving_def set_stat_def)
  have "window n m' (finish_block env n_in ns s2)" if "window n m' s2" for m' s2
    using that by (simp add: window_def finish_block_def free_input_def next_input_def set_stat_def Let_def)
  then show ?thesis
    using assms(2) w1 w2 process_slots_window [of env data 0 "map fws [0..<slots_per_block env]" "start_receiving env s1"]
    by (fastforce simp: outer_pass_def inp s1 split: if_splits option.splits sum.splits)
qed

lemma outer_main_window: "outer_main env n_in sched st = Some (Inr st') \<Longrightarrow> window n m st \<Longrightarrow> \<exists>m'. window n m' st'"
proof (induction env n_in sched st arbitrary: m rule: outer_main.induct)
  case (2 env n_in running inp sched st)
  show ?case
  proof (cases running)
    case True
    then obtain go s1 where s1: "outer_pass env n_in inp st = Some (Inr (go, s1))"
        "if go then outer_main env n_in sched s1 = Some (Inr st') else st' = s1"
      using "2.prems"(1) by (auto split: option.splits sum.splits if_splits)
    obtain m' where "window n m' s1" using outer_pass_window [OF "2.prems"(2) s1(1)] by blast
    then show ?thesis using s1 True "2.IH" by (cases go) auto
  next
    case False
    then show ?thesis using "2.prems" by auto
  qed
qed auto

lemma init_working_blocks_window:
  assumes "init_working_blocks api key [0..<2] fws bis o1 = Inr (bis', o2)" "length bis = 2"
  shows "\<exists>x y. bis' = [x, y] \<and> block_idx_out x = 0 \<and> block_num x = 0 \<and> block_idx_out y = 1 \<and> block_num y = 1"
    "n_block (dbout o2) = n_block (dbout o1)" "events o2 = events o1"
proof -
  obtain x y where bis: "bis = [x, y]" using assms(2) by (auto simp: numeral_2_eq_2 length_Suc_conv)
  have upt: "[0..<2] = [0, 1 :: nat]" by (simp add: upt_rec)
  obtain w0 w1 o' where w: "wait_for_block_free api key w0 (init_block_info x 0 0 0) o1 = Inr o'"
      "wait_for_block_free api key w1 (init_block_info y 1 1 0) o' = Inr o2"
      "bis' = [init_block_info x 0 0 0, init_block_info y 1 1 0]"
    using assms(1) unfolding upt bis
    by (cases fws; cases "tl fws") (auto simp: Let_def cres_simps)
  from wait_for_block_free_ring [OF w(1)] wait_for_block_free_ring [OF w(2)]
  show "n_block (dbout o2) = n_block (dbout o1)" "events o2 = events o1" by simp_all
  show "\<exists>x y. bis' = [x, y] \<and> block_idx_out x = 0 \<and> block_num x = 0 \<and> block_idx_out y = 1 \<and> block_num y = 1"
    by (simp add: w(3))
qed

lemma read_obs_info_ring: "read_obs_info env st = Inr st' \<Longrightarrow> same_ring st st'"
  by (auto simp: read_obs_info_def Let_def cres_simps same_ring_def set_stat_def split: if_splits)

lemma outer_run_ring_order:
  assumes run: "outer_run env n_in fws sched st = Some (Inr st')"
    and start: "length (wblk st) = 2" "events (out st) = []" "2 \<le> n_block (dbout (out st))"
  shows "\<exists>m. events (out st') = map (\<lambda>i. SetFilled (int i mod n_block (dbout (out st)))) [0..<m] \<and>
    length (wblk st') = 2 \<and>
    block_idx_out (wblk st' ! 0) = int m mod n_block (dbout (out st)) \<and>
    block_idx_out (wblk st' ! 1) = (int m + 1) mod n_block (dbout (out st)) \<and>
    block_num (wblk st' ! 1) = block_num (wblk st' ! 0) + 1"
proof -
  obtain bis o1 s1 where i: "init_working_blocks (env_api env) (status_key env) [0..<2] fws (wblk st) (out st) = Inr (bis, o1)"
      "read_obs_info env (st\<lparr>wblk := bis, out := o1\<rparr>) = Inr s1" "outer_main env n_in sched s1 = Some (Inr st')"
    using run by (auto simp: outer_run_def cconst cres_simps split: sum.splits)
  have "window (n_block (dbout (out st))) 0 (st\<lparr>wblk := bis, out := o1\<rparr>)"
    using init_working_blocks_window [OF i(1) start(1)] start(2,3) by (auto simp: window_def)
  then have "window (n_block (dbout (out st))) 0 s1" using window_same_ring [OF read_obs_info_ring [OF i(2)]] by simp
  from outer_main_window [OF i(3) this] show ?thesis by (auto simp: window_def)
qed

text \<open>
  C35: the output blocks are handed on in the order of the ring. Whatever packets arrive and however
  the waits go, when the thread ends it has marked as filled exactly the blocks 0, 1, 2, ... of the
  ring in turn, none skipped and none twice, and its two working blocks are the next two blocks of
  the ring, with consecutive absolute numbers.
\<close>

theorem outer_blocks_in_ring_order:
  assumes run: "outer_thread env n_in hdr0 wblk0 eff0 seq0 n0 oi0 fws sched o0 = Some (Inr st')"
    and start: "length wblk0 = 2" "events o0 = []" "2 \<le> n_block (dbout o0)"
  shows "\<exists>m. events (out st') = map (\<lambda>i. SetFilled (int i mod n_block (dbout o0))) [0..<m] \<and>
    length (wblk st') = 2 \<and>
    block_idx_out (wblk st' ! 0) = int m mod n_block (dbout o0) \<and>
    block_idx_out (wblk st' ! 1) = (int m + 1) mod n_block (dbout o0) \<and>
    block_num (wblk st' ! 1) = block_num (wblk st' ! 0) + 1"
proof -
  obtain mf prt s where "outer_run (env\<lparr>max_flows := mf, env_port := prt\<rparr>) n_in fws sched
      (outer_locals (env_fp env) wblk0 eff0 seq0 n0 oi0 (o0\<lparr>stat := s, dbout := clear_blocks hdr0 (dbout o0)\<rparr>)) = Some (Inr st')"
    using run by (auto simp: outer_thread_def split: prod.splits option.splits)
  from outer_run_ring_order [OF this] show ?thesis using start by (simp add: outer_locals_def clear_blocks_def)
qed

text \<open>A thread at its start, on a small ring, for the witnesses.\<close>

definition example_fp :: "int fp_ops" where
  "example_fp = \<lparr>fp_lit = (\<lambda>_. 1), fp_bandwidth_nonzero = (\<lambda>n b. b \<noteq> 0), fp_realtime_secs = (\<lambda>x n b. uint x),
     fp_timespec = (\<lambda>y s. (y, 0)), fp_is_zero = (\<lambda>x. x = 0), fp_tbin = (\<lambda>b. 1), fp_obsbw = (\<lambda>b c a. b),
     fp_gbps = (\<lambda>b n. uint b div uint n), fp_pkps = (\<lambda>p n. uint p), fp_dwell_blocks = (\<lambda>d t n. 10), fp_netblkms = uint\<rparr>"

definition example_cal :: "int time_ops" where
  "example_cal = \<lparr>gmtime_r = (\<lambda>x. None), slaCaldj = (\<lambda>y m d. (0, 0)), f_to_int = id, nsec_to_sec = (\<lambda>n. 0), usec_to_sec = (\<lambda>n. 0)\<rparr>"

definition example_env :: "((string \<times> int sval) list, int) outer_env" where
  "example_env = \<lparr>env_api = assoc_status, env_fp = example_fp, env_cal = example_cal, nt_size = 6,
     obs_valid = (\<lambda>oi. nants oi \<noteq> 0), status_key = ''NETSTAT'', max_flows = 16, env_port = 4016,
     inet_aton = (\<lambda>s. None), strtoul0 = (\<lambda>s. 0), flow_ok = (\<lambda>i. True), slots_per_block = 2, slot_size = 2048\<rparr>"

definition example_bi :: "int \<Rightarrow> int \<Rightarrow> block_info" where
  "example_bi i k = \<lparr>block_idx_out = i, block_num = k, bi_pktidx_per_block = 16, pkts_per_block = 0, npacket = 0, ndrop = 0\<rparr>"

definition example_oi :: outer_obs_info where
  "example_oi = \<lparr>fenchan = 4096, nants = 1, nstrm = 1, hntime = 256, hnchan = 16, hclocks = 2097152, schan = 0, nchan = 16, obs_antids = []\<rparr>"

definition example_fesi :: mk_feng_spead_info where
  "example_fesi = \<lparr>heap_offset = 0, payload_size = 1024, timestamp = 0, feng_id = 0, feng_chan = 0\<rparr>"

definition example_outer :: "((string \<times> int sval) list, int) outer" where
  "example_outer = \<lparr>out = \<lparr>stat = [], dbout = \<lparr>n_block = 3, blocks = replicate 3 \<lparr>blk_hdr = [], blk_data = replicate BLOCK_DATA_SIZE 0\<rparr>\<rparr>, events = []\<rparr>,
     wblk = [example_bi 0 0, example_bi 1 1], obs = example_oi, pktidx_per_block = 16, eff_block_size = 0, fesi = example_fesi,
     status_seq_num = 1, start_seq_num = 0, stop_seq_num = 0, dwell_seconds = 300, chan_bw = 1, packet_count = 0, u64tmp = 0,
     ndrop_total = 0, nlate = 0, netgbps = 0, netpkps = 0, bits_net = 0, pkts_net = 0, ns_net = 0, physgbps = 0, physpkps = 0,
     bits_phys = 0, pkts_phys = 0, nstreams = 0, dest_ip = [], dest_ip_new = [], flows = [], waiting = False, block_idx_in = 0,
     in_events = [], fill_to_free_sum = 0, fill_to_free_block = replicate 24 0\<rparr>"

lemma example_outer_simps [simp]:
  "length (wblk example_outer) = 2" "events (out example_outer) = []" "n_block (dbout (out example_outer)) = 3"
  "wblk example_outer = [example_bi 0 0, example_bi 1 1]" "stat (out example_outer) = []"
  "length (blocks (dbout (out example_outer))) = 3"
  by (simp_all add: example_outer_def)

lemma example_run:
  "\<exists>st'. outer_thread example_env 24 [] [example_bi 0 0, example_bi 1 1] 0 0 0 example_oi
     [(0, [(HASHPIPE_OK, 0)]), (0, [(HASHPIPE_TIMEOUT, 1), (HASHPIPE_OK, 0)])] [(True, [(0, True, None, False, False, False)], [], \<lambda>_. (0, []), 0)]
     ((out example_outer)\<lparr>stat := [(''MAXFLOWS'', SU4 16)]\<rparr>) = Some (Inr st')"
proof -
  have upt: "[0..<2] = [0, 1 :: nat]" by (simp add: upt_rec)
  show ?thesis
    by (simp add: outer_thread_def run_begin_def outer_locals_def clear_blocks_def init_obs_def ata_obs_info_init_def
        outer_run_def cconst upt example_env_def wait_for_block_free_def block_info_header_def hpguppi_databuf_header_def
        deref_def update_header_def read_obs_info_def Let_def assoc_status_def example_bi_def init_block_info_def
        reset_block_info_stats_def obs_ata_def ata_pktidx_per_block_def ata_block_size_def example_oi_def
        outer_pass_def wait_iteration_def set_stat_def free_input_def)
qed

theorem outer_blocks_in_ring_order_witness:
  "\<exists>st' m. outer_thread example_env 24 [] [example_bi 0 0, example_bi 1 1] 0 0 0 example_oi
      [(0, [(HASHPIPE_OK, 0)]), (0, [(HASHPIPE_TIMEOUT, 1), (HASHPIPE_OK, 0)])] [(True, [(0, True, None, False, False, False)], [], \<lambda>_. (0, []), 0)]
      ((out example_outer)\<lparr>stat := [(''MAXFLOWS'', SU4 16)]\<rparr>) = Some (Inr st') \<and>
    events (out st') = map (\<lambda>i. SetFilled (int i mod 3)) [0..<m] \<and> block_idx_out (wblk st' ! 0) = int m mod 3"
proof -
  obtain st' where st': "outer_thread example_env 24 [] [example_bi 0 0, example_bi 1 1] 0 0 0 example_oi
      [(0, [(HASHPIPE_OK, 0)]), (0, [(HASHPIPE_TIMEOUT, 1), (HASHPIPE_OK, 0)])] [(True, [(0, True, None, False, False, False)], [], \<lambda>_. (0, []), 0)]
      ((out example_outer)\<lparr>stat := [(''MAXFLOWS'', SU4 16)]\<rparr>) = Some (Inr st')" using example_run by blast
  from outer_blocks_in_ring_order [OF this] show ?thesis using st' by auto
qed

section \<open>What a packet does by its block number\<close>

text \<open>A wait that times out some number of times and then succeeds.\<close>

definition wait_ends :: "free_waits \<Rightarrow> bool" where
  "wait_ends fw \<longleftrightarrow> (\<exists>ts full rest. snd fw = ts @ (HASHPIPE_OK, full) # rest \<and> (\<forall>t \<in> set ts. fst t = HASHPIPE_TIMEOUT))"

lemma wait_free_loop_ends:
  assumes "\<forall>t \<in> set ts. fst t = HASHPIPE_TIMEOUT"
  shows "\<exists>s'. wait_free_loop api key n (ts @ (HASHPIPE_OK, full) # rest) s = Inr s'"
  using assms by (induction ts arbitrary: s) auto

lemma wait_for_block_free_ends:
  assumes "wait_ends fw" "databuf_ok (dbout o1)" "0 \<le> block_idx_out bi" "block_idx_out bi < n_block (dbout o1)"
  shows "\<exists>o2. wait_for_block_free api key fw bi o1 = Inr o2"
proof -
  obtain full0 ts full rest where fw: "fw = (full0, ts @ (HASHPIPE_OK, full) # rest)" "\<forall>t \<in> set ts. fst t = HASHPIPE_TIMEOUT"
    using assms(1) by (cases fw) (auto simp: wait_ends_def)
  have loop: "\<exists>s'. wait_free_loop api key (n_block (dbout o1)) (ts @ (HASHPIPE_OK, full) # rest) s = Inr s'" for s
    by (rule wait_free_loop_ends [OF fw(2)])
  show ?thesis
    using loop [of "hputs api ''NETBUFST'' (netbuf_status full0 (n_block (dbout o1))) (hputs api key ''waitfree'' (stat o1))"]
      databuf_pointer(1) [OF assms(2-4)]
    by (auto simp: wait_for_block_free_def fw(1) Let_def cres_simps deref_def block_info_header_def)
qed

lemma databuf_ok_update_header:
  "databuf_ok d \<Longrightarrow> i < length (blocks d) \<Longrightarrow> databuf_ok (update_header i f d)"
  by (auto simp: databuf_ok_def update_header_def dest!: subsetD [OF set_update_subset_insert])

lemma finalize_block_ends:
  assumes "databuf_ok (dbout o1)" "0 \<le> block_idx_out bi" "block_idx_out bi < n_block (dbout o1)"
  shows "\<exists>bi' o2. finalize_block api bi o1 = Inr (bi', o2) \<and> databuf_ok (dbout o2)"
proof -
  have "nat (block_idx_out bi) < length (blocks (dbout o1))" using assms by (auto simp: databuf_ok_def)
  then show ?thesis
    using assms databuf_pointer(1) [OF assms] databuf_ok_update_header [OF assms(1)]
    by (simp add: finalize_block_def deref_def block_info_header_def Let_def)
qed

lemma advance_blocks_ends:
  fixes st :: "('st, 'f) outer"
  assumes w: "window n m st" and ok: "databuf_ok (dbout (out st))" and ends: "wait_ends fw"
  shows "\<exists>st'. advance_blocks env fw blk st = Inr st'"
proof -
  have xy: "\<exists>x y. wblk st = [x, y]" using w by (auto simp: window_def numeral_2_eq_2 length_Suc_conv)
  then obtain x y where xy: "wblk st = [x, y]" by blast
  have n: "0 < n" "n_block (dbout (out st)) = n" "block_idx_out x = int m mod n" "block_idx_out y = (int m + 1) mod n"
    using w xy by (simp_all add: window_def)
  obtain w0 o1 where f: "finalize_block (env_api env) x (out st) = Inr (w0, o1)" "databuf_ok (dbout o1)"
    using finalize_block_ends [OF ok, of x "env_api env"] n by auto
  let ?st1 = "start_stop_at env (block_num y) (st\<lparr>out := o1, ndrop_total := ndrop_total st + ucast (ndrop w0), wblk := [y, y]\<rparr>)"
  have n1: "n_block (dbout o1) = n" using finalize_block_ring(1) [OF f(1)] n(2) by simp
  define w1 where "w1 = reset_block_info_stats (y\<lparr>block_idx_out := (block_idx_out y + 1) smod n, block_num := blk\<rparr>)"
  have i: "increment_block (dbout o1) y blk = Inr w1" using n(1) n1 by (simp add: increment_block_def w1_def)
  have "block_idx_out w1 = (block_idx_out y + 1) mod n"
    using n smod_nonneg [of "block_idx_out y + 1" n] by (simp add: w1_def reset_block_info_stats_def)
  then have idx: "0 \<le> block_idx_out w1" "block_idx_out w1 < n" using n(1) by simp_all
  have d: "dbout (out ?st1) = dbout o1" by (simp add: start_stop_at_def set_stat_def)
  obtain o2 where o2: "wait_for_block_free (env_api env) (status_key env) fw w1 (out ?st1) = Inr o2"
    using wait_for_block_free_ends [OF ends, of "out ?st1" w1] f(2) idx n1 unfolding d by blast
  have w: "wblk ?st1 = [y, y]" by (simp add: start_stop_at_def set_stat_def)
  show ?thesis using f(1) i o2 d w by (simp add: advance_blocks_def xy Let_def)
qed

lemma wblk_index_small:
  assumes "blk - block_num (wblk st ! 0) \<in> {-1, 0, 1}"
  shows "wblk_index blk st = blk - block_num (wblk st ! 0)"
  using assms unfolding wblk_index_def by (elim insertE) simp_all

text \<open>
  C36: what a packet of block \<open>blk\<close> does when the working blocks are \<open>W\<close> and \<open>W + 1\<close>. For these two the
  blocks stay and the packet belongs to the working block \<open>blk - W\<close>. For \<open>W + 2\<close>, when the wait for
  the next block ends, block \<open>W\<close> is marked as filled, the window moves by one and the packet belongs
  to the new second block. A packet of block \<open>W - 1\<close> is only counted as late. Any other packet
  restarts the window after its own block, without handing the two working blocks on, and is itself
  not stored (a comment says that the window then starts with the packet's block).
\<close>

theorem packet_by_block_number:
  assumes w: "window n m st" and ok: "databuf_ok (dbout (out st))" and ends: "wait_ends fw"
    and W: "W = block_num (wblk st ! 0)"
  shows "(blk = W \<or> blk = W + 1 \<longrightarrow> manage_blocks env fw blk st = Inr st \<and> wblk_index blk st = blk - W) \<and>
    (blk = W + 2 \<longrightarrow> (\<exists>st'. manage_blocks env fw blk st = Inr st' \<and> window n (Suc m) st' \<and>
      block_num (wblk st' ! 0) = W + 1 \<and> events (out st') = events (out st) @ [SetFilled (block_idx_out (wblk st ! 0))] \<and>
      wblk_index blk st' = 1)) \<and>
    (blk = W - 1 \<longrightarrow> manage_blocks env fw blk st = Inr (st\<lparr>nlate := nlate st + 1\<rparr>) \<and>
      place_in_block env blk payload (st\<lparr>nlate := nlate st + 1\<rparr>) = Some (Inr (st\<lparr>nlate := nlate st + 1\<rparr>))) \<and>
    (blk < W - 1 \<or> blk > W + 2 \<longrightarrow> (\<exists>st'. manage_blocks env fw blk st = Inr st' \<and> window n m st' \<and>
      block_num (wblk st' ! 0) = blk + 1 \<and> dbout (out st') = dbout (out st) \<and> events (out st') = events (out st) \<and>
      place_in_block env blk payload st' = Some (Inr st')))"
proof -
  have W0: "block_num (wblk st ! 0) = W" using W by simp
  have W1: "block_num (wblk st ! 1) = W + 1" using w W by (simp add: window_def)
  have out: "place_in_block env blk payload st' = Some (Inr st')"
    if "blk - block_num (wblk st' ! 0) = -1" for st' :: "('a, 'b) outer"
    using wblk_index_small [of blk st'] that by (simp add: place_in_block_def)
  have 1: "manage_blocks env fw blk st = Inr st \<and> wblk_index blk st = blk - W" if "blk = W \<or> blk = W + 1"
    using that W1 W0 wblk_index_small [of blk st] by (elim disjE) (simp_all add: manage_blocks_def)
  have 2: "\<exists>st'. manage_blocks env fw blk st = Inr st' \<and> window n (Suc m) st' \<and>
      block_num (wblk st' ! 0) = W + 1 \<and> events (out st') = events (out st) @ [SetFilled (block_idx_out (wblk st ! 0))] \<and>
      wblk_index blk st' = 1" if blk: "blk = W + 2"
  proof -
    obtain st' where st': "advance_blocks env fw blk st = Inr st'" using advance_blocks_ends [OF w ok ends] by blast
    have blk1: "blk = block_num (wblk st ! 1) + 1" using blk W1 by simp
    note win = advance_blocks_window [OF w st' blk1]
    have "wblk_index blk st' = 1" using wblk_index_small [of blk st'] win(2) W1 blk by simp
    moreover have "events (out st') = events (out st) @ [SetFilled (block_idx_out (wblk st ! 0))]"
      using win(1) w by (simp add: window_def)
    ultimately show ?thesis using st' win W1 blk1 by (simp add: manage_blocks_def)
  qed
  have 3: "manage_blocks env fw blk st = Inr (st\<lparr>nlate := nlate st + 1\<rparr>) \<and>
      place_in_block env blk payload (st\<lparr>nlate := nlate st + 1\<rparr>) = Some (Inr (st\<lparr>nlate := nlate st + 1\<rparr>))" if "blk = W - 1"
    using that W1 W0 out [of "st\<lparr>nlate := nlate st + 1\<rparr>"] by (simp add: manage_blocks_def)
  have 4: "\<exists>st'. manage_blocks env fw blk st = Inr st' \<and> window n m st' \<and>
      block_num (wblk st' ! 0) = blk + 1 \<and> dbout (out st') = dbout (out st) \<and> events (out st') = events (out st) \<and>
      place_in_block env blk payload st' = Some (Inr st')" if "blk < W - 1 \<or> blk > W + 2"
  proof -
    have "manage_blocks env fw blk st = Inr (reset_blocks env blk st)" using that W0 W1 by (auto simp: manage_blocks_def)
    moreover have "dbout (out (reset_blocks env blk st)) = dbout (out st)" "events (out (reset_blocks env blk st)) = events (out st)"
      by (simp_all add: reset_blocks_def Let_def start_stop_at_def set_stat_def)
    ultimately show ?thesis using reset_blocks_window [OF w, of env blk] out [of "reset_blocks env blk st"] by simp
  qed
  show ?thesis
    by (rule conjI, rule impI, rule 1, assumption, rule conjI, rule impI, rule 2, assumption,
        rule conjI, rule impI, rule 3, assumption, rule impI, rule 4, assumption)
qed

lemma example_window: "window 3 0 example_outer" "databuf_ok (dbout (out example_outer))"
  by (simp_all add: window_def example_bi_def) (simp add: databuf_ok_def example_outer_def)

theorem packet_by_block_number_witness:
  "(\<exists>st'. manage_blocks example_env (0, [(HASHPIPE_OK, 0)]) 2 example_outer = Inr st' \<and> block_num (wblk st' ! 0) = 1 \<and>
      events (out st') = [SetFilled 0]) \<and>
   (\<exists>st'. manage_blocks example_env (0, [(HASHPIPE_OK, 0)]) 7 example_outer = Inr st' \<and> block_num (wblk st' ! 0) = 8 \<and>
      place_in_block example_env 7 [] st' = Some (Inr st'))"
proof -
  have ends: "wait_ends (0, [(HASHPIPE_OK, 0)])" by (auto simp: wait_ends_def intro!: exI [of _ "[]"])
  have W: "0 = block_num (wblk example_outer ! 0)" by (simp add: example_bi_def)
  show ?thesis
    using packet_by_block_number [OF example_window ends W, of 2 example_env "[]"]
      packet_by_block_number [OF example_window ends W, of 7 example_env "[]"]
    by (auto simp: example_bi_def)
qed

section \<open>Starting and stopping\<close>

lemma start_time_fields:
  assumes "status_laws api"
  shows "hgetu4 api (start_time api fp t x s) ''STTVALID'' = Some 1"
    "hgets api (start_time api fp t x s) ''DAQSTATE'' n = hgets api s ''DAQSTATE'' n"
    "hgetu8 api (start_time api fp t x s) ''PKTSTART'' = hgetu8 api s ''PKTSTART''"
    "hgetu8 api (start_time api fp t x s) ''PKTSTOP'' = hgetu8 api s ''PKTSTOP''"
  unfolding start_time_def Let_def
  by (simp_all add: status_laws_get [OF assms] status_laws_other [OF assms] split: prod.split)

text \<open>
  C37: recording is on exactly between PKTSTART and PKTSTOP, both read from the status buffer (0 when
  missing): the thread's result, the published DAQSTATE and the STTVALID flag all say so, the start
  and stop fields stay as they are, and asking again at the same index changes nothing but the state
  already published.
\<close>

theorem start_stop_window:
  assumes laws: "status_laws api" and r: "check_start_stop api fp t pktidx s = (state, s')"
  shows "(state = RECORD \<longleftrightarrow> or_else (hgetu8 api s ''PKTSTART'') 0 \<le> pktidx \<and> pktidx < or_else (hgetu8 api s ''PKTSTOP'') 0) \<and>
    state \<noteq> IDLE \<and>
    hgets api s' ''DAQSTATE'' 80 = Some (if state = RECORD then ''RECORD'' else ''LISTEN'') \<and>
    or_else (hgetu4 api s' ''STTVALID'') 0 = (if state = RECORD then 1 else 0) \<and>
    hgetu8 api s' ''PKTSTART'' = hgetu8 api s ''PKTSTART'' \<and> hgetu8 api s' ''PKTSTOP'' = hgetu8 api s ''PKTSTOP'' \<and>
    check_start_stop api fp t pktidx s' = (state, hputs api ''DAQSTATE'' (if state = RECORD then ''RECORD'' else ''LISTEN'') s')"
proof -
  define st where "st = hputs api ''DAQSTATE'' (if state = RECORD then ''RECORD'' else ''LISTEN'') s"
  have rec: "state = RECORD \<longleftrightarrow> or_else (hgetu8 api s ''PKTSTART'') 0 \<le> pktidx \<and> pktidx < or_else (hgetu8 api s ''PKTSTOP'') 0"
    and cases: "state = RECORD \<or> state = LISTEN"
    using r by (auto simp: check_start_stop_def Let_def split: if_splits)
  have s': "s' = (if state = RECORD then if or_else (hgetu4 api s ''STTVALID'') 0 \<noteq> 1 then start_time api fp t pktidx st else st
      else if or_else (hgetu4 api s ''STTVALID'') 0 \<noteq> 0 then hputu4 api ''STTVALID'' 0 st else st)"
    using r by (auto simp: check_start_stop_def st_def Let_def split: if_splits)
  have st: "hgets api st ''DAQSTATE'' 80 = Some (if state = RECORD then ''RECORD'' else ''LISTEN'')"
      "hgetu4 api st ''STTVALID'' = hgetu4 api s ''STTVALID''" "hgetu8 api st ''PKTSTART'' = hgetu8 api s ''PKTSTART''"
      "hgetu8 api st ''PKTSTOP'' = hgetu8 api s ''PKTSTOP''"
    unfolding st_def by (simp_all add: status_laws_get [OF laws] status_laws_other [OF laws])
  note get = start_time_fields [OF laws] status_laws_get [OF laws] status_laws_other [OF laws] st
  have q: "hgets api s' ''DAQSTATE'' 80 = Some (if state = RECORD then ''RECORD'' else ''LISTEN'')"
      "or_else (hgetu4 api s' ''STTVALID'') 0 = (if state = RECORD then 1 else 0)"
      "hgetu8 api s' ''PKTSTART'' = hgetu8 api s ''PKTSTART''" "hgetu8 api s' ''PKTSTOP'' = hgetu8 api s ''PKTSTOP''"
    unfolding s' by (simp_all add: get)
  moreover have "check_start_stop api fp t pktidx s' = (state, hputs api ''DAQSTATE'' (if state = RECORD then ''RECORD'' else ''LISTEN'') s')"
    using rec cases unfolding check_start_stop_def Let_def q by auto
  ultimately show ?thesis using rec cases by auto
qed

theorem start_stop_window_witness:
  "fst (check_start_stop assoc_status example_fp example_cal 96 [(''PKTSTART'', SU8 64), (''PKTSTOP'', SU8 128)]) = RECORD \<and>
   fst (check_start_stop assoc_status example_fp example_cal 128 [(''PKTSTART'', SU8 64), (''PKTSTOP'', SU8 128)]) \<noteq> RECORD"
proof -
  let ?s = "[(''PKTSTART'', SU8 64), (''PKTSTOP'', SU8 128)] :: (string \<times> int sval) list"
  have "hgetu8 assoc_status ?s ''PKTSTART'' = Some 64" "hgetu8 assoc_status ?s ''PKTSTOP'' = Some 128"
    by (simp_all add: assoc_status_def)
  moreover obtain a b where "check_start_stop assoc_status example_fp example_cal 96 ?s = (a, b)" by fastforce
  moreover obtain c d where "check_start_stop assoc_status example_fp example_cal 128 ?s = (c, d)" by fastforce
  ultimately show ?thesis
    using start_stop_window [OF assoc_status_laws, of example_fp example_cal 96 ?s a b]
      start_stop_window [OF assoc_status_laws, of example_fp example_cal 128 ?s c d] by auto
qed

section \<open>Where the data of a packet goes\<close>

lemma bytes_step:
  fixes bytes :: u32 and istride :: u64
  assumes "unat bytes < 2 ^ 31" "unat istride \<le> unat bytes"
  shows "unat (ucast (scast bytes - istride) :: u32) = unat bytes - unat istride"
proof -
  have "sint bytes = uint bytes" using assms(1) by (simp add: sint_cases uint_nat del: of_nat_unat)
  then have sc: "scast bytes = (ucast bytes :: u64)" by (metis of_int_sint of_int_uint)
  have u: "unat (ucast bytes :: u64) = unat bytes" using assms(1) by (simp add: unat_ucast_small)
  then have "unat (ucast bytes - istride :: u64) = unat bytes - unat istride"
    using assms(2) by (simp add: unat_sub_if')
  then show ?thesis using assms(1) unfolding sc by (subst unat_ucast_small) simp_all
qed

lemma copy_rows_loop:
  assumes i: "0 < unat istride" "2 ^ nt dvd unat istride"
    and b: "unat bytes = k * unat istride" "unat bytes < 2 ^ 31"
    and src: "src + k * unat istride \<le> length payload"
    and dst: "\<forall>j < k. dst + j * unat ostride + unat istride \<le> length mem"
  shows "copy_rows nt istride ostride payload bytes src dst mem =
    Some (cfold (\<lambda>j. blit (dst + j * unat ostride) (peek (src + j * unat istride) (unat istride) payload)) [0..<k] mem)"
  using b src dst
proof (induction k arbitrary: bytes src dst mem)
  case 0
  then have "bytes = 0" by (simp add: unat_eq_0)
  then show ?case by (subst copy_rows.simps) simp
next
  case (Suc k)
  have "sint bytes = int (unat bytes)" using Suc.prems(2) by (simp add: sint_cases uint_nat del: of_nat_unat)
  moreover have "0 < unat bytes" using Suc.prems(1) i(1) by simp
  ultimately have pos: "0 < sint bytes" by linarith
  have le: "unat istride \<le> unat bytes" using Suc.prems(1) by simp
  have len: "dst + unat istride \<le> length mem" using Suc.prems(4) by force
  have "memcpy_nt nt dst src istride payload mem = blit dst (peek src (unat istride) payload) mem"
    using memcpy_nt_multiple [OF i(2), of src payload dst mem] Suc.prems(3) len by (simp add: memcpy_ok)
  moreover obtain mem' where m: "blit dst (peek src (unat istride) payload) mem = Inr mem'"
    using blit_ok_iff [of dst "peek src (unat istride) payload" mem] len Suc.prems(3) by (auto simp: length_peek)
  ultimately have unfold: "copy_rows nt istride ostride payload bytes src dst mem =
      copy_rows nt istride ostride payload (ucast (scast bytes - istride)) (src + unat istride) (dst + unat ostride) mem'"
    using pos by (subst copy_rows.simps) simp
  have mem': "length mem' = length mem" by (rule blit_InrD(2) [OF m])
  have "\<forall>j < k. dst + unat ostride + j * unat ostride + unat istride \<le> length mem'"
  proof (intro allI impI)
    fix j assume "j < k"
    then show "dst + unat ostride + j * unat ostride + unat istride \<le> length mem'"
      using Suc.prems(4) [rule_format, of "Suc j"] mem' by (simp add: add.assoc)
  qed
  moreover have "unat (ucast (scast bytes - istride) :: u32) = k * unat istride"
    using bytes_step [OF Suc.prems(2) le] Suc.prems(1) by simp
  ultimately have "copy_rows nt istride ostride payload bytes src dst mem =
      Some (cfold (\<lambda>j. blit (dst + unat ostride + j * unat ostride)
        (peek (src + unat istride + j * unat istride) (unat istride) payload)) [0..<k] mem')"
    unfolding unfold using Suc.prems(1,2,3) by (intro Suc.IH) simp_all
  moreover have "[0..<Suc k] = 0 # map Suc [0..<k]" by (simp add: upt_conv_Cons map_Suc_upt)
  ultimately show ?case by (simp add: cfold_map m add.assoc)
qed

text \<open>
  A packet whose heap rows fit: \<open>n\<close> rows of samples, in the channels of its antenna, from the channel
  of the packet and its offset in the heap on.
\<close>

definition obs_rows :: "mk_obs_info \<Rightarrow> nat" where
  "obs_rows oi = unat (nants oi) * unat (nstrm oi) * unat (hnchan oi)"

definition row_bytes :: "mk_obs_info \<Rightarrow> nat" where
  "row_bytes oi = 4 * unat (hntime oi)"

definition heap_row :: "mk_obs_info \<Rightarrow> mk_feng_spead_info \<Rightarrow> nat" where
  "heap_row oi f = unat (feng_id f) * (unat (nstrm oi) * unat (hnchan oi)) +
     (unat (feng_chan f) - unat (schan oi)) + unat (heap_offset f) div row_bytes oi"

definition heap_fits :: "mk_obs_info \<Rightarrow> mk_feng_spead_info \<Rightarrow> nat \<Rightarrow> bool" where
  "heap_fits oi f n \<longleftrightarrow> 0 < obs_rows oi \<and> hntime oi \<noteq> 0 \<and> obs_rows oi * row_bytes oi \<le> BLOCK_DATA_SIZE \<and> hclocks oi \<noteq> 0 \<and>
     unat (feng_id f) < unat (nants oi) \<and> unat (schan oi) \<le> unat (feng_chan f) \<and>
     unat (payload_size f) = n * row_bytes oi \<and> 0 < n \<and>
     unat (feng_chan f) - unat (schan oi) + unat (heap_offset f) div row_bytes oi + n \<le> unat (nstrm oi) * unat (hnchan oi)"

lemma heap_fitsD:
  assumes "heap_fits oi f n"
  shows "heap_row oi f + n \<le> obs_rows oi" "0 < row_bytes oi" "row_bytes oi \<le> 2 ^ 27" "obs_rows oi \<le> 2 ^ 27"
    "unat (payload_size f) < 2 ^ 31"
proof -
  let ?per = "unat (nstrm oi) * unat (hnchan oi)"
  have h: "0 < obs_rows oi" "hntime oi \<noteq> 0" "obs_rows oi * row_bytes oi \<le> 2 ^ 27" "unat (feng_id f) < unat (nants oi)"
      "unat (payload_size f) = n * row_bytes oi"
      "unat (feng_chan f) - unat (schan oi) + unat (heap_offset f) div row_bytes oi + n \<le> ?per"
    using assms unfolding heap_fits_def BLOCK_DATA_SIZE_def by auto
  show pos: "0 < row_bytes oi" using h(2) by (simp add: row_bytes_def unat_gt_0)
  have "Suc (unat (feng_id f)) * ?per \<le> unat (nants oi) * ?per" using h(4) by (intro mult_le_mono1) simp
  then show row: "heap_row oi f + n \<le> obs_rows oi" using h(6) by (simp add: heap_row_def obs_rows_def mult.assoc)
  have "1 * row_bytes oi \<le> obs_rows oi * row_bytes oi" using h(1) by (intro mult_le_mono1) simp
  then show "row_bytes oi \<le> 2 ^ 27" using h(3) by linarith
  have "obs_rows oi * 1 \<le> obs_rows oi * row_bytes oi" using pos by (intro mult_le_mono2) simp
  then show "obs_rows oi \<le> 2 ^ 27" using h(3) by linarith
  have "n * row_bytes oi \<le> obs_rows oi * row_bytes oi" using row by (intro mult_le_mono1) simp
  then have "unat (payload_size f) \<le> 2 ^ 27" using h(3,5) by linarith
  then show "unat (payload_size f) < 2 ^ 31" by simp
qed

lemma unat_mk_obsnchan:
  assumes "heap_fits oi f n"
  shows "unat (mk_obsnchan oi) = obs_rows oi" "mk_obsnchan oi \<noteq> 0"
proof -
  have b: "obs_rows oi \<le> 2 ^ 27" "0 < obs_rows oi" using heap_fitsD [OF assms] assms by (simp_all add: heap_fits_def)
  then have "0 < unat (hnchan oi)" by (simp add: obs_rows_def)
  then have "unat (nants oi) * unat (nstrm oi) \<le> obs_rows oi" by (simp add: obs_rows_def)
  then have ab: "unat (nants oi * nstrm oi) = unat (nants oi) * unat (nstrm oi)" using b(1) by (intro unat_mult_small) simp
  show u: "unat (mk_obsnchan oi) = obs_rows oi"
    unfolding mk_obsnchan_def calc_mk_obsnchan_def using b(1) by (subst unat_mult_small) (simp_all add: ab obs_rows_def)
  show "mk_obsnchan oi \<noteq> 0" using u b(2) by (metis less_numeral_extra(3) unat_0)
qed

lemma block_layout:
  assumes h: "heap_fits oi f n" and p: "mk_pktidx_per_block (of_nat BLOCK_DATA_SIZE) oi = Inr p"
  shows "0 < unat p" "obs_rows oi * unat p * row_bytes oi \<le> BLOCK_DATA_SIZE"
    "mk_ntime (of_nat BLOCK_DATA_SIZE) oi = Inr (hntime oi * p)"
    "unat (ucast (4 * hntime oi) :: u64) = row_bytes oi" "unat (ucast (4 * (hntime oi * p)) :: u64) = unat p * row_bytes oi"
proof -
  have bs: "unat (of_nat BLOCK_DATA_SIZE :: u64) = 2 ^ 27" by (simp add: cconst)
  have nz: "hntime oi \<noteq> 0" and sz: "obs_rows oi * row_bytes oi \<le> 2 ^ 27" using h by (simp_all add: heap_fits_def cconst)
  then have le: "unat (mk_obsnchan oi) * unat (hntime oi) * 4 \<le> 2 ^ 27"
    by (simp add: unat_mk_obsnchan(1) [OF h] row_bytes_def)
  obtain q k where q: "calc_mk_pktidx_per_block (of_nat BLOCK_DATA_SIZE) (mk_obsnchan oi) (hntime oi) = Inr q" "unat q = 2 ^ k"
      "unat (mk_obsnchan oi) * unat (hntime oi) * 4 * 2 ^ k \<le> 2 ^ 27"
    by (rule calc_mk_pktidx_per_block_power [of "mk_obsnchan oi" "hntime oi" "of_nat BLOCK_DATA_SIZE", unfolded bs,
      OF le_less_trans [OF le] unat_mk_obsnchan(2) [OF h] nz le]) (simp, simp, rule that)
  then have pq: "p = q" using p by (simp add: mk_pktidx_per_block_def)
  show "0 < unat p" using q(2) pq by simp
  have total: "obs_rows oi * unat p * row_bytes oi \<le> 2 ^ 27"
    using q(2,3) unfolding pq by (simp add: unat_mk_obsnchan(1) [OF h] row_bytes_def ac_simps)
  then show "obs_rows oi * unat p * row_bytes oi \<le> BLOCK_DATA_SIZE" by (simp add: cconst)
  show "mk_ntime (of_nat BLOCK_DATA_SIZE) oi = Inr (hntime oi * p)" using q(1) pq by (simp add: mk_ntime_def calc_mk_ntime_def)
  have w: "row_bytes oi \<le> 2 ^ 27" by (rule heap_fitsD(3) [OF h])
  then have i: "unat (4 * hntime oi) = row_bytes oi" by (subst unat_mult_small) (simp_all add: row_bytes_def)
  then show "unat (ucast (4 * hntime oi) :: u64) = row_bytes oi" using w by (subst unat_ucast_small) simp_all
  have "1 * (unat p * row_bytes oi) \<le> obs_rows oi * (unat p * row_bytes oi)"
    using h by (intro mult_le_mono1) (simp add: heap_fits_def)
  then have pw: "unat p * row_bytes oi \<le> 2 ^ 27" using total unfolding mult.assoc by linarith
  have "unat (4 * hntime oi * p) = unat p * row_bytes oi" using i pw by (subst unat_mult_small) (simp_all add: mult.commute)
  then have "unat (4 * (hntime oi * p)) = unat p * row_bytes oi" by (simp add: mult.assoc)
  then show "unat (ucast (4 * (hntime oi * p)) :: u64) = unat p * row_bytes oi" using pw by (subst unat_ucast_small) simp_all
qed

lemma unat_through_int:
  fixes x :: u64
  assumes "unat x < 2 ^ 31"
  shows "unat (scast (ucast x :: u32) :: u64) = unat x"
proof -
  have u: "unat (ucast x :: u32) = unat x" using assms by (simp add: unat_ucast_small)
  then have "sint (ucast x :: u32) = uint (ucast x :: u32)" using assms by (simp add: sint_cases uint_nat del: of_nat_unat)
  then have "scast (ucast x :: u32) = (ucast (ucast x :: u32) :: u64)" by (metis of_int_sint of_int_uint)
  then show ?thesis using assms u by (simp add: unat_ucast_small)
qed

lemma unat_mk_block_chan:
  assumes "heap_fits oi f n"
  shows "unat (mk_block_chan oi f) =
    unat (feng_id f) * (unat (nstrm oi) * unat (hnchan oi)) + (unat (feng_chan f) - unat (schan oi))"
proof -
  let ?a = "unat (feng_id f)" and ?s = "unat (nstrm oi)" and ?c = "unat (hnchan oi)"
  have ge: "unat (schan oi) \<le> unat (feng_chan f)" and pos: "0 < ?c"
    using assms by (auto simp: heap_fits_def obs_rows_def)
  have row: "?a * (?s * ?c) + (unat (feng_chan f) - unat (schan oi)) \<le> 2 ^ 27"
    using heap_fitsD(1,4) [OF assms] unfolding heap_row_def by linarith
  then have "?a * ?s * ?c \<le> 2 ^ 27" by (simp add: mult.assoc)
  moreover have "?a * ?s * 1 \<le> ?a * ?s * ?c" using pos by (intro mult_le_mono2) simp
  ultimately have as: "?a * ?s \<le> 2 ^ 27" "?a * ?s * ?c \<le> 2 ^ 27" by linarith+
  have u: "unat (ucast (nstrm oi) :: u64) = ?s" "unat (ucast (hnchan oi) :: u64) = ?c" "unat (ucast (schan oi) :: u64) = unat (schan oi)"
    using unat_less_exp [of "nstrm oi"] unat_less_exp [of "hnchan oi"] unat_less_exp [of "schan oi"]
    by (auto intro!: unat_ucast_small)
  have m1: "unat (feng_id f * ucast (nstrm oi)) = ?a * ?s" using as(1) by (subst unat_mult_small) (simp_all add: u)
  have m2: "unat (feng_id f * ucast (nstrm oi) * ucast (hnchan oi)) = ?a * ?s * ?c"
    using as(2) by (subst unat_mult_small) (simp_all add: u m1)
  have d: "unat (feng_chan f - ucast (schan oi)) = unat (feng_chan f) - unat (schan oi)"
    using ge by (simp add: unat_sub_if' u)
  show ?thesis unfolding mk_block_chan_def calc_mk_block_chan_def
    using row by (subst unat_add_small) (simp_all add: m2 d mult.assoc [symmetric])
qed

definition heap_slot :: "mk_obs_info \<Rightarrow> mk_feng_spead_info \<Rightarrow> u32 \<Rightarrow> nat" where
  "heap_slot oi f p = unat (timestamp f) div unat (hclocks oi) mod unat p"

lemma heap_slot_less: "0 < unat p \<Longrightarrow> heap_slot oi f p < unat p"
  by (simp add: heap_slot_def)

lemma heap_start_offset:
  assumes h: "heap_fits oi f n" and p: "mk_pktidx_per_block (of_nat BLOCK_DATA_SIZE) oi = Inr p"
    and bi: "bi_pktidx_per_block bi = ucast p"
  shows "\<exists>s. heap_start bi oi f (ucast (4 * hntime oi)) (ucast (4 * (hntime oi * p))) = Inr s \<and>
    unat s = row_offset (unat p) (row_bytes oi) (heap_row oi f, heap_slot oi f p)"
proof -
  let ?w = "row_bytes oi" and ?i = "ucast (4 * hntime oi) :: u64" and ?o = "ucast (4 * (hntime oi * p)) :: u64"
  let ?x = "timestamp f div hclocks oi mod ucast p" and ?q = "heap_offset f div ?i" and ?bc = "mk_block_chan oi f"
  note layout = block_layout [OF h p]
  have up: "unat (ucast p :: u64) = unat p" using unat_less_exp [of p] by (intro unat_ucast_small) simp
  have x: "unat ?x = heap_slot oi f p" by (simp add: heap_slot_def unat_mod_distrib unat_div_distrib up)
  have q: "unat ?q = unat (heap_offset f) div ?w" by (simp add: unat_div_distrib layout(4))
  have row: "heap_row oi f = unat ?bc + unat ?q" unfolding heap_row_def unat_mk_block_chan [OF h] q ..
  have less: "heap_slot oi f p < unat p" by (rule heap_slot_less [OF layout(1)])
  have "heap_row oi f < obs_rows oi" using heap_fitsD(1) [OF h] h by (auto simp: heap_fits_def)
  then have "row_offset (unat p) ?w (heap_row oi f, heap_slot oi f p) + ?w \<le> obs_rows oi * unat p * ?w"
    using less by (intro rows.in_range) (simp add: row_valid_def)
  then have total: "heap_slot oi f p * ?w + unat ?bc * (unat p * ?w) + unat ?q * (unat p * ?w) \<le> 2 ^ 27"
    using layout(2) unfolding row_offset_def row BLOCK_DATA_SIZE_def by (simp add: algebra_simps)
  have fits27: "obs_rows oi * unat p * ?w \<le> 2 ^ 27" using layout(2) by (simp add: cconst)
  have "1 * unat p * 1 \<le> obs_rows oi * unat p * ?w"
    using h heap_fitsD(2) [OF h] by (intro mult_le_mono) (simp_all add: heap_fits_def)
  then have "heap_slot oi f p < 2 ^ 27" "unat ?bc \<le> 2 ^ 27"
    using fits27 less heap_fitsD(1,4) [OF h] row by linarith+
  then have small: "heap_slot oi f p < 2 ^ 31" "unat ?bc < 2 ^ 31" by simp_all
  let ?s = "scast (ucast ?x :: u32) * ?i" and ?r = "scast (ucast ?bc :: u32) * ?o" and ?t = "?q * ?o"
  have s: "unat ?s = heap_slot oi f p * ?w" using total small(1) by (subst unat_mult_small) (simp_all add: unat_through_int x layout(4))
  have r: "unat ?r = unat ?bc * (unat p * ?w)" using total small(2) by (subst unat_mult_small) (simp_all add: unat_through_int layout(5))
  have t: "unat ?t = unat ?q * (unat p * ?w)" using total by (subst unat_mult_small) (simp_all add: layout(5))
  have sr: "unat (?s + ?r) = unat ?s + unat ?r" using total unfolding s [symmetric] r [symmetric] by (intro unat_add_small) simp
  have srt: "unat (?s + ?r + ?t) = unat ?s + unat ?r + unat ?t"
    using total unfolding s [symmetric] r [symmetric] t [symmetric] by (subst unat_add_small) (simp_all add: sr)
  have nz: "hclocks oi \<noteq> 0" "(ucast p :: u64) \<noteq> 0" "?i \<noteq> 0"
    using h layout(1,4) up heap_fitsD(2) [OF h] by (auto simp: heap_fits_def)
  have "heap_start bi oi f ?i ?o = Inr (?s + ?r + ?t)"
    unfolding heap_start_def mk_pktidx_def calc_mk_pktidx_def bi Let_def using nz by simp
  moreover have "unat (?s + ?r + ?t) = row_offset (unat p) ?w (heap_row oi f, heap_slot oi f p)"
    unfolding srt s r t row row_offset_def by (simp add: algebra_simps)
  ultimately show ?thesis by blast
qed


lemma copy_rows_scatter:
  assumes h: "heap_fits oi f n" and p: "mk_pktidx_per_block (of_nat BLOCK_DATA_SIZE) oi = Inr p"
    and nt: "2 ^ nt dvd row_bytes oi" and len: "unat (payload_size f) \<le> length payload" "length mem = BLOCK_DATA_SIZE"
    and dst: "unat dst = row_offset (unat p) (row_bytes oi) (heap_row oi f, heap_slot oi f p)"
  shows "copy_rows nt (ucast (4 * hntime oi)) (ucast (4 * (hntime oi * p))) payload (ucast (payload_size f)) 0 (unat dst) mem =
    Some (cfold (\<lambda>k. blit (row_offset (unat p) (row_bytes oi) k) (peek ((fst k - heap_row oi f) * row_bytes oi) (row_bytes oi) payload))
      (map (\<lambda>j. (heap_row oi f + j, heap_slot oi f p)) [0..<n]) mem)"
proof -
  let ?w = "row_bytes oi" and ?P = "unat p" and ?at = "\<lambda>j. (heap_row oi f + j, heap_slot oi f p)"
  note layout = block_layout [OF h p] and fits = heap_fitsD [OF h]
  have at: "unat dst + j * (?P * ?w) = row_offset ?P ?w (?at j)" for j
    unfolding dst row_offset_def by (simp add: algebra_simps)
  have n: "unat (payload_size f) = n * ?w" using h by (simp add: heap_fits_def)
  then have b: "unat (ucast (payload_size f) :: u32) = n * ?w" using fits(5) by (simp add: unat_ucast_small)
  have "unat dst + j * (?P * ?w) + ?w \<le> length mem" if "j < n" for j
  proof -
    have "row_offset ?P ?w (?at j) + ?w \<le> obs_rows oi * ?P * ?w"
      using fits(1) that heap_slot_less [OF layout(1)] by (intro rows.in_range) (simp add: row_valid_def)
    then show ?thesis unfolding at using layout(2) len(2) by linarith
  qed
  then show ?thesis
    using fits(2,5) nt len(1) b n
    by (subst copy_rows_loop [of _ _ _ n]) (simp_all add: layout(4,5) at cfold_map)
qed

text \<open>
  A packet whose heap rows fit in the block is copied to its place. The block is read as
  \<open>obs_rows\<close> rows of \<open>p\<close> cells of \<open>row_bytes\<close> bytes. Row \<open>j\<close> of the payload goes to the cell of the
  antenna's channel \<open>heap_row + j\<close> in the column \<open>heap_slot\<close> of the packet index, every other cell is kept,
  and the copy ends without leaving the block.
\<close>

lemma packet_data_placed:
  assumes h: "heap_fits oi f n" and p: "mk_pktidx_per_block (of_nat BLOCK_DATA_SIZE) oi = Inr p"
    and bi: "bi_pktidx_per_block bi = ucast p" "0 \<le> block_idx_out bi" "block_idx_out bi < n_block d"
    and d: "databuf_ok d" and nt: "2 ^ nt dvd row_bytes oi" and len: "unat (payload_size f) \<le> length payload"
  shows "\<exists>data. copy_packet_data_to_databuf nt d bi oi f payload = Some (Inr (update_data (nat (block_idx_out bi)) data d)) \<and>
    length data = BLOCK_DATA_SIZE \<and>
    (\<forall>j < n. peek (row_offset (unat p) (row_bytes oi) (heap_row oi f + j, heap_slot oi f p)) (row_bytes oi) data =
       peek (j * row_bytes oi) (row_bytes oi) payload) \<and>
    (\<forall>c t. c < obs_rows oi \<longrightarrow> t < unat p \<longrightarrow> t \<noteq> heap_slot oi f p \<or> c < heap_row oi f \<or> heap_row oi f + n \<le> c \<longrightarrow>
       peek (row_offset (unat p) (row_bytes oi) (c, t)) (row_bytes oi) data =
       peek (row_offset (unat p) (row_bytes oi) (c, t)) (row_bytes oi) (blk_data (blocks d ! nat (block_idx_out bi))))"
proof -
  let ?w = "row_bytes oi" and ?P = "unat p" and ?b = "nat (block_idx_out bi)"
  let ?mem = "blk_data (blocks d ! ?b)" and ?at = "\<lambda>j. (heap_row oi f + j, heap_slot oi f p)"
  let ?ks = "map ?at [0..<n]" and ?v = "\<lambda>k. peek ((fst k - heap_row oi f) * ?w) ?w payload"
  note layout = block_layout [OF h p] and fits = heap_fitsD [OF h]
  have mem: "length ?mem = BLOCK_DATA_SIZE" using d bi(2,3) by (auto simp: databuf_ok_def)
  obtain s where s: "heap_start bi oi f (ucast (4 * hntime oi)) (ucast (4 * (hntime oi * p))) = Inr s"
      "unat s = row_offset ?P ?w (?at 0)"
    using heap_start_offset [OF h p bi(1)] by auto
  have n: "unat (payload_size f) = n * ?w" using h by (simp add: heap_fits_def)
  have "j * ?w + ?w \<le> length payload" if "j < n" for j
  proof -
    have "Suc j * ?w \<le> n * ?w" using that by (intro mult_le_mono1) simp
    then show ?thesis using len n by simp
  qed
  then have valid: "\<forall>k \<in> set ?ks. row_valid (obs_rows oi) ?P k \<and> length (?v k) = ?w"
    using fits(1) heap_slot_less [OF layout(1)] by (auto simp: row_valid_def length_peek)
  have total: "obs_rows oi * ?P * ?w \<le> length ?mem" using layout(2) mem by simp
  obtain r where r: "cfold (\<lambda>k. blit (row_offset ?P ?w k) (?v k)) ?ks ?mem = Inr r" "length r = length ?mem"
      "\<forall>k \<in> set ?ks. peek (row_offset ?P ?w k) ?w r = ?v k"
      "\<forall>i < length ?mem. (\<forall>k \<in> set ?ks. i < row_offset ?P ?w k \<or> row_offset ?P ?w k + ?w \<le> i) \<longrightarrow> r ! i = ?mem ! i"
    using rows.scatter [OF valid total] by (elim exE conjE) (rule that)
  have "block_info_data d bi = Inr (Some ?b)" using databuf_pointer(1) [OF d bi(2,3)] by (simp add: block_info_data_def)
  then have run: "copy_packet_data_to_databuf nt d bi oi f payload = Some (Inr (update_data ?b r d))"
    using copy_rows_scatter [OF h p nt len mem s(2) [simplified]] r(1)
    by (simp add: copy_packet_data_to_databuf_def deref_def layout(3) s(1))
  have new: "peek (row_offset ?P ?w (?at j)) ?w r = peek (j * ?w) ?w payload" if "j < n" for j
    using r(3) [rule_format, of "?at j"] that by auto
  have kept: "peek (row_offset ?P ?w (c, t)) ?w r = peek (row_offset ?P ?w (c, t)) ?w ?mem"
    if "c < obs_rows oi" "t < ?P" "t \<noteq> heap_slot oi f p \<or> c < heap_row oi f \<or> heap_row oi f + n \<le> c" for c t
    using valid that by (intro rows.untouched_cell [OF _ _ _ total r(2,4)]) (auto simp: row_valid_def)
  show ?thesis using run r(2) mem new kept by (intro exI [of _ r]) auto
qed


lemma block_status_update_fields:
  "block_status_update env seq st = Inr st' \<Longrightarrow> obs st' = obs st \<and> fesi st' = fesi st \<and> pktidx_per_block st' = pktidx_per_block st"
  by (auto simp: block_status_update_def update_net_def publish_counters_def Let_def cres_simps set_stat_def split: if_splits)

lemma block_status_update_ends:
  assumes "mk_pktidx_per_block (of_nat BLOCK_DATA_SIZE) (obs_mk (obs st)) = Inr p"
  shows "\<exists>s1. block_status_update env seq st = Inr s1"
proof -
  have o: "obs (update_net f (st\<lparr>status_seq_num := seq\<rparr>)) = obs st" for f by (simp add: update_net_def)
  have "\<exists>t. mk_ntime (of_nat BLOCK_DATA_SIZE) (obs_mk (obs st)) = Inr t"
    using assms by (simp add: mk_ntime_def calc_mk_ntime_def mk_pktidx_per_block_def)
  then have "\<exists>r. block_status env seq (update_net (env_fp env) (st\<lparr>status_seq_num := seq\<rparr>)) = Inr r"
    unfolding block_status_def Let_def o by (elim exE) simp
  then show ?thesis unfolding block_status_update_def Let_def by (elim exE) (simp split: prod.split)
qed

lemma place_in_block_fits:
  assumes w: "window n m st" and d: "databuf_ok (dbout (out st))" and h: "heap_fits (obs_mk (obs st)) (fesi st) rows"
    and p: "mk_pktidx_per_block (of_nat BLOCK_DATA_SIZE) (obs_mk (obs st)) = Inr p" "pktidx_per_block st = p"
    and i: "blk = block_num (wblk st ! 0) + int i" "i < 2"
    and nt: "2 ^ nt_size env dvd row_bytes (obs_mk (obs st))" and len: "unat (payload_size (fesi st)) \<le> length payload"
  shows "\<exists>st' data. place_in_block env blk payload st = Some (Inr st') \<and>
    dbout (out st') = update_data (nat ((int m + int i) mod n)) data (dbout (out st)) \<and> length data = BLOCK_DATA_SIZE \<and>
    npacket (wblk st' ! i) = npacket (wblk st ! i) + 1 \<and>
    (let oi = obs_mk (obs st); f = fesi st; b = blk_data (blocks (dbout (out st)) ! nat ((int m + int i) mod n)) in
      (\<forall>j < rows. peek (row_offset (unat p) (row_bytes oi) (heap_row oi f + j, heap_slot oi f p)) (row_bytes oi) data =
         peek (j * row_bytes oi) (row_bytes oi) payload) \<and>
      (\<forall>c t. c < obs_rows oi \<longrightarrow> t < unat p \<longrightarrow> t \<noteq> heap_slot oi f p \<or> c < heap_row oi f \<or> heap_row oi f + rows \<le> c \<longrightarrow>
         peek (row_offset (unat p) (row_bytes oi) (c, t)) (row_bytes oi) data =
         peek (row_offset (unat p) (row_bytes oi) (c, t)) (row_bytes oi) b))"
proof -
  let ?bi = "(wblk st ! i)\<lparr>pkts_per_block := block_pkts st, bi_pktidx_per_block := ucast (pktidx_per_block st)\<rparr>"
  have n: "0 < n" "n_block (dbout (out st)) = n" "length (wblk st) = 2" using w by (simp_all add: window_def)
  have idx: "block_idx_out (wblk st ! i) = (int m + int i) mod n"
    using w i(2) by (cases "i = 0") (simp_all add: window_def less_2_cases_iff)
  have bi: "bi_pktidx_per_block ?bi = ucast p" "0 \<le> block_idx_out ?bi" "block_idx_out ?bi < n_block (dbout (out st))"
    using p(2) n idx by simp_all
  have ix: "wblk_index blk st = int i"
    using wblk_index_small [of blk st] i by (cases "i = 0") (simp_all add: less_2_cases_iff)
  obtain data where data: "copy_packet_data_to_databuf (nt_size env) (dbout (out st)) ?bi (obs_mk (obs st)) (fesi st) payload =
        Some (Inr (update_data (nat (block_idx_out ?bi)) data (dbout (out st))))" "length data = BLOCK_DATA_SIZE"
      "\<forall>j < rows. peek (row_offset (unat p) (row_bytes (obs_mk (obs st))) (heap_row (obs_mk (obs st)) (fesi st) + j,
          heap_slot (obs_mk (obs st)) (fesi st) p)) (row_bytes (obs_mk (obs st))) data =
        peek (j * row_bytes (obs_mk (obs st))) (row_bytes (obs_mk (obs st))) payload"
      "\<forall>c t. c < obs_rows (obs_mk (obs st)) \<longrightarrow> t < unat p \<longrightarrow> t \<noteq> heap_slot (obs_mk (obs st)) (fesi st) p \<or>
          c < heap_row (obs_mk (obs st)) (fesi st) \<or> heap_row (obs_mk (obs st)) (fesi st) + rows \<le> c \<longrightarrow>
        peek (row_offset (unat p) (row_bytes (obs_mk (obs st))) (c, t)) (row_bytes (obs_mk (obs st))) data =
        peek (row_offset (unat p) (row_bytes (obs_mk (obs st))) (c, t)) (row_bytes (obs_mk (obs st)))
          (blk_data (blocks (dbout (out st)) ! nat (block_idx_out ?bi)))"
    using packet_data_placed [OF h p(1) bi d nt len] by (elim exE conjE) (rule that)
  let ?st = "st\<lparr>out := (out st)\<lparr>dbout := update_data (nat (block_idx_out ?bi)) data (dbout (out st))\<rparr>,
    wblk := (wblk st)[i := ?bi\<lparr>npacket := npacket ?bi + 1\<rparr>]\<rparr>"
  have run: "place_in_block env blk payload st = Some (Inr ?st)" using data(1) i(2) by (simp add: place_in_block_def ix)
  show ?thesis
    by (rule exI [of _ ?st], rule exI [of _ data], intro conjI)
      (use run data(2-4) idx i(2) n(3) in \<open>simp_all add: Let_def\<close>)
qed

text \<open>
  C38: from the slot to the block. When the next slot of an input block holds a packet of 1024 bytes of
  payload whose metadata, read from the items on the wire, names one of the two working blocks and whose
  heap rows fit in the block, the packet is copied to its place and the loop goes on with the next
  slot. The block is read as \<open>obs_rows\<close> rows of \<open>p\<close> cells of \<open>row_bytes\<close> bytes: row \<open>j\<close> of
  the payload goes to the cell of the antenna's channel \<open>heap_row + j\<close> in the column \<open>heap_slot\<close> of the
  packet index, every other cell is kept, the block's packet count goes up by one and the window of
  working blocks stays.
\<close>

theorem spead_packet_stored:
  assumes w: "window n m st" and d: "databuf_ok (dbout (out st))"
    and wire: "length items < 2 ^ 16" "\<forall>(i, v) \<in> set items. unat v < 2 ^ 48" "length magic = 6"
    and f: "f = spead_view items (fesi st)" "payload_size f = 1024" and oi: "oi = obs_mk (obs st)" "heap_fits oi f rows"
    and p: "mk_pktidx_per_block (of_nat BLOCK_DATA_SIZE) oi = Inr p" "pktidx_per_block st = p"
    and i: "sint (timestamp f div hclocks oi div ucast p) = block_num (wblk st ! 0) + int i" "i < 2"
    and nt: "2 ^ nt_size env dvd row_bytes oi" and len: "1024 \<le> length payload"
    and slot: "mk_ibv_spead_pkt q mem = Inr (spead_packet magic items rest, payload)"
  shows "\<exists>st' data. process_slots env mem q (fw # fws) st = process_slots env mem (q + slot_size env) fws st' \<and> window n m st' \<and>
    dbout (out st') = update_data (nat ((int m + int i) mod n)) data (dbout (out st)) \<and> length data = BLOCK_DATA_SIZE \<and>
    npacket (wblk st' ! i) = npacket (wblk st ! i) + 1 \<and>
    (let b = blk_data (blocks (dbout (out st)) ! nat ((int m + int i) mod n)) in
      (\<forall>j < rows. peek (row_offset (unat p) (row_bytes oi) (heap_row oi f + j, heap_slot oi f p)) (row_bytes oi) data =
         peek (j * row_bytes oi) (row_bytes oi) payload) \<and>
      (\<forall>c t. c < obs_rows oi \<longrightarrow> t < unat p \<longrightarrow> t \<noteq> heap_slot oi f p \<or> c < heap_row oi f \<or> heap_row oi f + rows \<le> c \<longrightarrow>
         peek (row_offset (unat p) (row_bytes oi) (c, t)) (row_bytes oi) data =
         peek (row_offset (unat p) (row_bytes oi) (c, t)) (row_bytes oi) b))"
proof -
  let ?s = "count_packet (st\<lparr>fesi := f\<rparr>)" and ?seq = "timestamp f div hclocks oi"
  have s: "obs ?s = obs st" "fesi ?s = f" "pktidx_per_block ?s = p" "same_ring st ?s"
    using p(2) by (simp_all add: count_packet_def same_ring_def)
  obtain s1 where u: "block_status_update env ?seq ?s = Inr s1"
    using block_status_update_ends [of ?s p] p(1) oi(1) s(1) by auto
  then have s1: "same_ring st s1" "obs s1 = obs st" "fesi s1 = f" "pktidx_per_block s1 = p"
    using same_ring_trans [OF s(4) block_status_update_ring [OF u]] block_status_update_fields [OF u] s(1-3) by simp_all
  have w1: "window n m s1" "wblk s1 = wblk st" "dbout (out s1) = dbout (out st)"
    using window_same_ring [OF s1(1)] w s1(1) by (simp_all add: same_ring_def)
  let ?blk = "block_num (wblk s1 ! 0) + int i"
  have "block_num (wblk s1 ! 1) = block_num (wblk s1 ! 0) + 1" using w1(1) by (simp add: window_def)
  then have mb: "manage_blocks env fw ?blk s1 = Inr s1" using i(2) by (simp add: manage_blocks_def)
  have "unat (ucast (nants (obs st)) :: u64) = unat (nants (obs st))"
    using unat_less_exp [of "nants (obs st)"] by (simp add: unsigned_ucast_eq take_bit_nat_eq_self)
  then have id: "feng_id f < ucast (nants (obs st))" and hc: "hclocks (obs st) \<noteq> 0"
    using oi by (auto simp: heap_fits_def obs_mk_def word_less_nat_alt)
  then have known: "\<not> ucast (nants (obs st)) \<le> feng_id f" by (simp add: not_le)
  have p0: "p \<noteq> 0" using block_layout(1) [OF oi(2) p(1)] by (simp add: unat_gt_0)
  have "mk_pktidx (obs_mk (obs st)) f = Inr ?seq" using hc oi(1) by (simp add: mk_pktidx_def calc_mk_pktidx_def obs_mk_def)
  then have run: "process_packet env (spead_packet magic items rest, payload, fw) st = place_in_block env ?blk payload s1"
    using ibv_spead_view [OF wire, of rest "fesi st"] f known p0 s u i(1) w1(2) mb oi(1)
    by (simp add: process_packet_def Let_def)
  then have go_on: "process_slots env mem q (fw # fws) st = process_slots env mem (q + slot_size env) fws st'"
    if "place_in_block env ?blk payload s1 = Some (Inr st')" for st' using slot that by simp
  have "heap_fits (obs_mk (obs s1)) (fesi s1) rows" "mk_pktidx_per_block (of_nat BLOCK_DATA_SIZE) (obs_mk (obs s1)) = Inr p"
    "2 ^ nt_size env dvd row_bytes (obs_mk (obs s1))" "unat (payload_size (fesi s1)) \<le> length payload" "databuf_ok (dbout (out s1))"
    using oi p(1) nt len f(2) s1(2,3) w1(3) d by simp_all
  from place_in_block_fits [OF w1(1) this(5,1,2) s1(4) refl i(2) this(3,4)] show ?thesis
    unfolding s1(2,3) w1(2,3) Let_def oi(1) [symmetric]
    using place_in_block_window [OF w1(1)] by (elim exE conjE) (intro exI conjI, erule go_on [unfolded w1(2)]; blast)
qed

text \<open>
  Two antennas of 32 channels and 16-sample heaps: a packet of the second antenna with 16 channels of
  a heap, from the third on, in the first working block of a ring of three.
\<close>

definition heap_oi :: outer_obs_info where
  "heap_oi = \<lparr>fenchan = 4096, nants = 2, nstrm = 1, hntime = 16, hnchan = 32, hclocks = 128, schan = 64, nchan = 64, obs_antids = []\<rparr>"

definition heap_items :: "(u16 \<times> u64) list" where
  "heap_items = [(0x8003, 128), (0x8004, 1024), (0x9600, 1280), (0xc101, 1), (0xc103, 64)]"

definition heap_state :: "((string \<times> int sval) list, int) outer" where
  "heap_state = example_outer\<lparr>obs := heap_oi, pktidx_per_block := 0x8000\<rparr>"

lemma heap_pktidx_per_block: "mk_pktidx_per_block (of_nat BLOCK_DATA_SIZE) (obs_mk heap_oi) = Inr 0x8000"
proof -
  have "of_nat BLOCK_DATA_SIZE = (0x8000000 :: u64)" by (simp add: cconst)
  moreover have "mk_pktidx_per_block 0x8000000 (obs_mk heap_oi) = Inr 0x8000" by code_simp
  ultimately show ?thesis by simp
qed

definition heap_slot_bytes :: "u8 list" where
  "heap_slot_bytes = replicate 64 0 @ spead_packet [0x53, 4, 2, 6, 0, 0] heap_items (replicate 48 0) @ replicate 32 0 @
     replicate 64 3 @ replicate 960 5"

lemma heap_slot_packet:
  "mk_ibv_spead_pkt 0 heap_slot_bytes =
     Inr (spead_packet [0x53, 4, 2, 6, 0, 0] heap_items (replicate 48 0), replicate 64 3 @ replicate 960 5)"
proof -
  have "length (spead_packet [0x53, 4, 2, 6, 0, 0] heap_items (replicate 48 0)) = 96"
    by (simp add: spead_packet_def heap_items_def)
  then show ?thesis by (simp add: mk_ibv_spead_pkt_def heap_slot_bytes_def cconst peek_def)
qed

theorem spead_packet_stored_witness:
  "\<exists>st' data. process_slots example_env heap_slot_bytes 0 [(0, [])] heap_state = Some (Inr st') \<and> dbout (out st') = update_data 0 data (dbout (out heap_state)) \<and>
    peek (row_offset 0x8000 64 (34, 10)) 64 data = replicate 64 3 \<and> peek (row_offset 0x8000 64 (35, 10)) 64 data = replicate 64 5"
proof -
  let ?f = "spead_view heap_items (fesi heap_state)" and ?oi = "obs_mk (obs heap_state)"
  have f: "?f = \<lparr>heap_offset = 128, payload_size = 1024, timestamp = 1280, feng_id = 1, feng_chan = 64\<rparr>"
    by (simp add: spead_view_def item_value_def heap_items_def)
  have o: "?oi = obs_mk heap_oi" by (simp add: heap_state_def)
  have r: "row_bytes ?oi = 64" "obs_rows ?oi = 64" "heap_row ?oi ?f = 34" "heap_slot ?oi ?f 0x8000 = 10" "unat (0x8000 :: u32) = 0x8000"
    unfolding o f by (simp_all add: row_bytes_def obs_rows_def heap_row_def heap_slot_def heap_oi_def obs_mk_def)
  have fits: "heap_fits ?oi ?f 16"
    unfolding heap_fits_def r unfolding f o by (simp add: cconst heap_oi_def obs_mk_def)
  have w: "window 3 0 heap_state" "databuf_ok (dbout (out heap_state))"
    using example_window by (simp_all add: heap_state_def window_def)
  have wire: "length heap_items < 2 ^ 16" "\<forall>(i, v) \<in> set heap_items. unat v < 2 ^ 48" "length [0x53 :: u8, 4, 2, 6, 0, 0] = 6"
    by (simp_all add: heap_items_def)
  have p: "mk_pktidx_per_block (of_nat BLOCK_DATA_SIZE) ?oi = Inr 0x8000" "pktidx_per_block heap_state = 0x8000"
    using heap_pktidx_per_block by (simp_all add: o) (simp add: heap_state_def)
  have i: "sint (timestamp ?f div hclocks ?oi div ucast (0x8000 :: u32)) = block_num (wblk heap_state ! 0) + int 0" "(0 :: nat) < 2"
    unfolding f o by (simp_all add: heap_oi_def obs_mk_def) (simp add: heap_state_def example_bi_def)
  have rest: "payload_size ?f = 1024" "2 ^ nt_size example_env dvd row_bytes ?oi" "1024 \<le> length (replicate 64 3 @ replicate 960 5 :: u8 list)"
    by (simp_all add: f r example_env_def)
  obtain st' data where st': "process_slots example_env heap_slot_bytes 0 [(0, [])] heap_state = process_slots example_env heap_slot_bytes (0 + slot_size example_env) [] st'"
      "dbout (out st') = update_data (nat ((int 0 + int 0) mod 3)) data (dbout (out heap_state))"
      "\<forall>j < 16. peek (row_offset 0x8000 64 (34 + j, 10)) 64 data = peek (j * 64) 64 (replicate 64 3 @ replicate 960 5)"
    using spead_packet_stored [OF w wire refl rest(1) refl fits p i rest(2,3) heap_slot_packet, of "(0, [])" "[]", unfolded r Let_def]
    by (elim exE conjE) (rule that)
  show ?thesis using st' st'(3) [rule_format, of 0] st'(3) [rule_format, of 1]
    by (intro exI [of _ st'] exI [of _ data]) (simp add: peek_def)
qed

section \<open>The antenna table\<close>

text \<open>
  The index of an antenna in the observation information. While there are fewer than four
  antennas the result is the first place that holds the number, or -1 when no place does; with the
  four antennas for which the structure has room, no antenna is found.
\<close>

lemma ata_ant_index_cases:
  "if unat (ata_nants info) < 4
   then (\<exists>i. get_ata_ant_index info antid = int i \<and> i < unat (ata_nants info) \<and> antids info ! i = antid \<and>
       (\<forall>j < i. antids info ! j \<noteq> antid)) \<noteq>
     (get_ata_ant_index info antid = -1 \<and> (\<forall>i < unat (ata_nants info). antids info ! i \<noteq> antid))
   else get_ata_ant_index info antid = -1"
proof (cases "unat (ata_nants info) < 4")
  case True
  show ?thesis
    by (rule find_fromE [of "\<lambda>iK. antids info ! iK = antid" "unat (ata_nants info)"])
      (use True in \<open>auto simp: get_ata_ant_index_def cconst\<close>)
qed (simp add: get_ata_ant_index_def cconst)

end
