(* ===== verification/Outer_Shape.thy ===== *)
theory Outer_Shape
  imports Outer_Blocks
begin

text \<open>
  The shape of the output buffer - its number of blocks and the size of the data area of each - is
  kept by every operation of the outer thread, and the two working blocks always name blocks that
  exist: the pointers the thread takes from them are never null and never past the buffer.
\<close>

section \<open>The shape of the buffer\<close>

definition buf_shape :: "'st hpguppi_input_databuf \<Rightarrow> int \<times> nat list" where
  "buf_shape d = (n_block d, map (\<lambda>b. length (blk_data b)) (blocks d))"

definition shape :: "('st, 'f) outer \<Rightarrow> int \<times> nat list" where
  "shape st = buf_shape (dbout (out st))"

lemma buf_shape_update_header [simp]: "buf_shape (update_header i f d) = buf_shape d"
  by (cases "i < length (blocks d)") (auto simp: buf_shape_def update_header_def map_update intro!: nth_equalityI simp: nth_list_update)

lemma buf_shape_update_data:
  "length mem = length (blk_data (blocks d ! i)) \<Longrightarrow> buf_shape (update_data i mem d) = buf_shape d"
  by (cases "i < length (blocks d)") (auto simp: buf_shape_def update_data_def map_update intro!: nth_equalityI simp: nth_list_update)

lemma map_eq_replicate: "map f xs = replicate k c \<longleftrightarrow> length xs = k \<and> (\<forall>x \<in> set xs. f x = c)"
  by (auto simp: list_eq_iff_nth_eq all_set_conv_all_nth)

lemma databuf_ok_shape: "databuf_ok d \<longleftrightarrow> (\<exists>k > 0. buf_shape d = (int k, replicate k BLOCK_DATA_SIZE))"
  by (auto simp: databuf_ok_def buf_shape_def map_eq_replicate)

lemma clear_blocks_ok: "databuf_ok d \<Longrightarrow> databuf_ok (clear_blocks hdr0 d) \<and> n_block (clear_blocks hdr0 d) = n_block d"
  by (auto simp: databuf_ok_def clear_blocks_def dest!: in_set_dropD)

lemma databuf_ok_buf_shape: "buf_shape d' = buf_shape d \<Longrightarrow> databuf_ok d' \<longleftrightarrow> databuf_ok d"
  by (simp add: databuf_ok_shape)

lemma same_ring_shape: "same_ring st st' \<Longrightarrow> shape st' = shape st"
  by (simp add: same_ring_def shape_def)

section \<open>Copies keep the size of the memory\<close>

lemma cfold_keeps:
  assumes "\<And>x a b. step x a = Inr b \<Longrightarrow> P a \<Longrightarrow> P b"
  shows "cfold step xs a = Inr b \<Longrightarrow> P a \<Longrightarrow> P b"
  using assms by (induction xs arbitrary: a) (auto simp: cres_simps)

lemma memcpy_nt_length: "memcpy_nt nt dst src len payload mem = Inr mem' \<Longrightarrow> length mem' = length mem"
proof -
  assume "memcpy_nt nt dst src len payload mem = Inr mem'"
  then obtain p where p: "cfold (memcpy_wide nt payload) [0..<unat (drop_bit nt len)] ((dst, src), mem) = Inr (p, mem')"
    by (auto simp: memcpy_nt_def cres_simps)
  have "length (snd b) = length mem" if "memcpy_wide nt payload i a = Inr b" "length (snd a) = length mem" for i a b
    using that by (cases a) (clarsimp simp: memcpy_wide_def cres_simps, drule memcpy_InrD(3), simp)
  from cfold_keeps [of "memcpy_wide nt payload" "\<lambda>a. length (snd a) = length mem", OF this p] show ?thesis by simp
qed

lemma copy_rows_length:
  assumes "copy_rows nt istride ostride payload bytes src dst mem = Some (Inr mem')"
  shows "length mem' = length mem"
proof -
  have "case r of Inl e \<Rightarrow> True | Inr mem' \<Rightarrow> length mem' = length mem"
    if "copy_rows nt istride ostride payload bytes src dst mem = Some r" for bytes src dst mem r
    using that
  proof (rule copy_rows.raw_induct [rotated], goal_cases)
    case (1 copy nt istride ostride payload bytes src dst mem r)
    note IH = 1(1) and eq = 1(2)
    show ?case
    proof (cases "0 < sint bytes")
      case True
      show ?thesis
      proof (cases "memcpy_nt nt dst src istride payload mem")
        case (Inl e)
        then have "r = Inl e" using eq True by simp
        then show ?thesis by simp
      next
        case (Inr mem1)
        with eq True have "copy nt istride ostride payload (ucast (scast bytes - istride)) (src + unat istride) (dst + unat ostride) mem1 = Some r"
          by simp
        from IH [OF this] show ?thesis using memcpy_nt_length [OF Inr] by (simp split: sum.splits)
      qed
    next
      case False
      then show ?thesis using eq by auto
    qed
  qed
  from this [OF assms] show ?thesis by simp
qed

lemma copy_packet_data_shape:
  "copy_packet_data_to_databuf nt d bi oi f payload = Some (Inr d') \<Longrightarrow> buf_shape d' = buf_shape d"
  by (auto simp: copy_packet_data_to_databuf_def Let_def split: sum.splits option.splits
      intro!: buf_shape_update_data dest!: copy_rows_length)

section \<open>Every operation keeps the shape\<close>

lemma wait_for_block_free_shape: "wait_for_block_free api key fw bi o1 = Inr o2 \<Longrightarrow> buf_shape (dbout o2) = buf_shape (dbout o1)"
  by (auto simp: wait_for_block_free_def Let_def cres_simps split: prod.splits)

lemma finalize_block_shape: "finalize_block api bi o1 = Inr (bi', o2) \<Longrightarrow> buf_shape (dbout o2) = buf_shape (dbout o1)"
  by (auto simp: finalize_block_def Let_def cres_simps split: if_splits)

lemma advance_blocks_shape: "advance_blocks env fw blk st = Inr st' \<Longrightarrow> shape st' = shape st"
  by (auto simp: advance_blocks_def Let_def cres_simps shape_def start_stop_at_def set_stat_def
      dest!: wait_for_block_free_shape finalize_block_shape)

lemma manage_blocks_shape: "manage_blocks env fw blk st = Inr st' \<Longrightarrow> shape st' = shape st"
  using advance_blocks_shape [of env fw blk st]
  by (auto simp: manage_blocks_def reset_blocks_def Let_def start_stop_at_def set_stat_def shape_def split: if_splits)

lemma place_in_block_shape: "place_in_block env blk payload st = Some (Inr st') \<Longrightarrow> shape st' = shape st"
  by (auto simp: place_in_block_def Let_def shape_def split: if_splits option.splits sum.splits dest!: copy_packet_data_shape)

lemma process_packet_shape:
  assumes "process_packet env pkt st = Some (Inr st')"
  shows "shape st' = shape st"
proof -
  obtain spdhdr payload fw where pkt: "pkt = (spdhdr, payload, fw)" by (cases pkt)
  obtain f where f: "mk_parse_mkfeng_ibv_spead_packet spdhdr (fesi st) = Inr f"
    using assms by (auto simp: process_packet_def pkt split: sum.splits)
  have s: "shape (st\<lparr>fesi := f\<rparr>) = shape st" "shape (count_packet (st\<lparr>fesi := f\<rparr>)) = shape st"
    by (simp_all add: shape_def count_packet_def)
  consider "st' = st\<lparr>fesi := f\<rparr>"
    | seq blk s1 s2 where "block_status_update env seq (count_packet (st\<lparr>fesi := f\<rparr>)) = Inr s1"
      "manage_blocks env fw blk s1 = Inr s2" "place_in_block env blk payload s2 = Some (Inr st')"
    using assms f by (auto simp: process_packet_def pkt Let_def cres_simps split: sum.splits if_splits)
  then show ?thesis
  proof cases
    case 2
    then show ?thesis
      using s(2) same_ring_shape [OF block_status_update_ring [OF 2(1)]] manage_blocks_shape [OF 2(2)] place_in_block_shape [OF 2(3)] by simp
  qed (simp add: s)
qed

lemma process_slots_shape: "process_slots env data p fws st = Some (Inr st') \<Longrightarrow> shape st' = shape st"
  by (induction fws arbitrary: p st) (auto split: option.splits sum.splits dest: process_packet_shape)

lemma outer_pass_shape:
  assumes "outer_pass env n_in inp st = Some (Inr (go, st'))"
  shows "shape st' = shape st"
proof -
  obtain ws data fws ns where inp: "inp = (ws, data, fws, ns)" by (cases inp)
  obtain fl rn s1 where s1: "wait_for_packets env ws st = Inr (fl, rn, s1)"
    using assms by (auto simp: outer_pass_def inp split: sum.splits)
  have "shape (free_input s1) = shape s1" "shape (skip_block env n_in s1) = shape s1" "shape (start_receiving env s1) = shape s1"
    by (simp_all add: shape_def free_input_def skip_block_def next_input_def start_receiving_def set_stat_def)
  moreover have "shape (finish_block env n_in ns s2) = shape s2" for s2
    by (simp add: shape_def finish_block_def free_input_def next_input_def set_stat_def Let_def)
  ultimately show ?thesis
    using assms same_ring_shape [OF wait_for_packets_ring [OF s1]] process_slots_shape [of env data 0 "map fws [0..<slots_per_block env]" "start_receiving env s1"]
    by (auto simp: outer_pass_def inp s1 split: if_splits option.splits sum.splits)
qed

lemma outer_main_shape: "outer_main env n_in sched st = Some (Inr st') \<Longrightarrow> shape st' = shape st"
  by (induction env n_in sched st rule: outer_main.induct)
    (auto split: option.splits sum.splits if_splits dest!: outer_pass_shape)

lemma init_working_blocks_shape:
  "init_working_blocks api key is fws bis o1 = Inr (bis', o2) \<Longrightarrow> buf_shape (dbout o2) = buf_shape (dbout o1)"
  by (induction api key "is" fws bis o1 rule: init_working_blocks.induct)
    (auto simp: Let_def cres_simps dest!: wait_for_block_free_shape)

lemma outer_run_shape:
  assumes "outer_run env n_in fws sched st = Some (Inr st')"
  shows "shape st' = shape st"
proof -
  obtain bis o1 s1 where i: "init_working_blocks (env_api env) (status_key env) [0..<2] fws (wblk st) (out st) = Inr (bis, o1)"
      "read_obs_info env (st\<lparr>wblk := bis, out := o1\<rparr>) = Inr s1" "outer_main env n_in sched s1 = Some (Inr st')"
    using assms by (auto simp: outer_run_def cconst cres_simps split: sum.splits)
  from outer_main_shape [OF i(3)] same_ring_shape [OF read_obs_info_ring [OF i(2)]] init_working_blocks_shape [OF i(1)]
  show ?thesis by (simp add: shape_def)
qed

section \<open>No pointer to a missing block\<close>

text \<open>
  The faults of a thread that has lost its place in the ring: a block pointer that is null or past
  the end, and the two errors the code itself checks for. \<open>clean\<close> is a computation that does not end in one.
\<close>

definition ring_fault :: "cerr \<Rightarrow> bool" where
  "ring_fault e \<longleftrightarrow> e \<in> {NoBlock, Fatal ''n_block'', Fatal ''block_idx_out''}"

definition clean :: "'a cres \<Rightarrow> bool" where
  "clean m \<longleftrightarrow> (\<forall>e. m = Inl e \<longrightarrow> \<not> ring_fault e)"

definition clean_run :: "'a cres option \<Rightarrow> bool" where
  "clean_run r \<longleftrightarrow> (\<forall>e. r = Some (Inl e) \<longrightarrow> \<not> ring_fault e)"

lemma clean_simps [simp]:
  "clean (Inr x)" "clean (Inl Overrun)" "clean (Inl DivZero)" "clean (Inl Blocked)"
  "clean (Inl (Fatal msg)) \<longleftrightarrow> msg \<noteq> ''n_block'' \<and> msg \<noteq> ''block_idx_out''"
  "clean_run None" "clean_run (Some m) \<longleftrightarrow> clean m"
  by (auto simp: clean_def clean_run_def ring_fault_def)

lemma clean_bind: "clean m \<Longrightarrow> (\<And>x. m = Inr x \<Longrightarrow> clean (f x)) \<Longrightarrow> clean (cbind m f)"
  by (cases m) (auto simp: clean_def)

lemma clean_InlD: "m = Inl e \<Longrightarrow> clean m \<Longrightarrow> clean (Inl e :: 'b cres)"
  by (simp add: clean_def)

text \<open>Arithmetic, parsing and copying do not touch the ring.\<close>

lemma dimensions_clean:
  "clean (mk_pktidx oi f)" "clean (mk_pktidx_per_block b oi)" "clean (mk_ntime b oi)" "clean (mk_block_size b oi)"
  "clean (ata_pktidx_per_block b info)" "clean (ata_block_size b info)" "clean (heap_start bi oi f is os)"
  by (auto simp: mk_pktidx_def calc_mk_pktidx_def mk_pktidx_per_block_def calc_mk_pktidx_per_block_def mk_ntime_def
      calc_mk_ntime_def mk_block_size_def calc_mk_block_size_def ata_pktidx_per_block_def ata_block_size_def heap_start_def
      Let_def intro!: clean_bind)

lemma spead_items_clean: "clean (spead_items n bytes s)"
  by (induction n bytes s rule: spead_items.induct) auto

lemma parsing_clean: "clean (mk_parse_mkfeng_ibv_spead_packet h f)" "clean (mk_ibv_spead_pkt p mem)"
  by (auto simp: mk_parse_mkfeng_ibv_spead_packet_def mk_ibv_spead_pkt_def Let_def intro!: clean_bind spead_items_clean split: prod.split)

lemma cfold_clean: "(\<And>x a. clean (step x a)) \<Longrightarrow> clean (cfold step xs a)"
  by (induction xs arbitrary: a) (auto intro: clean_bind)

lemma memcpy_nt_clean: "clean (memcpy_nt nt dst src len payload mem)"
proof -
  have "clean (memcpy_wide nt payload i a)" for i a
    by (auto simp: memcpy_wide_def memcpy_def cload_def blit_def intro!: clean_bind split: prod.split)
  then show ?thesis by (auto simp: memcpy_nt_def intro!: clean_bind cfold_clean split: prod.split)
qed

lemma copy_rows_clean: "clean_run (copy_rows nt istride ostride payload bytes src dst mem)"
proof -
  have "clean r" if "copy_rows nt istride ostride payload bytes src dst mem = Some r" for r
    using that
  proof (rule copy_rows.raw_induct [rotated], goal_cases)
    case (1 copy nt istride ostride payload bytes src dst mem r)
    note IH = 1(1) and eq = 1(2)
    show ?case
    proof (cases "0 < sint bytes")
      case True
      show ?thesis
      proof (cases "memcpy_nt nt dst src istride payload mem")
        case (Inl e)
        then have "r = Inl e" using eq True by simp
        then show ?thesis using clean_InlD [OF Inl memcpy_nt_clean] by simp
      next
        case (Inr mem1)
        with eq True have "copy nt istride ostride payload (ucast (scast bytes - istride)) (src + unat istride) (dst + unat ostride) mem1 = Some r"
          by simp
        from IH [OF this] show ?thesis .
      qed
    next
      case False
      then show ?thesis using eq by auto
    qed
  qed
  then show ?thesis by (cases "copy_rows nt istride ostride payload bytes src dst mem") auto
qed

text \<open>The waits and the status updates.\<close>

lemma wait_free_loop_clean: "clean (wait_free_loop api key n ws s)"
  by (induction api key n ws s rule: wait_free_loop.induct) auto

lemma updates_clean: "clean (read_obs_info env st)" "clean (second_update env t ns st)" "clean (block_status_update env seq st)"
  by (auto simp: read_obs_info_def second_update_def reread_obs_info_def block_status_update_def block_status_def Let_def
      intro!: clean_bind dimensions_clean split: prod.split)

lemma wait_for_packets_clean: "clean (wait_for_packets env ws st)"
proof -
  have "clean (wait_iteration env w st)" for w and st :: "('a, 'b) outer"
    by (auto simp: wait_iteration_def Let_def intro!: clean_bind updates_clean split: prod.split option.split)
  then show ?thesis by (induction env ws st rule: wait_for_packets.induct) (auto intro!: clean_bind)
qed

text \<open>Every operation on the ring, on a thread that knows its place.\<close>

definition in_ring :: "('st, 'f) outer \<Rightarrow> bool" where
  "in_ring st \<longleftrightarrow> (\<exists>m. window (n_block (dbout (out st))) m st) \<and> databuf_ok (dbout (out st))"

lemma in_ring_window: "window n m st \<Longrightarrow> databuf_ok (dbout (out st)) \<Longrightarrow> in_ring st"
  by (auto simp: in_ring_def window_def)

lemma in_ring_step:
  assumes "in_ring st" "\<And>n m. window n m st \<Longrightarrow> \<exists>m'. window n m' st'" "shape st' = shape st"
  shows "in_ring st'"
proof -
  obtain m where m: "window (n_block (dbout (out st))) m st" "databuf_ok (dbout (out st))" using assms(1) by (auto simp: in_ring_def)
  obtain m' where "window (n_block (dbout (out st))) m' st'" using assms(2) [OF m(1)] by blast
  moreover have "databuf_ok (dbout (out st'))" using m(2) databuf_ok_buf_shape [of "dbout (out st')" "dbout (out st)"] assms(3) by (simp add: shape_def)
  ultimately show ?thesis by (rule in_ring_window)
qed

lemma in_ring_same: "in_ring st \<Longrightarrow> same_ring st st' \<Longrightarrow> in_ring st'"
  by (rule in_ring_step [of st]) (auto simp: window_same_ring same_ring_shape)

lemma in_ring_index:
  assumes "in_ring st" "i < 2"
  shows "0 \<le> block_idx_out (wblk st ! i)" "block_idx_out (wblk st ! i) < n_block (dbout (out st))"
  using assms by (auto simp: in_ring_def window_def less_2_cases_iff)

lemma wait_for_block_free_clean:
  assumes "databuf_ok (dbout o1)" "0 \<le> block_idx_out bi" "block_idx_out bi < n_block (dbout o1)"
  shows "clean (wait_for_block_free api key fw bi o1)"
  using databuf_pointer(1) [OF assms]
  by (auto simp: wait_for_block_free_def deref_def block_info_header_def Let_def intro!: clean_bind wait_free_loop_clean split: prod.split)

lemma advance_blocks_clean:
  fixes st :: "('st, 'f) outer"
  assumes r: "in_ring st"
  shows "clean (advance_blocks env fw blk st)"
proof -
  let ?n = "n_block (dbout (out st))"
  obtain m where w: "window ?n m st" and ok: "databuf_ok (dbout (out st))" using r by (auto simp: in_ring_def)
  then have xy: "\<exists>x y. wblk st = [x, y]" by (auto simp: window_def numeral_2_eq_2 length_Suc_conv)
  then obtain x y where xy: "wblk st = [x, y]" by blast
  have n: "0 < ?n" "0 \<le> block_idx_out x" "block_idx_out x < ?n" "0 \<le> block_idx_out y" using w xy by (auto simp: window_def)
  obtain w0 o1 where f: "finalize_block (env_api env) x (out st) = Inr (w0, o1)" "databuf_ok (dbout o1)"
    using finalize_block_ends [OF ok n(2,3), of "env_api env"] by auto
  let ?st1 = "start_stop_at env (block_num y) (st\<lparr>out := o1, ndrop_total := ndrop_total st + ucast (ndrop w0), wblk := [y, y]\<rparr>)"
  have n1: "n_block (dbout o1) = ?n" using finalize_block_ring(1) [OF f(1)] by simp
  have st1: "dbout (out ?st1) = dbout o1" "wblk ?st1 = [y, y]" by (simp_all add: start_stop_at_def set_stat_def)
  have i: "clean (increment_block (dbout o1) y blk)" using n(1) n1 by (simp add: increment_block_def)
  have "clean (wait_for_block_free (env_api env) (status_key env) fw w1 (out ?st1))" if "increment_block (dbout o1) y blk = Inr w1" for w1
  proof (rule wait_for_block_free_clean)
    have "block_idx_out w1 = (block_idx_out y + 1) smod ?n"
      using that n1 by (auto simp: increment_block_def reset_block_info_stats_def split: if_splits)
    then have "block_idx_out w1 = (block_idx_out y + 1) mod ?n" using smod_nonneg n(1,4) by simp
    then show "0 \<le> block_idx_out w1" "block_idx_out w1 < n_block (dbout (out ?st1))" using n(1) n1 unfolding st1 by simp_all
    show "databuf_ok (dbout (out ?st1))" unfolding st1 by (rule f(2))
  qed
  then show ?thesis
    unfolding advance_blocks_def xy using f(1) st1 i by (auto simp: Let_def intro!: clean_bind)
qed

lemma manage_blocks_clean: "in_ring st \<Longrightarrow> clean (manage_blocks env fw blk st)"
  by (simp add: manage_blocks_def advance_blocks_clean)

lemma place_in_block_clean:
  assumes "in_ring st"
  shows "clean_run (place_in_block env blk payload st)"
proof -
  have "clean_run (copy_packet_data_to_databuf nt (dbout (out st)) bi oi f payload)"
    if "block_idx_out bi = block_idx_out (wblk st ! i)" "i < 2" for nt bi oi f i
  proof -
    have "deref (block_info_data (dbout (out st)) bi) = Inr (nat (block_idx_out bi))"
      using in_ring_index [OF assms that(2)] databuf_pointer(1) [of "dbout (out st)" "block_idx_out bi"] assms that(1)
      by (simp add: deref_def block_info_data_def in_ring_def)
    then show ?thesis
      using dimensions_clean(3) [of "of_nat BLOCK_DATA_SIZE" oi] dimensions_clean(7) [of bi oi f] copy_rows_clean
      by (auto simp: copy_packet_data_to_databuf_def Let_def clean_run_def clean_def split: sum.splits option.splits)
  qed
  then have "clean_run (copy_packet_data_to_databuf nt (dbout (out st)) ((wblk st ! nat (wblk_index blk st))\<lparr>pkts_per_block := a, bi_pktidx_per_block := b\<rparr>) oi f payload)"
    if "0 \<le> wblk_index blk st" "wblk_index blk st < 2" for nt a b oi f
    using that by auto
  then show ?thesis by (auto simp: place_in_block_def Let_def clean_run_def split: sum.splits option.splits)
qed

lemma process_packet_clean:
  assumes "in_ring st"
  shows "clean_run (process_packet env pkt st)"
proof -
  obtain spdhdr payload fw where pkt: "pkt = (spdhdr, payload, fw)" by (cases pkt)
  show ?thesis
  proof (cases "mk_parse_mkfeng_ibv_spead_packet spdhdr (fesi st)")
    case (Inl e)
    then show ?thesis using clean_InlD [OF Inl parsing_clean(1)] by (simp add: process_packet_def pkt)
  next
    case (Inr f)
    let ?st = "count_packet (st\<lparr>fesi := f\<rparr>)"
    have r1: "in_ring ?st" by (rule in_ring_same [OF assms]) (simp add: count_packet_def same_ring_def)
    have r2: "in_ring s1" if "block_status_update env seq ?st = Inr s1" for seq s1
      by (rule in_ring_same [OF r1 block_status_update_ring [OF that]])
    have r3: "in_ring s2" if "block_status_update env seq ?st = Inr s1" "manage_blocks env fw blk s1 = Inr s2" for seq blk s1 s2
      by (rule in_ring_step [OF r2 [OF that(1)]]) (use manage_blocks_window [OF _ that(2)] manage_blocks_shape [OF that(2)] in blast)+
    have "clean (cbind (block_status_update env seq ?st) (manage_blocks env fw blk))" for seq blk
      by (intro clean_bind updates_clean manage_blocks_clean r2)
    then have "clean_run (case cbind (block_status_update env seq ?st) (manage_blocks env fw blk) of Inl e \<Rightarrow> Some (Inl e)
        | Inr s2 \<Rightarrow> place_in_block env blk payload s2)" for seq blk
      using place_in_block_clean [OF r3] by (auto simp: clean_run_def clean_def cres_simps split: sum.split)
    then show ?thesis
      using dimensions_clean(1) [of "obs_mk (obs ?st)" f]
      by (auto simp: process_packet_def pkt Inr Let_def clean_def ring_fault_def split: sum.split)
  qed
qed

lemma process_slots_clean: "in_ring st \<Longrightarrow> clean_run (process_slots env data p fws st)"
proof (induction fws arbitrary: p st)
  case (Cons fw fws)
  show ?case
  proof (cases "mk_ibv_spead_pkt p data")
    case (Inl e)
    then show ?thesis using clean_InlD [OF Inl parsing_clean(2)] by simp
  next
    case (Inr hp)
    obtain h pl where hp: "hp = (h, pl)" by (cases hp)
    have c: "clean_run (process_packet env (h, pl, fw) st)" by (rule process_packet_clean [OF Cons.prems])
    have "in_ring s1" if "process_packet env (h, pl, fw) st = Some (Inr s1)" for s1
      by (rule in_ring_step [OF Cons.prems]) (use process_packet_window [OF _ that] process_packet_shape [OF that] in blast)+
    then show ?thesis using c Cons.IH by (auto simp: Inr hp clean_run_def split: option.splits sum.splits)
  qed
qed simp

lemma outer_pass_clean:
  assumes "in_ring st"
  shows "clean_run (outer_pass env n_in inp st)"
proof -
  obtain ws data fws ns where inp: "inp = (ws, data, fws, ns)" by (cases inp)
  show ?thesis
  proof (cases "wait_for_packets env ws st")
    case (Inl e)
    then show ?thesis using clean_InlD [OF Inl wait_for_packets_clean] by (simp add: outer_pass_def inp)
  next
    case (Inr x)
    obtain fl rn s1 where x: "x = (fl, rn, s1)" by (cases x)
    have "in_ring s1" by (rule in_ring_same [OF assms wait_for_packets_ring [OF Inr [unfolded x]]])
    then have "in_ring (start_receiving env s1)" by (rule in_ring_same) (simp add: start_receiving_def same_ring_def set_stat_def)
    from process_slots_clean [OF this] show ?thesis
      by (auto simp: outer_pass_def inp Inr x clean_run_def split: sum.splits option.splits)
  qed
qed

lemma outer_main_clean: "in_ring st \<Longrightarrow> clean_run (outer_main env n_in sched st)"
proof (induction env n_in sched st rule: outer_main.induct)
  case (2 env n_in running inp sched st)
  have "in_ring s1" if "outer_pass env n_in inp st = Some (Inr (go, s1))" for go s1
    by (rule in_ring_step [OF "2.prems"]) (use outer_pass_window [OF _ that] outer_pass_shape [OF that] in blast)+
  then show ?case using outer_pass_clean [OF "2.prems", of env n_in inp] "2.IH"
    by (auto simp: clean_run_def split: option.splits sum.splits)
qed simp

lemma init_working_blocks_clean:
  assumes "databuf_ok (dbout o1)" "2 \<le> n_block (dbout o1)" "set is \<subseteq> {0, 1}"
  shows "clean (init_working_blocks api key is fws bis o1)"
  using assms
proof (induction api key "is" fws bis o1 rule: init_working_blocks.induct)
  case (3 api key i "is" w ws bis o1)
  let ?bi = "init_block_info (bis ! i) (int i) (int i) 0"
  have i: "int i < n_block (dbout o1)" using "3.prems"(2,3) by auto
  have c: "clean (wait_for_block_free api key w ?bi o1)" by (rule wait_for_block_free_clean) (use "3.prems"(1) i in simp_all)
  have "clean (init_working_blocks api key is ws (bis[i := ?bi]) o2)" if w: "wait_for_block_free api key w ?bi o1 = Inr o2" for o2
    by (rule "3.IH" [OF refl])
      (use "3.prems" wait_for_block_free_ring(1) [OF w] databuf_ok_buf_shape [OF wait_for_block_free_shape [OF w]] in simp_all)
  with c show ?case by (auto simp: Let_def intro!: clean_bind)
qed simp_all

lemma outer_run_clean:
  assumes "length (wblk st) = 2" "events (out st) = []" "2 \<le> n_block (dbout (out st))" "databuf_ok (dbout (out st))"
  shows "clean_run (outer_run env n_in fws sched st)"
proof -
  let ?init = "init_working_blocks (env_api env) (status_key env) [0..<2] fws (wblk st) (out st)"
  have ci: "clean ?init" by (rule init_working_blocks_clean [OF assms(4,3)]) auto
  have "in_ring s1" if "?init = Inr (bis, o1)" "read_obs_info env (st\<lparr>wblk := bis, out := o1\<rparr>) = Inr s1" for bis o1 s1
  proof -
    have "window (n_block (dbout (out st))) 0 (st\<lparr>wblk := bis, out := o1\<rparr>)"
      using init_working_blocks_window [OF that(1) assms(1)] assms(2,3) by (auto simp: window_def)
    moreover have "databuf_ok (dbout o1)" using databuf_ok_buf_shape [OF init_working_blocks_shape [OF that(1)]] assms(4) by simp
    ultimately have "in_ring (st\<lparr>wblk := bis, out := o1\<rparr>)" by (simp add: in_ring_window)
    from in_ring_same [OF this read_obs_info_ring [OF that(2)]] show ?thesis .
  qed
  moreover have "clean (cbind ?init (\<lambda>(bis, o1). read_obs_info env (st\<lparr>wblk := bis, out := o1\<rparr>)))"
    by (intro clean_bind [OF ci]) (auto intro: updates_clean split: prod.split)
  ultimately show ?thesis
    unfolding outer_run_def VOLT_OUTER_HASHPIPE_BLOCKS_AT_A_TIME_def using outer_main_clean
    by (auto simp: clean_run_def clean_def cres_simps split: sum.split) blast
qed

section \<open>The working blocks exist\<close>

definition working_blocks_ok :: "int \<Rightarrow> ('st, 'f) outer \<Rightarrow> bool" where
  "working_blocks_ok n st \<longleftrightarrow> databuf_ok (dbout (out st)) \<and> n_block (dbout (out st)) = n \<and>
     (\<exists>i j. i \<noteq> j \<and> i < length (blocks (dbout (out st))) \<and> j < length (blocks (dbout (out st))) \<and>
       map (block_info_header (dbout (out st))) (wblk st) = [Inr (Some i), Inr (Some j)] \<and>
       map (block_info_data (dbout (out st))) (wblk st) = [Inr (Some i), Inr (Some j)])"

lemma outer_run_working_blocks:
  assumes r: "outer_run env n_in fws sched st = Some (Inr st')"
    and start: "length (wblk st) = 2" "events (out st) = []" "2 \<le> n_block (dbout (out st))" "databuf_ok (dbout (out st))"
  shows "working_blocks_ok (n_block (dbout (out st))) st'"
proof -
  let ?n = "n_block (dbout (out st))" and ?d = "dbout (out st')"
  from outer_run_shape [OF r] have sh: "buf_shape ?d = buf_shape (dbout (out st))" by (simp add: shape_def)
  then have ok: "databuf_ok ?d" "n_block ?d = ?n"
    using start(4) databuf_ok_buf_shape [OF sh] by (simp_all add: buf_shape_def)
  have len: "int (length (blocks ?d)) = ?n" using ok by (simp add: databuf_ok_def)
  obtain m where m: "length (wblk st') = 2" "block_idx_out (wblk st' ! 0) = int m mod ?n" "block_idx_out (wblk st' ! 1) = (int m + 1) mod ?n"
    using outer_run_ring_order [OF r start(1-3)] by auto
  then obtain x y where xy: "wblk st' = [x, y]" by (auto simp: numeral_2_eq_2 length_Suc_conv)
  have idx: "0 \<le> int m mod ?n" "int m mod ?n < ?n" "0 \<le> (int m + 1) mod ?n" "(int m + 1) mod ?n < ?n" using start(3) by auto
  have "(int m + 1) mod ?n \<noteq> int m mod ?n" using start(3) by (simp add: mod_eq_dvd_iff)
  then have ne: "nat (int m mod ?n) \<noteq> nat ((int m + 1) mod ?n)" using idx by (simp add: nat_eq_iff)
  have "map f (wblk st') = [Inr (Some (nat (int m mod ?n))), Inr (Some (nat ((int m + 1) mod ?n)))]"
    if "f = block_info_header ?d \<or> f = block_info_data ?d" for f
    using that m xy idx ok(2) databuf_pointer(1) [OF ok(1)] by (auto simp: block_info_header_def block_info_data_def)
  moreover have "nat (int m mod ?n) < length (blocks ?d)" "nat ((int m + 1) mod ?n) < length (blocks ?d)" using idx len by linarith+
  ultimately show ?thesis using ok ne unfolding working_blocks_ok_def by blast
qed

text \<open>
  C25: the thread never loses its place in the ring. On a well-formed output buffer of at least two
  blocks, whatever packets arrive and however the waits go, and however the run ends, it never uses a pointer
  to a block that is null or past the end of the buffer, neither for a header nor for the data of a packet, and never meets the two errors
  the code checks for, a negative block index and a buffer without blocks. When the run ends in order, the
  buffer is still well-formed, with as many blocks, and the two working blocks are two different
  blocks of it.
\<close>

theorem working_blocks_point_into_buffer:
  assumes start: "length wblk0 = 2" "events o0 = []" "2 \<le> n_block (dbout o0)" "databuf_ok (dbout o0)"
  shows "outer_thread env n_in hdr0 wblk0 eff0 seq0 n0 oi0 fws sched o0 \<notin>
      {Some (Inl NoBlock), Some (Inl (Fatal ''block_idx_out'')), Some (Inl (Fatal ''n_block''))} \<and>
    (\<forall>st'. outer_thread env n_in hdr0 wblk0 eff0 seq0 n0 oi0 fws sched o0 = Some (Inr st') \<longrightarrow>
      databuf_ok (dbout (out st')) \<and> n_block (dbout (out st')) = n_block (dbout o0) \<and>
      (\<exists>i j. i \<noteq> j \<and> i < length (blocks (dbout (out st'))) \<and> j < length (blocks (dbout (out st'))) \<and>
        map (block_info_header (dbout (out st'))) (wblk st') = [Inr (Some i), Inr (Some j)] \<and>
        map (block_info_data (dbout (out st'))) (wblk st') = [Inr (Some i), Inr (Some j)]))"
proof (cases "run_begin (env_api env) (status_key env) (stat o0)")
  case (Pair mp s)
  show ?thesis
  proof (cases mp)
    case None
    then show ?thesis using Pair by (simp add: outer_thread_def)
  next
    case (Some mp')
    obtain mf prt where mp: "mp' = (mf, prt)" by (cases mp')
    let ?env = "env\<lparr>max_flows := mf, env_port := prt\<rparr>" and ?n = "n_block (dbout o0)"
    let ?st = "outer_locals (env_fp env) wblk0 eff0 seq0 n0 oi0 (o0\<lparr>stat := s, dbout := clear_blocks hdr0 (dbout o0)\<rparr>)"
    have run: "outer_thread env n_in hdr0 wblk0 eff0 seq0 n0 oi0 fws sched o0 = outer_run ?env n_in fws sched ?st"
      using Pair Some mp by (simp add: outer_thread_def)
    have st: "length (wblk ?st) = 2" "events (out ?st) = []" "n_block (dbout (out ?st)) = ?n" "databuf_ok (dbout (out ?st))"
      using start clear_blocks_ok [OF start(4)] by (simp_all add: outer_locals_def)
    then have "2 \<le> n_block (dbout (out ?st))" using start(3) by simp
    note st' = st(1,2) this st(4)
    have "clean_run (outer_run ?env n_in fws sched ?st)" by (rule outer_run_clean [OF st'])
    moreover have "working_blocks_ok ?n t" if "outer_run ?env n_in fws sched ?st = Some (Inr t)" for t
      using outer_run_working_blocks [OF that st'] st(3) by simp
    ultimately show ?thesis unfolding run by (auto simp: clean_run_def ring_fault_def working_blocks_ok_def)
  qed
qed

theorem working_blocks_point_into_buffer_witness:
  "\<exists>st'. outer_thread example_env 24 [] [example_bi 0 0, example_bi 1 1] 0 0 0 example_oi
      [(0, [(HASHPIPE_OK, 0)]), (0, [(HASHPIPE_TIMEOUT, 1), (HASHPIPE_OK, 0)])] [(True, [(0, True, None, False, False, False)], [], \<lambda>_. (0, []), 0)]
      ((out example_outer)\<lparr>stat := [(''MAXFLOWS'', SU4 16)]\<rparr>) = Some (Inr st') \<and>
    databuf_ok (dbout (out st')) \<and> n_block (dbout (out st')) = 3"
proof -
  obtain st' where st': "outer_thread example_env 24 [] [example_bi 0 0, example_bi 1 1] 0 0 0 example_oi
      [(0, [(HASHPIPE_OK, 0)]), (0, [(HASHPIPE_TIMEOUT, 1), (HASHPIPE_OK, 0)])] [(True, [(0, True, None, False, False, False)], [], \<lambda>_. (0, []), 0)]
      ((out example_outer)\<lparr>stat := [(''MAXFLOWS'', SU4 16)]\<rparr>) = Some (Inr st')" using example_run by blast
  let ?o = "(out example_outer)\<lparr>stat := [(''MAXFLOWS'', SU4 16)]\<rparr>"
  have "length [example_bi 0 0, example_bi 1 1] = 2" "events ?o = []" "2 \<le> n_block (dbout ?o)" "databuf_ok (dbout ?o)"
    by (simp_all add: databuf_ok_def example_outer_def)
  from working_blocks_point_into_buffer [OF this, of example_env 24 "[]" 0 0 0 example_oi] st' show ?thesis
    by (auto simp: example_outer_def)
qed

end
