(* ===== verification/Hpguppi_Params.thy ===== *)
theory Hpguppi_Params
  imports Mkfeng Status_Buffer "HOL-Library.Signed_Division"
begin

text \<open>
  The model of the functions of half_hashpipe/hpguppi_params.c that read the parameters of the network
  and of the disk output from the status buffer, and of the number of samples per block. A macro
  \<^verbatim>\<open>get_int\<close>, \<^verbatim>\<open>get_str\<close>, ... is an accessor of the status buffer with a default.
\<close>

section \<open>Network parameters\<close>

text \<open>The fields of the library's \<^verbatim>\<open>struct hashpipe_udp_params\<close> that are set here.\<close>

record hashpipe_udp_params =
  sender :: string
  port :: u32
  packet_size :: u64
  packet_format :: string

record hpguppi_pktsock_params =
  ifname :: string
  ps_port :: u32
  ps_packet_size :: u64
  ps_packet_format :: string
  ps_obsschan :: u32
  ps_obsnchan :: u32
  chperpkt :: u32

text \<open>The comparisons with \<^verbatim>\<open>strncmp\<close>, in their order; both readers have the same ones.\<close>

definition format_packet_size :: "string \<Rightarrow> u64" where
  "format_packet_size fmt =
     (if take 6 fmt = ''PARKES'' then 2056
      else if take 4 fmt = ''1SFA'' then 8224
      else if take 6 fmt = ''FAST4K'' then 4128
      else if take 5 fmt = ''SHORT'' then 544
      else 8208)"

definition hpguppi_read_net_params :: "('st, 'f) status_ops \<Rightarrow> 'st \<Rightarrow> hashpipe_udp_params \<Rightarrow> hashpipe_udp_params" where
  "hpguppi_read_net_params api buf u =
     (let u = u\<lparr>sender := or_else (hgets api buf ''DATAHOST'' 80) ''bee2-10''\<rparr>;
          u = u\<lparr>port := or_else (hgeti4 api buf ''DATAPORT'') 50000\<rparr>;
          u = u\<lparr>packet_format := or_else (hgets api buf ''PKTFMT'' 32) ''GUPPI''\<rparr> in
      u\<lparr>packet_size := format_packet_size (packet_format u)\<rparr>)"

definition hpguppi_read_pktsock_params ::
  "('st, 'f) status_ops \<Rightarrow> 'st \<Rightarrow> hpguppi_pktsock_params \<Rightarrow> hpguppi_pktsock_params" where
  "hpguppi_read_pktsock_params api buf p =
     (let p = p\<lparr>ifname := or_else (hgets api buf ''BINDHOST'' 80) ''eth4''\<rparr>;
          p = p\<lparr>ps_port := or_else (hgeti4 api buf ''BINDPORT'') 60000\<rparr>;
          p = p\<lparr>ps_obsschan := or_else (hgeti4 api buf ''OBSSCHAN'') 0\<rparr>;
          p = p\<lparr>ps_obsnchan := or_else (hgeti4 api buf ''OBSNCHAN'') 64\<rparr>;
          p = p\<lparr>ps_packet_format := or_else (hgets api buf ''PKTFMT'' 32) ''1SFA''\<rparr> in
      p\<lparr>ps_packet_size := format_packet_size (ps_packet_format p)\<rparr>)"

definition hpguppi_read_directio_mode :: "('st, 'f) status_ops \<Rightarrow> 'st \<Rightarrow> u32" where
  "hpguppi_read_directio_mode api buf = or_else (hgeti4 api buf ''DIRECTIO'') 0"

definition hpguppi_read_piperblk :: "('st, 'f) status_ops \<Rightarrow> 'st \<Rightarrow> u32" where
  "hpguppi_read_piperblk api buf = or_else (hgeti4 api buf ''PIPERBLK'') 0"

section \<open>Samples per block\<close>

text \<open>
  The loop shifts a signed number right until it is 1 and counts the shifts; \<open>None\<close> is a loop that does
  not end. The arguments are signed 32-bit numbers such that \<^verbatim>\<open>4 * obsnchan\<close> does not overflow.
\<close>

partial_function (option) halve_loop :: "int \<Rightarrow> nat \<Rightarrow> (int \<times> nat) option" where
  "halve_loop ntime_per_block i =
     (if ntime_per_block \<noteq> 1 then halve_loop (drop_bit 1 ntime_per_block) (Suc i) else Some (ntime_per_block, i))"

definition calc_ntime_per_block :: "int \<Rightarrow> int \<Rightarrow> int cres option" where
  "calc_ntime_per_block max_block_size obsnchan =
     (if 4 * obsnchan = 0 then Some (Inl DivZero)
      else (case halve_loop (max_block_size sdiv (4 * obsnchan)) 0 of None \<Rightarrow> None
        | Some (ntime_per_block, i) \<Rightarrow> Some (Inr (push_bit i ntime_per_block))))"

lemma halve_loop_positive: "halve_loop n i = Some r \<Longrightarrow> 0 < n"
proof (erule halve_loop.raw_induct [where P = "\<lambda>n i r. 0 < n", rotated])
  fix loop :: "int \<Rightarrow> nat \<Rightarrow> (int \<times> nat) option" and n i r
  assume IH: "\<And>n i r. loop n i = Some r \<Longrightarrow> 0 < n"
    and run: "(if n \<noteq> 1 then loop (drop_bit 1 n) (Suc i) else Some (n, i)) = Some r"
  show "0 < n"
  proof (cases "n = 1")
    case False
    then have "0 < drop_bit 1 n" using run by (intro IH) simp
    then show ?thesis by (simp add: drop_bit_eq_div)
  qed simp
qed

lemma halve_loop_power:
  "2 ^ k \<le> n \<Longrightarrow> n < 2 ^ Suc k \<Longrightarrow> halve_loop n i = Some (1, i + k)"
proof (induction k arbitrary: n i)
  case 0
  then have "n = 1" by simp
  then show ?case by (subst halve_loop.simps) simp
next
  case (Suc k)
  have "2 ^ k \<le> drop_bit 1 n" "drop_bit 1 n < 2 ^ Suc k" using Suc.prems by (simp_all add: drop_bit_eq_div)
  then have "halve_loop (drop_bit 1 n) (Suc i) = Some (1, Suc i + k)" by (rule Suc.IH)
  moreover have "(1 :: int) < 2 ^ Suc k" by (rule one_less_power) simp_all
  then have "n \<noteq> 1" using Suc.prems(1) by linarith
  ultimately show ?case by (subst halve_loop.simps) simp
qed

lemma halve_loop_prevpow2:
  assumes "0 < n" "n < 2 ^ 32"
  shows "\<exists>k. halve_loop n 0 = Some (1, k) \<and> push_bit k 1 = uint (prevpow2 (word_of_int n)) \<and> 2 ^ k \<le> n \<and> n < 2 ^ Suc k"
proof -
  have u: "uint (word_of_int n :: u32) = n" using assms by (simp add: uint_word_of_int take_bit_int_eq_self)
  then have "(word_of_int n :: u32) \<noteq> 0" using assms(1) by auto
  then obtain k where k: "unat (prevpow2 (word_of_int n)) = 2 ^ k" "2 ^ k \<le> unat (word_of_int n :: u32)"
      "unat (word_of_int n :: u32) < 2 ^ Suc k" using prevpow2_power by blast
  then have b: "2 ^ k \<le> n" "n < 2 ^ Suc k"
    using k(2,3) [folded of_nat_le_iff [where 'a = int] of_nat_less_iff [where 'a = int]] u by simp_all
  moreover have "uint (prevpow2 (word_of_int n)) = 2 ^ k" using arg_cong [OF k(1), of int] by simp
  ultimately show ?thesis using halve_loop_power [OF b, of 0] by (auto simp: push_bit_eq_mult)
qed

text \<open>
  C39: the loop that rounds the number of samples of a block down to a power of two gives the same
  number as \<^verbatim>\<open>prevpow2\<close>, the largest power of two that fits; but it returns only when at least one
  sample fits, and runs forever otherwise, where \<^verbatim>\<open>prevpow2\<close> gives 0.
\<close>

theorem ntime_per_block_prevpow2:
  assumes "0 < obsnchan" "4 * obsnchan < 2 ^ 31" "\<bar>max_block_size\<bar> < 2 ^ 31"
  shows "if 4 * obsnchan \<le> max_block_size
    then \<exists>k. calc_ntime_per_block max_block_size obsnchan = Some (Inr (2 ^ k)) \<and>
      2 ^ k = uint (prevpow2 (word_of_int (max_block_size div (4 * obsnchan)))) \<and>
      2 ^ k * (4 * obsnchan) \<le> max_block_size \<and> max_block_size < 2 * (2 ^ k * (4 * obsnchan))
    else calc_ntime_per_block max_block_size obsnchan = None"
proof (cases "4 * obsnchan \<le> max_block_size")
  case True
  let ?q = "max_block_size div (4 * obsnchan)"
  have q: "max_block_size sdiv (4 * obsnchan) = ?q" using assms(1) True by (simp add: signed_divide_int_def)
  have "1 * (4 * obsnchan) \<le> max_block_size" using True by simp
  then have pos: "0 < ?q" using assms(1) by (simp add: pos_imp_zdiv_pos_iff)
  have "?q \<le> max_block_size" using assms(1) True zdiv_mono2 [of max_block_size 1 "4 * obsnchan"] by simp
  then have "?q < 2 ^ 32" using assms(3) by simp
  then obtain k where k: "halve_loop ?q 0 = Some (1, k)" "push_bit k 1 = uint (prevpow2 (word_of_int ?q))"
      "2 ^ k \<le> ?q" "?q < 2 ^ Suc k" using halve_loop_prevpow2 [OF pos] by blast
  have split: "?q * (4 * obsnchan) \<le> max_block_size" "max_block_size < (?q + 1) * (4 * obsnchan)"
    using assms(1) div_mult_mod_eq [of max_block_size "4 * obsnchan"] pos_mod_sign [of "4 * obsnchan" max_block_size]
      pos_mod_bound [of "4 * obsnchan" max_block_size] unfolding distrib_right by linarith+
  have "2 ^ k * (4 * obsnchan) \<le> ?q * (4 * obsnchan)" using k(3) assms(1) by (intro mult_right_mono) simp_all
  then have "2 ^ k * (4 * obsnchan) \<le> max_block_size" using split(1) by linarith
  moreover have "(?q + 1) * (4 * obsnchan) \<le> 2 ^ Suc k * (4 * obsnchan)" using k(4) assms(1) by (intro mult_right_mono) simp_all
  then have "max_block_size < 2 ^ Suc k * (4 * obsnchan)" using split(2) by linarith
  ultimately show ?thesis using True assms(1) k(1,2)
    by (auto simp: calc_ntime_per_block_def q push_bit_eq_mult intro!: exI [of _ k])
next
  case False
  have "max_block_size sdiv (4 * obsnchan) \<le> 0"
  proof (cases "max_block_size < 0")
    case True
    then have "0 \<le> \<bar>max_block_size\<bar> div (4 * obsnchan)" using assms(1) by (simp add: pos_imp_zdiv_nonneg_iff)
    then show ?thesis using True assms(1) by (simp add: signed_divide_int_def)
  next
    case nonneg: False
    then have "max_block_size div (4 * obsnchan) = 0" using False by (intro div_pos_pos_trivial) simp_all
    then show ?thesis using nonneg assms(1) by (simp add: signed_divide_int_def)
  qed
  then have "halve_loop (max_block_size sdiv (4 * obsnchan)) 0 = None"
    using halve_loop_positive [of "max_block_size sdiv (4 * obsnchan)" 0] by (metis not_le option.exhaust)
  then show ?thesis using False assms(1) by (simp add: calc_ntime_per_block_def)
qed

theorem ntime_per_block_prevpow2_witness:
  "(\<exists>k. calc_ntime_per_block 0x7ffffff 96 = Some (Inr (2 ^ k)) \<and> 2 ^ k * 384 \<le> (0x7ffffff :: int) \<and> 0x7ffffff < 2 * (2 ^ k * (384 :: int))) \<and>
   calc_ntime_per_block 100 64 = None"
  using ntime_per_block_prevpow2 [of 96 "0x7ffffff"] ntime_per_block_prevpow2 [of 64 100] by auto

end
