(* ===== verification/Hpguppi_Obs_Params.thy ===== *)
theory Hpguppi_Obs_Params
  imports Hpguppi_Params Hpguppi_Time
begin

text \<open>
  The model of \<^verbatim>\<open>hpguppi_read_obs_params\<close> and \<^verbatim>\<open>hpguppi_read_subint_params\<close> of half_hashpipe/hpguppi_params.c,
  which fill the structures of hpguppi_params.h and psrfits.h from the status buffer. An \<^verbatim>\<open>int\<close> is an
  integer; that its arithmetic stays in range is not checked by the code and not part of the model. A
  required keyword that is missing ends the program (\<open>Fatal\<close>). Only the fields that are read or set here
  are in the records. Releasing the arrays of an earlier call (\<^verbatim>\<open>hpguppi_free_psrfits\<close>) has no counterpart;
  \<^verbatim>\<open>NO_PROJECT_DIR\<close> is not defined.
\<close>

section \<open>Structures\<close>

record 'f hpguppi_params =
  packetindex :: int
  drop_frac_avg :: 'f
  drop_frac_tot :: 'f
  drop_frac :: 'f
  packetsize :: int
  n_packets :: int
  n_dropped :: int
  packets_per_block :: int
  stt_valid :: int
  start_pkt :: int
  decimation_factor :: int
  n_bits_adc :: int
  pfb_overlap :: int
  coherent :: int

record 'f hdrinfo =
  obs_mode :: string
  telescope :: string
  observer :: string
  source :: string
  frontend :: string
  backend :: string
  project_id :: string
  date_obs :: string
  ra_str :: string
  dec_str :: string
  poln_type :: string
  poln_order :: string
  track_mode :: string
  cal_mode :: string
  MJD_epoch :: 'f
  dt :: 'f
  fctr :: 'f
  orig_df :: 'f
  df :: 'f
  BW :: 'f
  ra2000 :: 'f
  dec2000 :: 'f
  azimuth :: 'f
  zenith_ang :: 'f
  beam_FWHM :: 'f
  cal_freq :: 'f
  cal_dcyc :: 'f
  cal_phs :: 'f
  feed_angle :: 'f
  scanlen :: 'f
  start_lst :: 'f
  start_sec :: 'f
  chan_dm :: 'f
  fd_sang :: 'f
  fd_xyph :: 'f
  start_day :: int
  scan_number :: int
  nbits :: int
  nbin :: int
  nchan :: int
  npol :: int
  nsblk :: int
  orig_nchan :: int
  summed_polns :: int
  rcvr_polns :: int
  ds_time_fact :: int
  ds_freq_fact :: int
  onlyI :: int
  fd_hand :: int
  be_phase :: int

datatype typecode = TBYTE | TFLOAT

record 'f subint =
  tsubint :: 'f
  offs :: 'f
  lst :: 'f
  ra :: 'f
  decl :: 'f
  glon :: 'f
  glat :: 'f
  feed_ang :: 'f
  pos_ang :: 'f
  par_ang :: 'f
  tel_az :: 'f
  tel_zen :: 'f
  bytes_per_subint :: int
  FITS_typecode :: typecode
  dat_freqs :: "'f list"
  dat_weights :: "'f list"
  dat_offsets :: "'f list"
  dat_scales :: "'f list"

record 'f foldinfo =
  parfile :: string
  n_polyco_sets :: int
  fold_nbin :: int
  tfold :: 'f

record 'f psrfits =
  basefilename :: string
  rows_per_file :: int
  hdr :: "'f hdrinfo"
  sub :: "'f subint"
  fld :: "'f foldinfo"
  overlap :: int

text \<open>
  What the readers are given: status buffer, doubles, slalib, calendar, the time of day, the epoch as a
  long double, and how \<^verbatim>\<open>printf\<close> writes seconds.
\<close>

record ('st, 'f) obs_env =
  api :: "('st, 'f) status_ops"
  real :: "'f real_ops"
  sla :: "'f sla_ops"
  cal :: "'f time_ops"
  now :: "(u64 \<times> u64) option"
  mjd_epoch :: "int \<Rightarrow> int \<Rightarrow> 'f \<Rightarrow> 'f"
  fmt_sec :: "'f \<Rightarrow> string"

definition get_int :: "('st, 'f) obs_env \<Rightarrow> 'st \<Rightarrow> string \<Rightarrow> int \<Rightarrow> int" where
  "get_int e buf key d = (case hgeti4 (api e) buf key of None \<Rightarrow> d | Some w \<Rightarrow> sint w)"

definition get_dbl :: "('st, 'f) obs_env \<Rightarrow> 'st \<Rightarrow> string \<Rightarrow> string \<Rightarrow> 'f" where
  "get_dbl e buf key d = or_else (hgetr8 (api e) buf key) (r_lit (real e) d)"

definition get_lon :: "('st, 'f) obs_env \<Rightarrow> 'st \<Rightarrow> string \<Rightarrow> int \<Rightarrow> int" where
  "get_lon e buf key d = (case hgetr8 (api e) buf key of None \<Rightarrow> d | Some x \<Rightarrow> r_rint (real e) x)"

definition get_str :: "('st, 'f) obs_env \<Rightarrow> 'st \<Rightarrow> string \<Rightarrow> nat \<Rightarrow> string \<Rightarrow> string" where
  "get_str e buf key len d = or_else (hgets (api e) buf key len) d"

text \<open>\<^verbatim>\<open>strstr(hay, needle) != NULL\<close>.\<close>

definition strstr :: "string \<Rightarrow> string \<Rightarrow> bool" where
  "strstr hay needle = list_ex (\<lambda>i. take (length needle) (drop i hay) = needle) [0..<Suc (length hay)]"

section \<open>Parameters of a subintegration\<close>

definition read_packets :: "('st, 'f) obs_env \<Rightarrow> 'st \<Rightarrow> 'f hpguppi_params \<Rightarrow> 'f hpguppi_params" where
  "read_packets e buf g =
     (let r = real e;
          g = g\<lparr>packetindex := get_lon e buf ''PKTIDX'' (-1), packetsize := get_int e buf ''PKTSIZE'' 0,
            n_packets := get_int e buf ''NPKT'' 0, n_dropped := get_int e buf ''NDROP'' 0,
            drop_frac_avg := get_dbl e buf ''DROPAVG'' ''0.0'', drop_frac_tot := get_dbl e buf ''DROPTOT'' ''0.0'',
            packets_per_block := get_int e buf ''BLOCSIZE'' 0\<rparr>;
          g = (if packetsize g > 0 then g\<lparr>packets_per_block := packets_per_block g sdiv packetsize g\<rparr> else g) in
      g\<lparr>drop_frac := (if n_packets g > 0 then r_div r (r_of_int r (n_dropped g)) (r_of_int r (n_packets g)) else r_lit r ''0.0''),
        stt_valid := get_int e buf ''STTVALID'' 0\<rparr>)"

definition read_pointing :: "('st, 'f) obs_env \<Rightarrow> 'st \<Rightarrow> 'f subint \<Rightarrow> 'f subint" where
  "read_pointing e buf s =
     (let r = real e; az = get_dbl e buf ''AZ'' ''0.0'' in
      s\<lparr>tel_az := (if r_less r az (r_lit r ''0.0'') then r_add r az (r_lit r ''360.0'') else az),
        tel_zen := get_dbl e buf ''ZA'' ''0.0'', ra := get_dbl e buf ''RA'' ''0.0'', decl := get_dbl e buf ''DEC'' ''0.0''\<rparr>)"

definition read_hardware :: "('st, 'f) obs_env \<Rightarrow> 'st \<Rightarrow> 'f hpguppi_params \<Rightarrow> 'f hpguppi_params" where
  "read_hardware e buf g = g\<lparr>decimation_factor := get_int e buf ''ACC_LEN'' 0, n_bits_adc := get_int e buf ''NBITSADC'' 8,
     pfb_overlap := get_int e buf ''PFB_OVER'' 4, coherent := get_int e buf ''CODD'' 0\<rparr>"

definition bytes_per_dt :: "'f hdrinfo \<Rightarrow> int" where
  "bytes_per_dt h = nchan h * npol h * nbits h sdiv 8"

definition read_fold_subint :: "('st, 'f) obs_env \<Rightarrow> 'st \<Rightarrow> 'f hpguppi_params \<Rightarrow> 'f psrfits \<Rightarrow> 'f psrfits cres" where
  "read_fold_subint e buf g p =
     (let r = real e; mode = obs_mode (hdr p) in
      if strstr ''PSR'' mode \<or> strstr ''CAL'' mode then
        Inr (p\<lparr>sub := (sub p)\<lparr>tsubint := get_dbl e buf ''TSUBINT'' ''0.0'', offs := get_dbl e buf ''OFFS_SUB'' ''0.0''\<rparr>,
          fld := (fld p)\<lparr>n_polyco_sets := get_int e buf ''NPOLYCO'' 0\<rparr>\<rparr>)
      else if bytes_per_dt (hdr p) = 0 then Inl DivZero
      else Inr (p\<lparr>sub := (sub p)\<lparr>offs := r_add r
            (r_mul r (dt (hdr p)) (r_of_int r (packetindex g * packetsize g sdiv bytes_per_dt (hdr p))))
            (r_mul r (r_lit r ''0.5'') (tsubint (sub p)))\<rparr>,
          fld := (fld p)\<lparr>n_polyco_sets := 0\<rparr>\<rparr>))"

text \<open>\<open>old\<close> is what the local variables of the date hold when the time of day cannot be read.\<close>

definition read_lst :: "('st, 'f) obs_env \<Rightarrow> int \<times> int \<times> 'f \<Rightarrow> 'f subint \<Rightarrow> 'f subint" where
  "read_lst e old s =
     (let r = real e in case get_current_mjd (cal e) (now e) old of (rc, imjd, smjd, off) \<Rightarrow>
        let m = r_add r (r_of_int r imjd) (r_div r (r_add r (r_of_int r smjd) off) (r_lit r ''86400.0'')) in
        s\<lparr>lst := r_of_int r (snd (get_current_lst r (sla e) m))\<rparr>)"

definition galactic :: "('st, 'f) obs_env \<Rightarrow> 'f subint \<Rightarrow> 'f subint" where
  "galactic e s =
     (let r = real e; rad = r_lit r ''DEGTORAD''; deg = r_lit r ''RADTODEG'' in
      case slaEqgal (sla e) (r_mul r (ra s) rad) (r_mul r (decl s) rad) of (l, b) \<Rightarrow>
        s\<lparr>feed_ang := r_lit r ''0.0'', pos_ang := r_lit r ''0.0'', par_ang := r_lit r ''0.0'',
          glon := r_mul r l deg, glat := r_mul r b deg\<rparr>)"

definition hpguppi_read_subint_params ::
  "('st, 'f) obs_env \<Rightarrow> int \<times> int \<times> 'f \<Rightarrow> 'st \<Rightarrow> 'f hpguppi_params \<Rightarrow> 'f psrfits \<Rightarrow> ('f hpguppi_params \<times> 'f psrfits) cres" where
  "hpguppi_read_subint_params e old buf g p =
     (let g = read_packets e buf g;
          p = p\<lparr>sub := read_pointing e buf (sub p)\<rparr>;
          g = read_hardware e buf g in
      cbind (read_fold_subint e buf g p) (\<lambda>p.
        Inr (g, p\<lparr>sub := galactic e (read_lst e old (sub p))\<rparr>)))"

section \<open>Parameters of an observation\<close>

text \<open>The keywords without which the program ends.\<close>

definition required :: "bool \<Rightarrow> string \<Rightarrow> unit cres" where
  "required missing key = (if missing then Inl (Fatal (key @ '' is required!'')) else Inr ())"

definition read_band :: "('st, 'f) obs_env \<Rightarrow> 'st \<Rightarrow> 'f hdrinfo \<Rightarrow> 'f hdrinfo cres" where
  "read_band e buf h =
     (let r = real e; zero = r_lit r ''0.0''; bw = get_dbl e buf ''OBSBW'' ''0.0''; nch = get_int e buf ''OBSNCHAN'' 0;
          np = get_int e buf ''NPOL'' 0; nb = get_int e buf ''NBITS'' 0; tb = get_dbl e buf ''TBIN'' ''0.0'';
          df0 = get_dbl e buf ''CHAN_BW'' ''0.0''; df1 = (if r_eq r df0 zero then r_div r bw (r_of_int r nch) else df0) in
      cbind (required (r_eq r bw zero) ''OBSBW'') (\<lambda>_. cbind (required (nch = 0) ''OBSNCHAN'') (\<lambda>_.
      cbind (required (np = 0) ''NPOL'') (\<lambda>_. cbind (required (nb = 0) ''NBITS'') (\<lambda>_. cbind (required (r_eq r tb zero) ''TBIN'') (\<lambda>_.
      Inr (h\<lparr>ds_time_fact := get_int e buf ''DS_TIME'' 1, ds_freq_fact := get_int e buf ''DS_FREQ'' 1,
        onlyI := get_int e buf ''ONLY_I'' 0, fctr := get_dbl e buf ''OBSFREQ'' ''0.0'', BW := bw, nchan := nch, npol := np,
        nbits := nb, dt := tb, df := df1, scanlen := get_dbl e buf ''SCANLEN'' ''0.0'', rcvr_polns := get_int e buf ''NRCVR'' 2,
        orig_df := df1, orig_nchan := nch\<rparr>)))))))"

definition read_observation :: "('st, 'f) obs_env \<Rightarrow> 'st \<Rightarrow> 'f hdrinfo \<Rightarrow> 'f hdrinfo" where
  "read_observation e buf h =
     (let h = h\<lparr>telescope := get_str e buf ''TELESCOP'' 24 ''GBT'', observer := get_str e buf ''OBSERVER'' 24 ''Unknown'',
            source := get_str e buf ''SRC_NAME'' 24 ''Unknown'', frontend := get_str e buf ''FRONTEND'' 24 ''Unknown'',
            backend := get_str e buf ''BACKEND'' 24 ''GUPPI'', project_id := get_str e buf ''PROJID'' 24 ''Unknown'',
            poln_type := get_str e buf ''FD_POLN'' 8 ''Unknown'', poln_order := get_str e buf ''POL_TYPE'' 16 ''Unknown'',
            scan_number := get_int e buf ''SCANNUM'' 1\<rparr>;
          h = h\<lparr>summed_polns := (if poln_order h = ''AA+BB'' \<or> poln_order h = ''INTEN'' then 1 else 0),
            track_mode := get_str e buf ''TRK_MODE'' 16 ''Unknown'', ra_str := get_str e buf ''RA_STR'' 16 ''Unknown'',
            dec_str := get_str e buf ''DEC_STR'' 16 ''Unknown'', cal_mode := get_str e buf ''CAL_MODE'' 8 ''Unknown''\<rparr>;
          h = (if cal_mode h \<noteq> ''OFF'' then h\<lparr>cal_freq := get_dbl e buf ''CAL_FREQ'' ''25.0'',
            cal_dcyc := get_dbl e buf ''CAL_DCYC'' ''0.5'', cal_phs := get_dbl e buf ''CAL_PHS'' ''0.0''\<rparr> else h) in
      h\<lparr>obs_mode := get_str e buf ''OBS_MODE'' 24 ''Unknown''\<rparr>)"

definition fold_mode :: "string \<Rightarrow> bool" where
  "fold_mode mode \<longleftrightarrow> strstr ''FOLD'' mode \<or> strstr ''PSR'' mode \<or> strstr ''CAL'' mode"

definition read_fold :: "('st, 'f) obs_env \<Rightarrow> 'st \<Rightarrow> 'f psrfits \<Rightarrow> 'f psrfits" where
  "read_fold e buf p =
     (let f = (fld p)\<lparr>fold_nbin := get_int e buf ''NBIN'' 256, tfold := get_dbl e buf ''TFOLD'' ''30.0'',
            parfile := get_str e buf ''PARFILE'' 256 []\<rparr> in
      p\<lparr>fld := f, hdr := (hdr p)\<lparr>nbin := (if fold_mode (obs_mode (hdr p)) then fold_nbin f else 1)\<rparr>\<rparr>)"

definition read_start :: "('st, 'f) obs_env \<Rightarrow> 'st \<Rightarrow> 'f hdrinfo \<Rightarrow> 'f hdrinfo" where
  "read_start e buf h =
     (let r = real e; mjd_d = get_int e buf ''STT_IMJD'' 0; mjd_s = get_int e buf ''STT_SMJD'' 0;
          mjd_fs = get_dbl e buf ''STT_OFFS'' ''0.0'' in
      h\<lparr>MJD_epoch := mjd_epoch e mjd_d mjd_s mjd_fs, start_day := mjd_d, start_sec := r_add r (r_of_int r mjd_s) mjd_fs\<rparr>)"

text \<open>File names: \<open>printf_d w\<close> is \<^verbatim>\<open>%0wd\<close>; a name that does not fit in its array is \<open>Overrun\<close>.\<close>

definition printf_d :: "nat \<Rightarrow> int \<Rightarrow> string" where
  "printf_d w n = (let ds = dec (nat \<bar>n\<bar>); sign = (if n < 0 then ''-'' else []) in
     sign @ replicate (w - length sign - length ds) (CHR ''0'') @ ds)"

definition tolower :: "char \<Rightarrow> char" where
  "tolower c = (let k = of_char c :: nat in if 65 \<le> k \<and> k \<le> 90 then char_of (k + 32) else c)"

definition fit_in :: "nat \<Rightarrow> string \<Rightarrow> string cres" where
  "fit_in cap s = (if length s < cap then Inr s else Inl Overrun)"

definition base_name :: "('st, 'f) obs_env \<Rightarrow> int \<Rightarrow> 'f hdrinfo \<Rightarrow> string cres" where
  "base_name e pkt h =
     (let be = map tolower (take 24 (backend h)) in
      fit_in 200 (if strstr ''CAL'' (obs_mode h)
        then be @ ''_'' @ printf_d 5 (start_day h) @ ''_'' @ source h @ ''_'' @ printf_d 4 (scan_number h) @ ''_cal''
        else be @ ''_'' @ printf_d 5 (start_day h) @ ''_'' @ printf_d 5 (r_trunc (real e) (start_sec h)) @ ''_'' @
          printf_d 6 (pkt sdiv 16384) @ ''_'' @ source h @ ''_'' @ printf_d 4 (scan_number h)))"

definition full_name :: "string \<Rightarrow> string \<Rightarrow> int \<Rightarrow> 'f hdrinfo \<Rightarrow> string \<Rightarrow> string cres" where
  "full_name dir banknam codd h base =
     (let bank = (if banknam = [] then ''.'' else banknam) in
      fit_in 200 (dir @ ''/'' @ project_id h @ ''/'' @ backend h @ (if codd \<noteq> 0 then ''_CODD'' else []) @ ''/'' @
        [last bank] @ ''/'' @ base))"

definition read_date :: "('st, 'f) obs_env \<Rightarrow> int \<times> int \<times> 'f \<Rightarrow> 'f hdrinfo \<Rightarrow> 'f hdrinfo cres" where
  "read_date e old h = (case datetime_from_mjd (real e) (sla e) (MJD_epoch h) old of (rc, (yyyy, mm, dd), (ho, mi, s)) \<Rightarrow>
     cbind (fit_in 24 (printf_d 4 (yyyy smod 10000) @ ''-'' @ printf_d 2 (mm smod 100) @ ''-'' @ printf_d 2 (dd smod 100) @ ''T'' @
       printf_d 2 (ho smod 24) @ '':'' @ printf_d 2 (mi smod 60) @ '':'' @ fmt_sec e s)) (\<lambda>d. Inr (h\<lparr>date_obs := d\<rparr>)))"

definition set_obs_params_gb :: "('st, 'f) obs_env \<Rightarrow> 'st \<Rightarrow> 'f hdrinfo \<Rightarrow> 'f hdrinfo" where
  "set_obs_params_gb e buf h = h\<lparr>fd_hand := get_int e buf ''FD_HAND'' (-1), fd_sang := get_dbl e buf ''FD_SANG'' ''45.0'',
     fd_xyph := get_dbl e buf ''FD_XYPH'' ''0.0'', be_phase := get_int e buf ''BE_PHASE'' (-1),
     beam_FWHM := get_dbl e buf ''BEAMFWHM'' ''65.0''\<rparr>"

section \<open>Rows and arrays of a file\<close>

definition PSRFITS_MAXFILELEN_SEARCH :: int where [cconst]: "PSRFITS_MAXFILELEN_SEARCH = 10"
definition PSRFITS_MAXFILELEN_FOLD :: int where [cconst]: "PSRFITS_MAXFILELEN_FOLD = 1"

definition file_rows :: "('st, 'f) obs_env \<Rightarrow> 'st \<Rightarrow> 'f psrfits \<Rightarrow> 'f psrfits cres" where
  "file_rows e buf p =
     (let r = real e; h = hdr p; fmode = fold_mode (obs_mode h); bytes = get_int e buf ''BLOCSIZE'' 0 in
      if bytes_per_dt h = 0 then Inl DivZero
      else let nsb = bytes sdiv bytes_per_dt h;
               s = (sub p)\<lparr>bytes_per_subint := bytes, FITS_typecode := TBYTE, tsubint := r_mul r (r_of_int r nsb) (dt h)\<rparr>;
               s = (if fmode then s\<lparr>FITS_typecode := TFLOAT, tsubint := get_dbl e buf ''TSUBINT'' ''0.0'',
                   bytes_per_subint := 4 * nbin h * nchan h * npol h\<rparr> else s);
               max_bytes = (if fmode then PSRFITS_MAXFILELEN_FOLD * 1073741824 sdiv 8 else PSRFITS_MAXFILELEN_SEARCH * 1073741824);
               p = p\<lparr>hdr := h\<lparr>nsblk := nsb\<rparr>, sub := s\<rparr> in
        Inr (if bytes_per_subint s \<noteq> 0
          then p\<lparr>rows_per_file := ds_freq_fact h * ds_time_fact h * (if onlyI h \<noteq> 0 then 4 else 1) * max_bytes sdiv bytes_per_subint s\<rparr>
          else p))"

text \<open>
  The loop that fills the offsets or the scales: for each polarisation the value of its keyword, in
  all its channels. \<open>xs\<close> is the new array with whatever it holds.
\<close>

definition fill_pol :: "nat \<Rightarrow> (nat \<Rightarrow> 'f) \<Rightarrow> nat \<Rightarrow> 'f list \<Rightarrow> 'f list" where
  "fill_pol n v ii xs = fold (\<lambda>jj xs. xs[ii * n + jj := v ii]) [0..<n] xs"

definition fill_pols :: "nat \<Rightarrow> nat \<Rightarrow> (nat \<Rightarrow> 'f) \<Rightarrow> 'f list \<Rightarrow> 'f list" where
  "fill_pols n np v xs = fold (fill_pol n v) [0..<np] xs"

definition file_arrays :: "('st, 'f) obs_env \<Rightarrow> 'st \<Rightarrow> 'f list \<Rightarrow> 'f list \<Rightarrow> 'f psrfits \<Rightarrow> 'f psrfits" where
  "file_arrays e buf offs0 scales0 p =
     (let r = real e; h = hdr p; n = nat (nchan h); np = nat (npol h);
          dtmp = r_sub r (fctr h) (r_mul r (r_lit r ''0.5'') (BW h));
          foffs = r_lit r (if get_int e buf ''CODD'' 0 \<noteq> 0 then ''0.5'' else ''0.0'') in
      p\<lparr>sub := (sub p)\<lparr>
        dat_freqs := map (\<lambda>ii. r_float r (r_add r dtmp (r_mul r (r_add r (r_of_int r (int ii)) foffs) (df h)))) [0..<n],
        dat_weights := replicate n (r_float r (r_lit r ''1.0'')),
        dat_offsets := fill_pols n np (\<lambda>ii. r_float r (get_dbl e buf (''OFFSET'' @ dec ii) ''0.0'')) offs0,
        dat_scales := fill_pols n np (\<lambda>ii. r_float r (get_dbl e buf (''SCALE'' @ dec ii) ''1.0'')) scales0\<rparr>\<rparr>)"

text \<open>
  The reader: \<open>old\<close> are the values of the local variables of dates without initial value, \<open>offs0\<close> and
  \<open>scales0\<close> the contents of the new arrays.
\<close>

definition hpguppi_read_obs_params ::
  "('st, 'f) obs_env \<Rightarrow> int \<times> int \<times> 'f \<Rightarrow> 'f list \<Rightarrow> 'f list \<Rightarrow> 'st \<Rightarrow> 'f hpguppi_params \<Rightarrow> 'f psrfits \<Rightarrow>
     ('f hpguppi_params \<times> 'f psrfits) cres" where
  "hpguppi_read_obs_params e old offs0 scales0 buf g p =
     cbind (read_band e buf (hdr p)) (\<lambda>h.
     let dir = get_str e buf ''DATADIR'' 200 ''.''; banknam = get_str e buf ''BANKNAM'' 64 ''.'';
         p = read_fold e buf (p\<lparr>hdr := read_observation e buf h\<rparr>);
         g = g\<lparr>coherent := get_int e buf ''CODD'' 0, start_pkt := get_lon e buf ''PKTSTART'' 0\<rparr>;
         p = p\<lparr>overlap := get_int e buf ''OVERLAP'' 0,
           hdr := read_start e buf ((hdr p)\<lparr>chan_dm := get_dbl e buf ''CHAN_DM'' ''0.0''\<rparr>)\<rparr> in
     cbind (base_name e (start_pkt g) (hdr p)) (\<lambda>base.
     cbind (full_name dir banknam (coherent g) (hdr p) base) (\<lambda>name.
     cbind (read_date e old (hdr p)) (\<lambda>h.
     cbind (file_rows e buf (p\<lparr>basefilename := name, hdr := set_obs_params_gb e buf h\<rparr>)) (\<lambda>p.
     cbind (hpguppi_read_subint_params e old buf g (file_arrays e buf offs0 scales0 p)) (\<lambda>(g, p).
       let s = sub p in
       Inr (g, p\<lparr>hdr := (hdr p)\<lparr>azimuth := tel_az s, zenith_ang := tel_zen s, ra2000 := ra s, dec2000 := decl s,
         start_lst := lst s, feed_angle := feed_ang s\<rparr>\<rparr>)))))))"

section \<open>What the readers guarantee\<close>

lemma required_iff [simp]: "required m key = Inr y \<longleftrightarrow> \<not> m"
  by (simp add: required_def split: if_splits)

text \<open>The band is never read without bandwidth, channels, polarisations, bits and sample time.\<close>

lemma read_band_required:
  assumes "read_band e buf h = Inr h'"
  shows "\<not> r_eq (real e) (BW h') (r_lit (real e) ''0.0'')" "nchan h' \<noteq> 0" "npol h' \<noteq> 0" "nbits h' \<noteq> 0"
    "\<not> r_eq (real e) (dt h') (r_lit (real e) ''0.0'')" "orig_nchan h' = nchan h'" "orig_df h' = df h'"
  using assms unfolding read_band_def Let_def cbind_eq_Inr_iff by (elim exE conjE, simp, clarsimp)+

text \<open>
  The arguments of \<^verbatim>\<open>strstr\<close> are the wrong way round: the mode is searched in the word, so only a mode
  that is part of one of the words selects folding, in particular none longer than four characters.
\<close>

lemma strstr_length: "strstr hay needle \<Longrightarrow> length needle \<le> length hay"
  by (auto simp: strstr_def list_ex_iff dest!: arg_cong [where f = length])

lemma fold_mode_short: "fold_mode mode \<Longrightarrow> length mode \<le> 4"
  by (auto simp: fold_mode_def dest!: strstr_length)

lemma fold_mode_examples: "fold_mode ''PSR''" "fold_mode []" "fold_mode ''L''" "\<not> fold_mode ''COHERENT_FOLD''" "\<not> fold_mode ''PSR_FOLD''"
  by (simp_all add: fold_mode_def strstr_def upt_rec)

text \<open>The arrays hold, for every polarisation and channel, the value of the keyword of the polarisation.\<close>

lemma fill_pol_nth:
  assumes "k < length xs"
  shows "length (fill_pol n v ii xs) = length xs"
    "fill_pol n v ii xs ! k = (if ii * n \<le> k \<and> k < ii * n + n then v ii else xs ! k)"
proof -
  have "length (fold (\<lambda>jj xs. xs[ii * n + jj := v ii]) [0..<m] xs) = length xs \<and>
      fold (\<lambda>jj xs. xs[ii * n + jj := v ii]) [0..<m] xs ! k = (if ii * n \<le> k \<and> k < ii * n + m then v ii else xs ! k)" for m
  proof (induction m)
    case (Suc m)
    then show ?case using assms by (cases "k = ii * n + m") auto
  qed auto
  then show "length (fill_pol n v ii xs) = length xs"
    "fill_pol n v ii xs ! k = (if ii * n \<le> k \<and> k < ii * n + n then v ii else xs ! k)" by (simp_all add: fill_pol_def)
qed

lemma fill_pols_nth:
  assumes "c < n" "ii < np" "length xs = n * np"
  shows "fill_pols n np v xs ! (ii * n + c) = v ii"
proof -
  have k: "ii * n + c < length xs" using row_major_less [of ii np c n] assms by (simp add: mult.commute)
  have "length (fold (fill_pol n v) [0..<m] xs) = length xs \<and>
      (ii < m \<longrightarrow> fold (fill_pol n v) [0..<m] xs ! (ii * n + c) = v ii)" for m
  proof (induction m)
    case (Suc m)
    let ?ys = "fold (fill_pol n v) [0..<m] xs"
    have same: "(m * n \<le> ii * n + c \<and> ii * n + c < m * n + n) \<longleftrightarrow> ii = m"
    proof (cases ii m rule: linorder_cases)
      case less
      then have "Suc ii * n \<le> m * n" by (intro mult_le_mono1) simp
      then show ?thesis using less assms(1) by simp
    next
      case greater
      then have "Suc m * n \<le> ii * n" by (intro mult_le_mono1) simp
      then show ?thesis using greater by simp
    qed (use assms(1) in simp)
    show ?case using Suc fill_pol_nth [of "ii * n + c" ?ys n v m] k same by (auto simp: less_Suc_eq)
  qed simp
  then show ?thesis using assms(2) by (simp add: fill_pols_def)
qed

end
