(* ===== verification/Hpguppi_Rawspec.thy ===== *)
theory Hpguppi_Rawspec
  imports Prelude
begin

text \<open>
  The model of half_hashpipe/hpguppi_rawspec.c: the power spectra that the rawspec library computes
  are written by one thread per dump. The library fills the buffer of an output product between two
  calls of the callback; the first waits for the thread that still writes the buffer, the second
  starts the next one. The results of \<^verbatim>\<open>write\<close> and of \<^verbatim>\<open>pthread_create\<close> are inputs, joining a thread
  that has not ended is \<open>Blocked\<close>.
\<close>

section \<open>Writing a buffer\<close>

text \<open>
  One iteration of the loop: \<open>pos\<close> bytes of the buffer have been written to the file, and \<^verbatim>\<open>write\<close> returns
  \<open>r\<close>, the number of bytes it has written, or -1 (the result is then \<open>None\<close>).
\<close>

definition write_once :: "int \<Rightarrow> u8 list \<Rightarrow> nat \<Rightarrow> u8 list \<Rightarrow> (nat \<times> u8 list) option" where
  "write_once r buf pos out = (if r = -1 then None else Some (pos + nat r, out @ take (nat r) (drop pos buf)))"

text \<open>The schedule \<open>rs\<close> has the results of the calls; the result of the function is -1 or the size.\<close>

fun write_all :: "int list \<Rightarrow> u8 list \<Rightarrow> nat \<Rightarrow> u8 list \<Rightarrow> (int \<times> u8 list) cres" where
  "write_all rs buf pos out =
     (if length buf - pos = 0 then Inr (int (length buf), out)
      else (case rs of [] \<Rightarrow> Inl Blocked
        | r # rs' \<Rightarrow> (case write_once r buf pos out of None \<Rightarrow> Inr (-1, out)
            | Some (pos', out') \<Rightarrow> write_all rs' buf pos' out')))"

declare write_all.simps [simp del]

text \<open>A call of \<^verbatim>\<open>write\<close> that makes progress and does not write more than it is given.\<close>

definition progress :: "nat \<Rightarrow> int \<Rightarrow> bool" where
  "progress n r \<longleftrightarrow> 0 < r \<and> nat r \<le> n"

lemma write_all_complete:
  assumes "\<forall>r \<in> set rs. 0 < r" "length buf - pos \<le> length rs"
  shows "write_all rs buf pos out = Inr (int (length buf), out @ drop pos buf)"
  using assms
proof (induction rs arbitrary: pos out)
  case Nil
  then show ?case by (subst write_all.simps) simp
next
  case (Cons r rs)
  show ?case
  proof (cases "length buf - pos = 0")
    case True
    then show ?thesis by (subst write_all.simps) simp
  next
    case False
    have "length buf - (pos + nat r) \<le> length rs" using Cons.prems by auto
    then have "write_all rs buf (pos + nat r) (out @ take (nat r) (drop pos buf)) =
        Inr (int (length buf), (out @ take (nat r) (drop pos buf)) @ drop (pos + nat r) buf)"
      using Cons.prems(1) by (intro Cons.IH) simp_all
    moreover have "take (nat r) (drop pos buf) @ drop (pos + nat r) buf = drop pos buf"
      by (metis append_take_drop_id add.commute drop_drop)
    ultimately show ?thesis using False Cons.prems(1) by (subst write_all.simps) (simp add: write_once_def)
  qed
qed

section \<open>Output products\<close>

text \<open>
  The output thread of a product as the operating system has it: none, writing with \<open>pos\<close> bytes done,
  or ended and not yet joined. \<open>sent\<close> is what the descriptor has received.
\<close>

datatype output_thread = NoThread | Writing nat | Ended

record rawspec_callback_data =
  fd :: int
  output_thread_valid :: bool
  output_thread :: output_thread
  h_pwrbuf :: "u8 list"
  sent :: "u8 list"

text \<open>The arguments of the system call that sets an I/O priority: the class in the upper bits, the level below.\<close>

datatype ioprio_class = IOPRIO_CLASS_NONE | IOPRIO_CLASS_RT | IOPRIO_CLASS_BE | IOPRIO_CLASS_IDLE
datatype ioprio_who = IOPRIO_WHO_PROCESS | IOPRIO_WHO_PGRP | IOPRIO_WHO_USER

primrec ioprio_class_value :: "ioprio_class \<Rightarrow> u32" where
  "ioprio_class_value IOPRIO_CLASS_NONE = 0"
| "ioprio_class_value IOPRIO_CLASS_RT = 1"
| "ioprio_class_value IOPRIO_CLASS_BE = 2"
| "ioprio_class_value IOPRIO_CLASS_IDLE = 3"

primrec ioprio_who_value :: "ioprio_who \<Rightarrow> u32" where
  "ioprio_who_value IOPRIO_WHO_PROCESS = 1"
| "ioprio_who_value IOPRIO_WHO_PGRP = 2"
| "ioprio_who_value IOPRIO_WHO_USER = 3"

definition IOPRIO_CLASS_SHIFT :: nat where [cconst]: "IOPRIO_CLASS_SHIFT = 13"

definition IOPRIO_PRIO_VALUE :: "ioprio_class \<Rightarrow> u32 \<Rightarrow> u32" where
  "IOPRIO_PRIO_VALUE cls dat = push_bit IOPRIO_CLASS_SHIFT (ioprio_class_value cls) OR dat"

definition ioprio_set :: "ioprio_who \<Rightarrow> u32 \<Rightarrow> u32 \<Rightarrow> u32 \<times> u32 \<times> u32" where
  "ioprio_set which who ioprio = (ioprio_who_value which, who, ioprio)"

lemma ioprio_class_value_less: "unat (ioprio_class_value c) < 4"
  by (cases c) simp_all

lemma ioprio_class_value_inj: "ioprio_class_value c = ioprio_class_value c' \<Longrightarrow> c = c'"
  by (cases c; cases c') simp_all

text \<open>The priority word holds both arguments apart as long as the level is below the class bits.\<close>

lemma ioprio_prio_value_fields:
  assumes "unat d < 2 ^ 13"
  shows "drop_bit 13 (IOPRIO_PRIO_VALUE c d) = ioprio_class_value c" "take_bit 13 (IOPRIO_PRIO_VALUE c d) = d"
proof -
  have d: "take_bit 13 d = d"
    by (rule word_unat_eq_iff [THEN iffD2]) (use assms in \<open>simp add: unsigned_take_bit_eq take_bit_nat_eq_self\<close>)
  then have "drop_bit 13 d = 0" by (metis drop_bit_take_bit diff_self_eq_0 take_bit_0)
  moreover have "drop_bit 13 (push_bit 13 (ioprio_class_value c)) = ioprio_class_value c" by (cases c) simp_all
  moreover have "take_bit 13 (push_bit 13 (ioprio_class_value c)) = 0" by (simp add: take_bit_push_bit)
  ultimately show "drop_bit 13 (IOPRIO_PRIO_VALUE c d) = ioprio_class_value c" "take_bit 13 (IOPRIO_PRIO_VALUE c d) = d"
    using d by (simp_all add: IOPRIO_PRIO_VALUE_def cconst)
qed

text \<open>The call the thread starts with; a failure of it is reported and changes nothing.\<close>

definition dump_thread_ioprio :: "u32 \<times> u32 \<times> u32" where
  "dump_thread_ioprio = ioprio_set IOPRIO_WHO_PROCESS 0 (IOPRIO_PRIO_VALUE IOPRIO_CLASS_BE 7)"

lemma dump_thread_ioprio_words: "dump_thread_ioprio = (1, 0, 16391)"
  by (simp add: dump_thread_ioprio_def ioprio_set_def IOPRIO_PRIO_VALUE_def cconst)

text \<open>The body of the thread after that call: it writes the buffer; a failure is not reported.\<close>

definition rawspec_dump_file_thread_func :: "int list \<Rightarrow> rawspec_callback_data \<Rightarrow> rawspec_callback_data cres" where
  "rawspec_dump_file_thread_func rs cb =
     cbind (write_all rs (h_pwrbuf cb) 0 (sent cb)) (\<lambda>(rv, f). Inr (cb\<lparr>sent := f, output_thread := Ended\<rparr>))"

definition pthread_join :: "rawspec_callback_data \<Rightarrow> rawspec_callback_data cres" where
  "pthread_join cb = (case output_thread cb of NoThread \<Rightarrow> Inr cb | Writing pos \<Rightarrow> Inl Blocked
     | Ended \<Rightarrow> Inr (cb\<lparr>output_thread := NoThread\<rparr>))"

datatype callback_type = RAWSPEC_CALLBACK_PRE_DUMP | RAWSPEC_CALLBACK_POST_DUMP

text \<open>\<open>rc\<close> is the result of \<^verbatim>\<open>pthread_create\<close>.\<close>

definition rawspec_dump_callback :: "int \<Rightarrow> callback_type \<Rightarrow> rawspec_callback_data \<Rightarrow> rawspec_callback_data cres" where
  "rawspec_dump_callback rc ct cb =
     (if ct = RAWSPEC_CALLBACK_PRE_DUMP then
        (if output_thread_valid cb
         then cbind (pthread_join cb) (\<lambda>cb. Inr (cb\<lparr>output_thread_valid := False\<rparr>)) else Inr cb)
      else if rc \<noteq> 0 then Inr cb
      else Inr (cb\<lparr>output_thread := Writing 0, output_thread_valid := True\<rparr>))"

definition stop_product :: "rawspec_callback_data \<Rightarrow> rawspec_callback_data cres" where
  "stop_product cb =
     cbind (if output_thread_valid cb
         then cbind (pthread_join cb) (\<lambda>cb. Inr (cb\<lparr>output_thread_valid := False\<rparr>)) else Inr cb) (\<lambda>cb.
       Inr (if fd cb \<noteq> -1 then cb\<lparr>fd := -1\<rparr> else cb))"

text \<open>The loop over the products, after the library has waited for its own work.\<close>

fun rawspec_stop :: "rawspec_callback_data list \<Rightarrow> rawspec_callback_data list cres" where
  "rawspec_stop [] = Inr []"
| "rawspec_stop (cb # cbs) = cbind (stop_product cb) (\<lambda>cb'. cbind (rawspec_stop cbs) (\<lambda>cbs'. Inr (cb' # cbs')))"

lemma dump_thread_complete:
  assumes "\<forall>r \<in> set rs. 0 < r" "length (h_pwrbuf c) \<le> length rs"
  shows "rawspec_dump_file_thread_func rs c = Inr (c\<lparr>sent := sent c @ h_pwrbuf c, output_thread := Ended\<rparr>)"
  using write_all_complete [OF assms(1), of "h_pwrbuf c" 0 "sent c"] assms(2) by (simp add: rawspec_dump_file_thread_func_def)

lemma rawspec_stop_closes:
  "rawspec_stop cbs = Inr cbs' \<Longrightarrow> length cbs' = length cbs \<and> (\<forall>c \<in> set cbs'. fd c = -1 \<and> \<not> output_thread_valid c)"
proof (induction cbs arbitrary: cbs')
  case (Cons c cbs)
  then obtain d ds where d: "stop_product c = Inr d" "rawspec_stop cbs = Inr ds" "cbs' = d # ds" by (auto simp: cres_simps)
  obtain x where x: "\<not> output_thread_valid x" "d = (if fd x \<noteq> -1 then x\<lparr>fd := -1\<rparr> else x)"
    using d(1) unfolding stop_product_def cbind_eq_Inr_iff by (fastforce simp: cres_simps split: if_splits)
  then have "fd d = -1" "\<not> output_thread_valid d" by simp_all
  then show ?case using Cons.IH [OF d(2)] d(3) by simp
qed simp

section \<open>Filterbank headers\<close>

text \<open>
  The fields of the library's headers that are used here; \<open>'f\<close> is the type of doubles, the expressions
  on them are parameters.
\<close>

record 'f rawspec_raw_hdr =
  telescop :: string
  ra :: 'f
  dec_deg :: 'f
  mjd :: 'f
  beam_id :: int
  nbeam :: int
  src_name :: string
  obsbw :: 'f
  obsfreq :: 'f
  obsnchan :: int
  tbin :: 'f

record 'f fb_hdr =
  telescope_id :: int
  src_raj :: 'f
  src_dej :: 'f
  tstart :: 'f
  ibeam :: int
  nbeams :: int
  source_name :: string
  foff :: 'f
  fch1 :: 'f
  fb_nchans :: int
  tsamp :: 'f

record 'f rawspec_ops =
  fb_telescope_id :: "string \<Rightarrow> int"
  fp_foff :: "'f \<Rightarrow> int \<Rightarrow> nat \<Rightarrow> 'f"
  fp_fch1 :: "'f \<Rightarrow> 'f \<Rightarrow> int \<Rightarrow> nat \<Rightarrow> 'f \<Rightarrow> 'f"
  fp_tsamp :: "'f \<Rightarrow> nat \<Rightarrow> nat \<Rightarrow> 'f"

text \<open>\<open>nc\<close> is \<^verbatim>\<open>Nc\<close>, \<open>nts\<close> and \<open>nas\<close> are \<^verbatim>\<open>Nts[i]\<close> and \<^verbatim>\<open>Nas[i]\<close> of the product.\<close>

definition update_fb_hdr :: "'f rawspec_ops \<Rightarrow> 'f rawspec_raw_hdr \<Rightarrow> nat \<Rightarrow> nat \<times> nat \<Rightarrow> 'f fb_hdr \<Rightarrow> 'f fb_hdr" where
  "update_fb_hdr f raw nc = (\<lambda>(nts, nas) h.
     let h = h\<lparr>telescope_id := fb_telescope_id f (telescop raw), src_raj := ra raw, src_dej := dec_deg raw, tstart := mjd raw,
           ibeam := beam_id raw, nbeams := nbeam raw, source_name := take 80 (src_name raw)\<rparr>;
         h = h\<lparr>foff := fp_foff f (obsbw raw) (obsnchan raw) nts\<rparr>;
         h = h\<lparr>fch1 := fp_fch1 f (obsfreq raw) (obsbw raw) (obsnchan raw) nts (foff h)\<rparr> in
     h\<lparr>fb_nchans := int (nc * nts), tsamp := fp_tsamp f (tbin raw) nts nas\<rparr>)"

definition update_fb_hdrs_from_raw_hdr ::
  "'f rawspec_ops \<Rightarrow> 'f rawspec_raw_hdr \<Rightarrow> nat \<Rightarrow> (nat \<times> nat) list \<Rightarrow> 'f fb_hdr list \<Rightarrow> 'f fb_hdr list" where
  "update_fb_hdrs_from_raw_hdr f raw nc prods hs = map2 (update_fb_hdr f raw nc) prods hs"

section \<open>The library, the callback and the thread\<close>

text \<open>
  The steps of the library (callback before a dump, filling the buffer, callback after it) and of the
  output thread (one call of \<^verbatim>\<open>write\<close>, its failure, the end), interleaved. \<open>dumping\<close> holds between the two
  callbacks, \<open>dumped\<close> are the buffers for which a thread was started, \<open>failed\<close> says that a write has
  failed.
\<close>

record raw_sys =
  cb :: rawspec_callback_data
  dumping :: bool
  dumped :: "u8 list list"
  failed :: bool

inductive raw_step :: "raw_sys \<Rightarrow> raw_sys \<Rightarrow> bool" where
  pre: "\<not> dumping s \<Longrightarrow> rawspec_dump_callback rc RAWSPEC_CALLBACK_PRE_DUMP (cb s) = Inr c \<Longrightarrow>
    raw_step s (s\<lparr>cb := c, dumping := True\<rparr>)"
| fill: "dumping s \<Longrightarrow> length b = length (h_pwrbuf (cb s)) \<Longrightarrow> raw_step s (s\<lparr>cb := (cb s)\<lparr>h_pwrbuf := b\<rparr>\<rparr>)"
| post: "dumping s \<Longrightarrow> rawspec_dump_callback rc RAWSPEC_CALLBACK_POST_DUMP (cb s) = Inr c \<Longrightarrow>
    raw_step s (s\<lparr>cb := c, dumping := False, dumped := dumped s @ (if rc = 0 then [h_pwrbuf (cb s)] else [])\<rparr>)"
| writes: "output_thread (cb s) = Writing pos \<Longrightarrow> progress (length (h_pwrbuf (cb s)) - pos) r \<Longrightarrow>
    write_once r (h_pwrbuf (cb s)) pos (sent (cb s)) = Some (pos', f) \<Longrightarrow>
    raw_step s (s\<lparr>cb := (cb s)\<lparr>output_thread := Writing pos', sent := f\<rparr>\<rparr>)"
| fail: "output_thread (cb s) = Writing pos \<Longrightarrow> write_once r (h_pwrbuf (cb s)) pos (sent (cb s)) = None \<Longrightarrow>
    raw_step s (s\<lparr>cb := (cb s)\<lparr>output_thread := Ended\<rparr>, failed := True\<rparr>)"
| finish: "output_thread (cb s) = Writing pos \<Longrightarrow> length (h_pwrbuf (cb s)) - pos = 0 \<Longrightarrow>
    raw_step s (s\<lparr>cb := (cb s)\<lparr>output_thread := Ended\<rparr>\<rparr>)"

definition raw_start :: "int \<Rightarrow> u8 list \<Rightarrow> u8 list \<Rightarrow> raw_sys" where
  "raw_start d hdr buf = \<lparr>cb = \<lparr>fd = d, output_thread_valid = False, output_thread = NoThread, h_pwrbuf = buf, sent = hdr\<rparr>,
     dumping = False, dumped = [], failed = False\<rparr>"

inductive raw_reach :: "u8 list \<Rightarrow> raw_sys \<Rightarrow> bool" for hdr where
  start: "raw_reach hdr (raw_start d hdr buf)"
| step: "raw_reach hdr s \<Longrightarrow> raw_step s t \<Longrightarrow> raw_reach hdr t"

text \<open>What is still to be written of the buffer.\<close>

definition unwritten :: "rawspec_callback_data \<Rightarrow> u8 list" where
  "unwritten c = (case output_thread c of Writing pos \<Rightarrow> drop pos (h_pwrbuf c) | _ \<Rightarrow> [])"

definition raw_inv :: "u8 list \<Rightarrow> raw_sys \<Rightarrow> bool" where
  "raw_inv hdr s \<longleftrightarrow> (output_thread_valid (cb s) \<longleftrightarrow> output_thread (cb s) \<noteq> NoThread) \<and>
     (dumping s \<longrightarrow> \<not> output_thread_valid (cb s)) \<and>
     (\<not> failed s \<longrightarrow> sent (cb s) @ unwritten (cb s) = hdr @ concat (dumped s))"

lemma join_ended:
  assumes "pthread_join c = Inr c'" "output_thread_valid c \<longleftrightarrow> output_thread c \<noteq> NoThread" "output_thread_valid c"
  shows "c' = c\<lparr>output_thread := NoThread\<rparr>" "unwritten c = []"
  using assms by (auto simp: pthread_join_def unwritten_def split: output_thread.splits)

lemma raw_inv_step:
  assumes "raw_inv hdr s" "raw_step s t"
  shows "raw_inv hdr t"
  using assms(2)
proof (cases rule: raw_step.cases)
  case (pre rc c)
  then show ?thesis using assms(1) join_ended [of "cb s"]
    by (auto simp: raw_inv_def rawspec_dump_callback_def unwritten_def split: if_splits dest!: cbind_eq_Inr_iff [THEN iffD1])
next
  case (post rc c)
  then show ?thesis using assms(1)
    by (auto simp: raw_inv_def rawspec_dump_callback_def unwritten_def split: if_splits output_thread.splits)
next
  case (writes pos r pos' f)
  have "take (nat r) (drop pos b) @ drop (pos + nat r) b = drop pos b" for b :: "u8 list"
    by (metis append_take_drop_id add.commute drop_drop)
  then show ?thesis using assms(1) writes
    by (auto simp: raw_inv_def write_once_def unwritten_def progress_def split: if_splits)
qed (use assms(1) in \<open>auto simp: raw_inv_def unwritten_def\<close>)

lemma raw_reach_inv: "raw_reach hdr s \<Longrightarrow> raw_inv hdr s"
proof (induction rule: raw_reach.induct)
  case (start d buf)
  show ?case by (simp add: raw_inv_def raw_start_def unwritten_def)
qed (rule raw_inv_step)

text \<open>
  C40: the spectra reach the file whole and in order. Under every interleaving of the library with
  the output thread, as long as no write has failed the file holds its header, the dumps for which a
  thread was started, in order, and nothing else, but for the part of the last one that is still to be
  written; in particular the buffer is not overwritten while it is being written. Stopping returns
  only when the thread has ended: then the file is complete, it is closed, and no thread is left.
\<close>

theorem rawspec_output:
  assumes "raw_reach hdr s"
  shows "(\<not> failed s \<longrightarrow> sent (cb s) @ unwritten (cb s) = hdr @ concat (dumped s)) \<and>
    (dumping s \<longrightarrow> output_thread (cb s) = NoThread) \<and>
    (\<forall>c. stop_product (cb s) = Inr c \<longrightarrow> output_thread c = NoThread \<and> \<not> output_thread_valid c \<and> fd c = -1 \<and>
       (\<not> failed s \<longrightarrow> sent c = hdr @ concat (dumped s)))"
proof -
  have inv: "raw_inv hdr s" by (rule raw_reach_inv [OF assms])
  have "output_thread c = NoThread \<and> \<not> output_thread_valid c \<and> fd c = -1 \<and> (\<not> failed s \<longrightarrow> sent c = hdr @ concat (dumped s))"
    if stop: "stop_product (cb s) = Inr c" for c
    using inv stop join_ended [of "cb s"]
    by (auto simp: raw_inv_def stop_product_def unwritten_def split: if_splits dest!: cbind_eq_Inr_iff [THEN iffD1])
  then show ?thesis using inv by (auto simp: raw_inv_def)
qed

definition example_cb :: "output_thread \<Rightarrow> u8 list \<Rightarrow> rawspec_callback_data" where
  "example_cb t f = \<lparr>fd = 3, output_thread_valid = (t \<noteq> NoThread), output_thread = t, h_pwrbuf = [7, 8], sent = f\<rparr>"

lemma example_dump: "raw_reach [9] \<lparr>cb = example_cb Ended [9, 7, 8], dumping = False, dumped = [[7, 8]], failed = False\<rparr>"
proof -
  let ?s = "\<lambda>t f d ds. \<lparr>cb = example_cb t f, dumping = d, dumped = ds, failed = False\<rparr>"
  have 0: "raw_reach [9] (?s NoThread [9] False [])"
    using raw_reach.start [of "[9]" 3 "[7, 8]"] by (simp add: raw_start_def example_cb_def)
  have 1: "raw_reach [9] (?s NoThread [9] True [])"
    using raw_reach.step [OF 0 raw_step.pre [of _ 0 "example_cb NoThread [9]"]] by (simp add: rawspec_dump_callback_def example_cb_def)
  have 2: "raw_reach [9] (?s (Writing 0) [9] False [[7, 8]])"
    using raw_reach.step [OF 1 raw_step.post [of _ 0 "example_cb (Writing 0) [9]"]] by (simp add: rawspec_dump_callback_def example_cb_def)
  have 3: "raw_reach [9] (?s (Writing 2) [9, 7, 8] False [[7, 8]])"
    using raw_reach.step [OF 2 raw_step.writes [of _ 0 2 2 "[9, 7, 8]"]] by (simp add: write_once_def progress_def example_cb_def)
  show ?thesis using raw_reach.step [OF 3 raw_step.finish [of _ 2]] by (simp add: example_cb_def)
qed

theorem rawspec_output_witness:
  "\<exists>c. stop_product (example_cb Ended [9, 7, 8]) = Inr c \<and> sent c = [9, 7, 8] \<and> fd c = -1 \<and> output_thread c = NoThread"
proof -
  obtain c where c: "stop_product (example_cb Ended [9, 7, 8]) = Inr c"
    by (simp add: stop_product_def pthread_join_def example_cb_def)
  then show ?thesis using rawspec_output [OF example_dump] by auto
qed

end
