(* ===== verification/Spec2Isabelle.thy ===== *)
theory Spec2Isabelle
  imports Shutdown Converter Hpguppi_Udp Job_Queue Outer_Shape Hpguppi_Obs_Params Hpguppi_Rawspec
begin

text \<open>
  A verification development of volt_rec, the voltage recorder of the Allen Telescope Array.

  \<^bold>\<open>The program.\<close> src/full_custom is the recorder proper: three threads (receive, sort, write) that
  pass buffers through two pools, and an off-line converter for the files they write.
  src/half_hashpipe is the beginning of a port to the hashpipe framework: a thread that assembles
  GUPPI blocks from packets in a shared ring of blocks, the packet formats, copying routines and
  parameter readers it comes with.

  \<^bold>\<open>Theories and sources.\<close>
  \<^item> Prelude: the C integer types as words, \<open>cres\<close> (a value, or why there is none: a call of \<^verbatim>\<open>error()\<close>
    or a thread exit, an access outside an array, a pointer to a block that does not exist, a division
    by zero, a wait that does not end within its schedule), byte order, bounded writes, the locale \<open>cell_layout\<close> of a strided memory layout
    and generic lemmas.
  \<^item> Data_Formats: full_custom/data_formats.h, constants, header accessors and shared structures.
  \<^item> Common, Pool_System: full_custom/common.c, the buffer pool and the antenna table, and all
    threads on one pool as a step relation (a step is a critical section, or a write into a buffer
    the thread holds); runs of some of the threads, and the moves they amount to for the others.
  \<^item> Udp_Thread: full_custom/udp_thread.c, the receive thread.
  \<^item> Processing_Thread, Worker_Invariants: full_custom/processing_thread.c, the sorting thread, and
    its invariants among the other threads.
  \<^item> File_Thread: full_custom/file_thread.c, the file writer.
  \<^item> Pool_Threads, Worker_Discipline: the three threads as threads of the pool systems; what a whole
    thread does among the others is a run of the step relation.
  \<^item> Converter: full_custom/converter.c. Recorder: full_custom/recorder.c, the main program.
  \<^item> Shutdown: how the recorder ends; the wait of the main thread for a signal (full_custom/recorder.c),
    and what the file writer does once the other threads are at rest.
  \<^item> Mkfeng: half_hashpipe/hpguppi_mkfeng.h, SPEAD headers and block dimensions.
  \<^item> Copying: loops over byte arrays as folds, and the facts on scattering into a layout.
  \<^item> Hpguppi_Udp: half_hashpipe/hpguppi_udp.c, packets of other backends and their copying routines.
  \<^item> Hpguppi_Util: half_hashpipe/hpguppi_util.c. Hpguppi_Time: half_hashpipe/hpguppi_time.c.
  \<^item> Hpguppi_Databuf: half_hashpipe/hpguppi_databuf.h and .c, the ring of blocks.
  \<^item> Hpguppi_Params: the network, disk and block size parameters of half_hashpipe/hpguppi_params.c;
    Hpguppi_Obs_Params: its readers of observation parameters and the structures of psrfits.h.
  \<^item> Hpguppi_Rawspec: half_hashpipe/hpguppi_rawspec.c, the threads that write power spectra, and
    ioprio.h, the priority they ask for.
  \<^item> Status_Buffer: what the code uses of the hashpipe library.
  \<^item> Job_Queue: the packet job queue of half_hashpipe/ata_volt_outer_thread.c and its workers.
  \<^item> Outer_Thread, Outer_Blocks, Outer_Shape: the rest of ata_volt_outer_thread.c and its header, and
    its properties. The main loop is given the bytes of its input blocks and reads the packets from
    their slots.

  \<^bold>\<open>State and operations.\<close> A C structure is a record with the names of its fields, a C function is a
  definition with its name, a loop is a recursive function named after the function it is in. A
  pointer into a pool is the number of a slot, a pointer into a byte array is an offset. The
  operations under a mutex are atomic; where a thread works between them, the moves of the other
  threads are arguments of the definition. What the operating system answers (datagrams, results of
  \<^verbatim>\<open>open\<close>, \<^verbatim>\<open>write\<close>, \<^verbatim>\<open>poll\<close>, waits on semaphores) is an argument too: theorems hold for every answer.
  \<^verbatim>\<open>keep_going\<close> is an input of each thread; the receive thread, which also clears it, returns a
  \<open>stop_flag\<close>: cleared at once, or SIGINT sent, for the handler in the main thread to clear it later.

  \<^bold>\<open>Loops and bounds.\<close> A loop that ends for want of events (a thread's main loop, a wait) runs over a
  schedule of events; an exhausted schedule is the outcome \<open>Blocked\<close>, and the theorems are about every
  schedule. A loop that may run forever (the converter on a header without channels,
  \<^verbatim>\<open>calc_ntime_per_block\<close>, the copy of a packet) is a partial function whose value \<open>None\<close> is not returning;
  that it returns, or does not, is proved. No definition uses fuel.

  \<^bold>\<open>What is shown.\<close>
  \<^item> Formats (C1, C30): the header accessors read what was packed; the SPEAD parser reads the last value
    of each item of a packet.
  \<^item> Pool (C2-C5): under every interleaving no two threads hold a slot and no ready slot is held; every
    run of the others between two steps of a thread is among the moves that the model of the thread is
    given; a fetch takes the ready slot of the lowest order; the antenna table has no duplicates.
  \<^item> Receive thread (C6, C7, C23): what a buffer contains when it is published, how a pass ends early,
    and what an empty datagram does; but for that, the whole thread is a run of the pool system. As a
    lemma, that a failed socket set-up goes unnoticed.
  \<^item> Sorting thread (C8-C10, C12-C15, C26): the packets of a buffer refine a map from cells to payloads,
    a full block has every cell, the numbering of the blocks, when a block is overtaken, progress, when
    the others empty slots and when they are idle; the whole thread is a run of both pool systems. As
    a lemma, that a pass keeps the pool and block invariants.
  \<^item> File writer (C11, C16-C19): the files are those that a reference definition, the \<open>tape\<close>, makes of
    the blocks fetched from the pool; what happens to a block, its buffer and the files by its order;
    failed writes go unnoticed; the whole thread is a run of the pool system. At the end it
    empties its pool and stops, unless the first block never came.
  \<^item> Main thread (C32): it comes to the joins when the receive thread stops the recorder by a signal,
    and sleeps on when the receive thread only clears the flag.
  \<^item> Converter (C21, C22, C24): the corner turn against a specification, when the loop ends and with
    what, and when it does not; the header that the recorder's file writer writes is read back. As
    lemmas, the unpacking of a sample and which files get the external header.
  \<^item> The composition (C20, C27, C28): a buffer of datagrams goes through the pool to the cells of the
    blocks; the main program starts the threads in states where their invariants hold, on pools in
    initial states of the pool system; a block that the sorter completes goes through its sending
    loop, the file writer and the converter and comes out in time order.
  \<^item> Block dimensions (C29, C39): powers of two that fit, by two routines.
  \<^item> Copying routines (C31, C33): the corner turn against its specification, its equivalence with the
    routine it replaced, and where two routines for the same packets disagree.
  \<^item> Job queue (C34): a bounded FIFO; nothing is lost and the boss waits for every job.
  \<^item> Output thread (C25, C35-C38): the output buffer keeps its shape, and no pointer to a block that does
    not exist is used, however the run ends; blocks are handed on in ring order, what a packet does by its block number, when recording
    starts and stops, where the bytes of the packet in a slot go; as a lemma, the lookup of an antenna.
  \<^item> Spectra (C40): under every interleaving of the rawspec library with the output thread the dumps
    reach the file whole and in order.
  \<^item> Parameter readers: as lemmas, the required keywords, which modes select folding, and the layout of
    the arrays of scales.

  \<^bold>\<open>Parameters.\<close> The accessors of the status buffer are a record of functions with \<open>status_laws\<close> as their
  documented behaviour on keywords of up to eight characters, and an implementation by an association list that satisfies them. Floating
  point is a type \<open>'f\<close> with the expressions of the code as functions. The calendar functions of the C
  library and slalib, \<^verbatim>\<open>inet_aton\<close>, \<^verbatim>\<open>strtoul\<close>, the flow calls of the packet thread, and
  \<^verbatim>\<open>ata_obs_info_valid\<close> (which is declared nowhere) are parameters.

  \<^bold>\<open>Not modelled.\<close> half_hashpipe/sla.c, slalib.h and f77.h (vendored C wrappers of the Fortran library
  slalib), polyco_struct.h (a structure nothing here uses), the functions of hpguppi_databuf.h that
  only call the hashpipe library (their results are inputs), code under \<^verbatim>\<open>#if 0\<close> and under
  \<^verbatim>\<open>#ifdef\<close> of debugging macros apart from the corner turn of hpguppi_udp.c and the job queue, the
  plotting script and the build files.
  Alignment of addresses, printed messages, thread priorities, the release of memory and the rounding
  of doubles are left out.
\<close>

section \<open>From the datagrams to the blocks\<close>

text \<open>A datagram as the sorter reads it: the header in network byte order and the payload.\<close>

definition datagram_packet :: "u8 list \<Rightarrow> u64 \<times> u8 list" where
  "datagram_packet d = (be_word (take RX_BUFF_LEN d), drop RX_BUFF_LEN d)"

lemma peek_concat:
  assumes "\<forall>d\<in>set ds. length d = w" "i < length ds"
  shows "peek (i * w) w (concat ds) = ds ! i"
  using assms
proof (induction ds arbitrary: i)
  case (Cons d ds)
  then show ?case by (cases i) (auto simp: peek_def)
qed simp

lemma received_packets:
  assumes "full_datagrams ds" "take (length ds * RX_MSG_LEN) b = concat ds"
  shows "map (packet_at b) [0..<length ds] = map datagram_packet ds"
proof (rule nth_equalityI)
  fix i assume "i < length (map (packet_at b) [0..<length ds])"
  then have i: "i < length ds" by simp
  then have "Suc i * RX_MSG_LEN \<le> length ds * RX_MSG_LEN" by (intro mult_le_mono1) simp
  then have fit: "RX_MSG_LEN \<le> length ds * RX_MSG_LEN - i * RX_MSG_LEN" unfolding mult_Suc by linarith
  have "ds ! i = peek (i * RX_MSG_LEN) RX_MSG_LEN (concat ds)"
    using peek_concat [of ds RX_MSG_LEN i] assms(1) i by (simp add: full_datagrams_def)
  also have "\<dots> = peek (i * RX_MSG_LEN) RX_MSG_LEN b"
    unfolding assms(2) [symmetric] using fit by (simp add: peek_def drop_take min_absorb1)
  finally have d: "ds ! i = peek (i * RX_MSG_LEN) RX_MSG_LEN b" .
  have "take RX_BUFF_LEN (ds ! i) = peek (i * RX_MSG_LEN) RX_BUFF_LEN b"
    "drop RX_BUFF_LEN (ds ! i) = peek (i * RX_MSG_LEN + RX_BUFF_LEN) RX_DATA_LEN b"
    unfolding d by (simp_all add: peek_def cconst drop_take add.commute)
  then show "map (packet_at b) [0..<length ds] ! i = map datagram_packet ds ! i"
    using i by (simp add: packet_at_def datagram_packet_def)
qed simp

text \<open>
  C20: from the network to the blocks. When 160 full-sized datagrams arrive while no buffer is
  waiting, the receive thread publishes them in one buffer, the worker's next fetch returns that
  buffer, and sorting it (after the first buffer of the recording) leaves in every cell of each of
  the six blocks the payload of the last of these datagrams whose header names that block and cell,
  or what was there before, and takes their number off the block's count of missing packets.
\<close>

theorem datagrams_to_cells:
  assumes "pool_wf s" "k < noBuffers s" "orderNo s ! k = 0" "\<forall>j<noBuffers s. orderNo s ! j \<le> 0"
    "\<forall>b\<in>set (bufData s). UDP_BUFFER_SIZE \<le> length b" "full_datagrams ds" "length ds = N_READS_DEFAULT"
    "0 < order" "int order < INT_MAX"
    "sorter_inv st" "distinct (map packetNo (locals st))" "first_loop_done st"
  shows "\<exists>s' i p len st'. udp_recv_pass (\<lambda>held p. p) (map Datagram ds @ rs) order kg s = Inr (rs, Suc order, kg, s') \<and>
    fetchBuffer [(\<lambda>p. p, True)] (\<lambda>p. p) s' = Inr (Some (int i, int order, len), p, []) \<and>
    sort_buffer (bufData p ! i) (len div RX_MSG_LEN) (st\<lparr>inpool := p\<rparr>) = Inr st' \<and>
    (\<forall>k<N_FILE_BUFFERS_AT_A_TIME. let l = locals st ! k in
      nToFull (locals st' ! k) = nToFull l - int (length (arrivals (fbuf st) (ants st) (packetNo l) (map datagram_packet ds))) \<and>
      (\<forall>cell. valid_cell (fbuf st) cell \<longrightarrow> cell_at (fbuf st) (bufData (fpool st') ! wdata l) cell =
        last_write (fbuf st) (ants st) (packetNo l) cell (map datagram_packet ds)
          (cell_at (fbuf st) (bufData (fpool st) ! wdata l) cell)))"
proof -
  let ?n = "N_READS_DEFAULT * RX_MSG_LEN"
  have le: "length ds \<le> N_READS_DEFAULT" using assms(7) by simp
  obtain i s2 where s2: "i < noBuffers s" "i < length (orderNo s)"
    "\<And>env. udp_recv_pass env (map Datagram ds @ rs) order kg s =
       cbind (udp_recv_loop rs (length ds) order (int i) (length ds * RX_MSG_LEN) kg s2)
         (\<lambda>(rs', dataSize, kg', s2). cbind (returnBuffer (env [int i] s2) (int i) (int order) dataSize)
           (\<lambda>s3. Inr (rs', Suc order, kg', s3)))"
    "take (length ds * RX_MSG_LEN) (bufData s2 ! i) = concat ds" "orderNo s2 = (orderNo s)[i := -1]"
    "noBuffers s2 = noBuffers s" "pool_wf s2"
    by (rule udp_recv_pass_full [OF assms(1-3,5,6) le, of rs order kg], rule that, assumption+)
  define s' where "s' = s2\<lparr>orderNo := (orderNo s2)[i := int order], dataLen := (dataLen s2)[i := ?n], NReady := Suc (NReady s2)\<rparr>"
  have pass: "udp_recv_pass (\<lambda>held p. p) (map Datagram ds @ rs) order kg s = Inr (rs, Suc order, kg, s')"
    using s2(2,3,5) assms(7) by (simp add: udp_recv_loop.simps [of _ N_READS_DEFAULT] returnBuffer_def s'_def)
  have wf: "pool_wf s'" and i: "i < noBuffers s'" "i < length (dataLen s2)" using s2(1,6,7) by (simp_all add: s'_def pool_wf_def)
  have at: "orderNo s' ! i = int order" "dataLen s' ! i = ?n" "0 < NReady s'" using s2(2,5) i(2) by (simp_all add: s'_def)
  have others: "orderNo s' ! j \<le> 0" if "j < noBuffers s'" "j \<noteq> i" for j
    using that assms(4) s2(5,6) by (simp add: s'_def)
  define p where "p = s'\<lparr>NReady := NReady s' - 1, orderNo := (orderNo s')[i := -1]\<rparr>"
  have fetch: "fetchBuffer [(\<lambda>p. p, True)] (\<lambda>p. p) s' = Inr (Some (int i, int order, ?n), p, [])"
    using fetch_only_ready [OF wf at(3) i(1) _ _ others] at(1,2) assms(8,9) by (simp add: p_def)
  let ?b = "bufData p ! i"
  have b: "take (length ds * RX_MSG_LEN) ?b = concat ds" using s2(4) by (simp add: p_def s'_def)
  have "length (concat ds) = length ds * RX_MSG_LEN"
    using assms(6) by (induction ds) simp_all
  then have fit: "length ds * RX_MSG_LEN \<le> length ?b" using arg_cong [OF b, of length] by simp
  have len: "?n div RX_MSG_LEN = length ds" using assms(7) by (simp add: cconst)
  note pk = received_packets [OF assms(6) b]
  have payloads: "\<forall>pkt\<in>set (map datagram_packet ds). length (snd pkt) = RX_DATA_LEN"
    using assms(6) by (auto simp: full_datagrams_def datagram_packet_def cconst)
  from place_list_lemma [OF sorter_invD(1) [OF assms(10)] sorter_inv_blocks_ok [OF assms(10)] assms(11) payloads, of "ants st"]
  obtain ls q where pl: "place_list (fbuf st) (ants st) (map datagram_packet ds) (locals st) (fpool st) = Inr (ls, q)"
    "\<forall>k<N_FILE_BUFFERS_AT_A_TIME.
      nToFull (ls ! k) = nToFull (locals st ! k) - int (length (arrivals (fbuf st) (ants st) (packetNo (locals st ! k)) (map datagram_packet ds))) \<and>
      (\<forall>cell. valid_cell (fbuf st) cell \<longrightarrow> cell_at (fbuf st) (bufData q ! wdata (locals st ! k)) cell =
        last_write (fbuf st) (ants st) (packetNo (locals st ! k)) cell (map datagram_packet ds)
          (cell_at (fbuf st) (bufData (fpool st) ! wdata (locals st ! k)) cell))" by blast
  have "sort_buffer ?b (?n div RX_MSG_LEN) (st\<lparr>inpool := p\<rparr>) = Inr (set_fpool q (st\<lparr>inpool := p, locals := ls\<rparr>))"
    using place_loop_list [OF fit, of "[0..<length ds]"] pl(1) assms(12)
    by (simp add: sort_buffer_def first_scan_def len pk fpool_def)
  with pass fetch pl(2) show ?thesis unfolding Let_def
    by (intro exI [of _ s'] exI [of _ i] exI [of _ p] exI [of _ ?n] exI [of _ "set_fpool q (st\<lparr>inpool := p, locals := ls\<rparr>)"]) simp
qed

lemma last_write_replicate:
  assumes "goes_to fb tab x h" "packet_cell fb tab h = cell"
  shows "last_write fb tab x cell (replicate (Suc n) (h, d)) old = d"
  using assms by (induction n arbitrary: old) simp_all

text \<open>The packet 5 of antenna 3, received 160 times, fills its cell of the first block.\<close>

theorem datagrams_to_cells_witness:
  "\<exists>s' i p len st'. udp_recv_pass (\<lambda>held p. p) (map Datagram (replicate 160 (rev (le_bytes 8 (volt_header 193 5 7 3)) @ replicate 8192 9)) @ [])
      1 KeepGoing \<lparr>bufData = [replicate 1000000000 0], dataLen = [0], orderNo = [0], NReady = 0, noBuffers = 1\<rparr> = Inr ([], 2, KeepGoing, s') \<and>
    fetchBuffer [(\<lambda>p. p, True)] (\<lambda>p. p) s' = Inr (Some (int i, 1, len), p, []) \<and>
    sort_buffer (bufData p ! i) (len div RX_MSG_LEN) (example_worker\<lparr>inpool := p\<rparr>) = Inr st' \<and>
    cell_at example_fb (bufData (fpool st') ! 0) (5, 0, 0) = replicate 8192 9"
proof -
  let ?h = "volt_header 193 5 7 3" and ?s = "\<lparr>bufData = [replicate 1000000000 0], dataLen = [0], orderNo = [0], NReady = 0,
    noBuffers = 1\<rparr> :: udpBuffStruct"
  let ?ds = "replicate 160 (rev (le_bytes 8 ?h) @ replicate 8192 9)"
  have h: "pool_wf ?s" "0 < noBuffers ?s" "orderNo ?s ! 0 = 0" "\<forall>j<noBuffers ?s. orderNo ?s ! j \<le> 0"
    "\<forall>b\<in>set (bufData ?s). UDP_BUFFER_SIZE \<le> length b" "full_datagrams ?ds" "length ?ds = N_READS_DEFAULT"
    "(0 :: nat) < 1" "int 1 < INT_MAX"
    by (simp_all add: pool_wf_def full_datagrams_def cconst)
  have w: "sorter_inv example_worker" "distinct (map packetNo (locals example_worker))" "first_loop_done example_worker"
    using example_worker_ok example_blocks(3) by (simp_all add: worker_ok_def example_worker_def)
  have d: "map datagram_packet ?ds = replicate (Suc 159) (?h, replicate 8192 9)"
    by (simp add: datagram_packet_def RX_BUFF_LEN_def be_word_def del: replicate.simps)
  have fb: "fbuf example_worker = example_fb" "ants example_worker = [3, -1, -1, -1]" "locals example_worker = example_locals"
    by (simp_all add: example_worker_def)
  have g: "goes_to example_fb [3, -1, -1, -1] 0 ?h" "valid_cell example_fb (5, 0, 0)" "0 < N_FILE_BUFFERS_AT_A_TIME"
    using example_accepts by (simp_all add: goes_to_def example_fb_def block_valid_def cconst)
  from datagrams_to_cells [OF h w, of "[]" KeepGoing, unfolded d fb] obtain s' i p len st' where
    r: "udp_recv_pass (\<lambda>held p. p) (map Datagram ?ds @ []) 1 KeepGoing ?s = Inr ([], Suc 1, KeepGoing, s')"
      "fetchBuffer [(\<lambda>p. p, True)] (\<lambda>p. p) s' = Inr (Some (int i, int 1, len), p, [])"
      "sort_buffer (bufData p ! i) (len div RX_MSG_LEN) (example_worker\<lparr>inpool := p\<rparr>) = Inr st'"
    and c: "\<forall>k<N_FILE_BUFFERS_AT_A_TIME. let l = example_locals ! k in
      nToFull (locals st' ! k) = nToFull l - int (length (arrivals example_fb [3, -1, -1, -1] (packetNo l) (replicate (Suc 159) (?h, replicate 8192 9)))) \<and>
      (\<forall>cell. valid_cell example_fb cell \<longrightarrow> cell_at example_fb (bufData (fpool st') ! wdata l) cell =
        last_write example_fb [3, -1, -1, -1] (packetNo l) cell (replicate (Suc 159) (?h, replicate 8192 9))
          (cell_at example_fb (bufData (fpool example_worker) ! wdata l) cell))" by blast
  have "cell_at example_fb (bufData (fpool st') ! 0) (5, 0, 0) = replicate 8192 9"
    using c [rule_format, OF g(3)] g(2) last_write_replicate [OF g(1) example_accepts(3), of 159]
    unfolding Let_def example_blocks(5,6) by metis
  with r show ?thesis by (metis Suc_1 of_nat_1)
qed

section \<open>From the sorter to the converted files\<close>

lemma peek_peek: "x + n \<le> m \<Longrightarrow> peek x n (peek y m xs) = peek (y + x) n xs"
  by (simp add: peek_def drop_take min_def add.commute)

lemma block_slot_cell:
  assumes "a < unat (nAnts fb)" "c < unat (nchans fb)" "iM < 16" "t < 128" "inBufferLen r = RX_DATA_LEN * unat (nAnts fb) * unat (nchans fb)"
  shows "peek ((a * unat (nchans fb) + c) * 8192 + iM * 512) 512 (peek (t * inBufferLen r) (inBufferLen r) buf) =
    peek (iM * 512) 512 (cell_at fb buf (t, a, c))"
proof -
  let ?na = "unat (nAnts fb)" and ?nc = "unat (nchans fb)"
  have "Suc (a * ?nc + c) * 8192 \<le> ?na * ?nc * 8192"
    using row_major_less [OF assms(1,2)] by (intro mult_le_mono1) simp
  then have "(a * ?nc + c) * 8192 + iM * 512 + 512 \<le> inBufferLen r"
    using assms(3,5) by (simp add: cconst ac_simps)
  then have "peek ((a * ?nc + c) * 8192 + iM * 512) 512 (peek (t * inBufferLen r) (inBufferLen r) buf) =
      peek (t * inBufferLen r + ((a * ?nc + c) * 8192 + iM * 512)) 512 buf" by (rule peek_peek)
  moreover have "peek (iM * 512) 512 (cell_at fb buf (t, a, c)) =
      peek (block_offset ?na ?nc (t, a, c) + iM * 512) 512 buf"
    unfolding cell_at_def using assms(3) by (intro peek_peek) (simp add: cconst)
  moreover have "t * inBufferLen r + ((a * ?nc + c) * 8192 + iM * 512) = block_offset ?na ?nc (t, a, c) + iM * 512"
    by (simp add: assms(5) block_offset_def cconst algebra_simps)
  ultimately show ?thesis by metis
qed

text \<open>A file with one block, converted: its cells come out in time order.\<close>

lemma block_to_spectra:
  assumes "sorter_dims fb" "unat (nAnts fb) \<le> length (antNumbers fb)" "dataLenOut fb \<le> length buf"
    "read_header (header_bytes fb @ take (dataLenOut fb) buf) = Inr (r, rest)"
    "length dataout = unat (nAnts fb)" "\<forall>b\<in>set dataout. length b = outBufferLen eight r" "length files = unat (nAnts fb)"
  shows "convert_file eight r rest dataout files = Some (Inr (map (\<lambda>a. files ! a @
    concat (map (\<lambda>t. concat (map (\<lambda>j. unpacked eight (peek (j div unat (nchans fb) * 512) 512
        (cell_at fb buf (t, a, j mod unat (nchans fb))))) [0..<16 * unat (nchans fb)])) [0..<128]))
      [0..<unat (nAnts fb)]))"
proof -
  let ?na = "unat (nAnts fb)" and ?nc = "unat (nchans fb)"
  have d: "0 < ?na" "?na \<le> 4" "0 < ?nc" "?nc \<le> 32" using assms(1) by (simp_all add: sorter_dims_def)
  have r: "rAnts r = nAnts fb" "rChanpkts r = nchans fb" "rest = take (dataLenOut fb) buf"
    using assms(4) read_header_lemma [OF assms(2), of "take (dataLenOut fb) buf"] d(2) by (auto simp: cconst)
  have n: "inBufferLen r = RX_DATA_LEN * ?na * ?nc" by (simp add: inBufferLen_def r)
  then have pos: "0 < inBufferLen r" using d by (simp add: cconst)
  have total: "dataLenOut fb = 128 * inBufferLen r"
    by (simp add: unat_packetsPerBlock(2) [OF assms(1)] block_total_def n cconst)
  have "conv_ok eight (replicate (inBufferLen r) 0) (unat (rAnts r)) (unat (rChanpkts r)) dataout"
    using d assms(5,6) by (auto simp: conv_ok_def outBufferLen_def inBufferLen_def cconst r)
  moreover have "length rest div inBufferLen r = 128" using pos assms(3) by (simp add: r(3) total)
  ultimately have "convert_file eight r rest dataout files = Some (Inr (map (\<lambda>a. files ! a @
    concat (map (\<lambda>t. time_major eight (peek (t * inBufferLen r) (inBufferLen r) rest) ?nc a) [0..<128])) [0..<?na]))"
    using convert_file_content [OF pos, of eight _ dataout files rest 128] assms(7) by (simp add: r(1,2))
  moreover have "time_major eight (peek (t * inBufferLen r) (inBufferLen r) rest) ?nc a =
      concat (map (\<lambda>j. unpacked eight (peek (j div ?nc * 512) 512 (cell_at fb buf (t, a, j mod ?nc)))) [0..<16 * ?nc])"
    if ta: "t < 128" "a < ?na" for t a
  proof -
    have "Suc t * inBufferLen r \<le> 128 * inBufferLen r" using ta(1) by (intro mult_le_mono1) simp
    then have "inBufferLen r \<le> 128 * inBufferLen r - t * inBufferLen r" unfolding mult_Suc by linarith
    then have same: "peek (t * inBufferLen r) (inBufferLen r) rest = peek (t * inBufferLen r) (inBufferLen r) buf"
      unfolding r(3) total by (simp add: peek_def drop_take min_absorb1)
    have "spectrum eight (peek (t * inBufferLen r) (inBufferLen r) rest) ?nc a (j div ?nc, j mod ?nc) =
        unpacked eight (peek (j div ?nc * 512) 512 (cell_at fb buf (t, a, j mod ?nc)))" if "j < 16 * ?nc" for j
      using block_slot_cell [OF ta(2) _ _ ta(1) n, of "j mod ?nc" "j div ?nc" buf] that d(3)
      unfolding spectrum_def same by (simp add: less_mult_imp_div_less)
    then show ?thesis unfolding time_major_def SAMPLES_PER_PACKET_def
      by (intro arg_cong [where f = concat] map_cong) auto
  qed
  ultimately show ?thesis
    by (simp, intro ballI arg_cong [where f = concat] map_cong) auto
qed

text \<open>
  The file thread on the recording's structure with the pool \<open>p\<close>: one pass, in which the other threads
  do nothing, and the end. The move is what this does to the pool, for the sorter that waits.
\<close>

definition file_thread_on ::
  "fileBuffStruct \<Rightarrow> string \<Rightarrow> (string \<rightharpoonup> u8 list) \<Rightarrow> int list \<Rightarrow> udpBuffStruct \<Rightarrow> file_writer cres" where
  "file_thread_on fb name d results p =
     file_writer_work [(True, [(\<lambda>p. p, True)], \<lambda>p. p, \<lambda>held p. p), (False, [], \<lambda>p. p, \<lambda>held p. p)]
       (fb\<lparr>udpBuff := p\<rparr>) name d results"

definition file_thread_move ::
  "fileBuffStruct \<Rightarrow> string \<Rightarrow> (string \<rightharpoonup> u8 list) \<Rightarrow> int list \<Rightarrow> held_move" where
  "file_thread_move fb name d results hs p =
     (case file_thread_on fb name d results p of Inr w \<Rightarrow> wpool w | Inl e \<Rightarrow> p)"

lemma file_thread_on_first:
  assumes p: "pool_wf p" "NReady p = 1" "i < noBuffers p" "orderNo p ! i = 1" "\<And>j. j < noBuffers p \<Longrightarrow> j \<noteq> i \<Longrightarrow> orderNo p ! j \<le> 0"
    and len: "dataLen p ! i = len" "len \<le> length (bufData p ! i)" "len < 2 ^ 63"
    and fb: "unat (nAnts fb) \<le> length (antNumbers fb)" and io: "results = header_results fno fb @ [int len]" "0 \<le> fno"
  shows "\<exists>w. file_thread_on fb name d results p = Inr w \<and> wpool w = p\<lparr>NReady := 0, orderNo := (orderNo p)[i := 0]\<rparr> \<and>
    disk w = d(file_name name 0 \<mapsto> header_bytes fb @ take len (bufData p ! i))"
proof -
  let ?st = "writer_start (fb\<lparr>udpBuff := p\<rparr>) name d results"
  define q where "q = p\<lparr>NReady := 0, orderNo := (orderNo p)[i := -1]\<rparr>"
  have f: "fetchBuffer [(\<lambda>p. p, True)] (\<lambda>p. p) p = Inr (Some (int i, 1, len), q, [])"
    using fetch_only_ready [OF p(1) _ p(3)] p(2,4,5) len(1) by (simp add: q_def INT_MAX_def)
  let ?st1 = "(set_wpool q ?st)\<lparr>nMisses := 0\<rparr>"
  have "io ?st1 = header_results fno (sink ?st1) @ [int len]" "unat (nAnts (sink ?st1)) \<le> length (antNumbers (sink ?st1))"
    using io fb by (simp_all add: writer_start_def set_wpool_def header_results_def)
  from start_file_complete [OF this(1) io(2) this(2)]
  have s: "start_file ?st1 = Inr (?st1\<lparr>io := [int len], cur := file_name name 0, disk := d(file_name name 0 \<mapsto> header_bytes fb)\<rparr>)"
    by (simp add: writer_start_def set_wpool_def header_bytes_def)
  have i: "i < length (orderNo p)" using p(1,3) by (simp add: pool_wf_def)
  let ?block = "take len (bufData p ! i)"
  have b: "length ?block = len" using len(2) by simp
  have w: "sys_write ?block x = Inr (x\<lparr>io := [], disk := (disk x)(cur x \<mapsto> the (disk x (cur x)) @ ?block)\<rparr>)" if "io x = [int len]" for x
    using that len(3) b by (intro sys_write_complete) simp_all
  have wp: "wpool ?st = p" "lastOrd ?st = 0" by (simp_all add: writer_start_def wpool_def)
  have "\<exists>w. handle_block (\<lambda>held p. p) (int i) 1 len (set_wpool q ?st) = Inr w \<and>
      wpool w = p\<lparr>NReady := 0, orderNo := (orderNo p)[i := 0]\<rparr> \<and> disk w = d(file_name name 0 \<mapsto> header_bytes fb @ ?block)"
    using s w i len(2) by (simp add: handle_block_def write_block_def Let_def wpool_def set_wpool_def writer_start_def q_def returnEmptyBuffer_def)
  then obtain w where h: "handle_block (\<lambda>held p. p) (int i) 1 len (set_wpool q ?st) = Inr w"
    "wpool w = p\<lparr>NReady := 0, orderNo := (orderNo p)[i := 0]\<rparr>" "disk w = d(file_name name 0 \<mapsto> header_bytes fb @ ?block)" by blast
  have "file_thread_on fb name d results p = Inr w"
    using f h(1,2) wp by (simp add: file_thread_on_def file_writer_work_def file_writer_pass_def anyBufFull_def)
  then show ?thesis using h(2,3) by blast
qed

text \<open>The converter on a file with a header and one block.\<close>

lemma converter_on_block:
  assumes "sorter_dims fb" "unat (nAnts fb) < 4" "unat (nAnts fb) \<le> length (antNumbers fb)" "dataLenOut fb \<le> length buf"
    "length name < MAX_FILE" "open_file (file_name name 0) = Some (header_bytes fb @ take (dataLenOut fb) buf)" "\<forall>m. length (junk m) = m"
  shows "\<exists>files. converter_main eight open_file junk [prog, file_name name 0] = Some (Inr (Converted files)) \<and>
    length files = unat (nAnts fb) \<and>
    (\<forall>a<unat (nAnts fb). \<exists>txt_name txt. files ! a = (txt_name, txt, out_name eight (name @ ''_0'') (antNumbers fb ! a) ''.bin'',
      concat (map (\<lambda>t. concat (map (\<lambda>j. unpacked eight (peek (j div unat (nchans fb) * 512) 512
        (cell_at fb buf (t, a, j mod unat (nchans fb))))) [0..<16 * unat (nchans fb)])) [0..<128])))"
proof -
  let ?na = "unat (nAnts fb)" and ?ids = "take (unat (nAnts fb)) (antNumbers fb)"
  define r where "r = \<lparr>rAnts = nAnts fb, rIDs = ?ids, rChanpkts = nchans fb, rChanStart = firstChan fb, rPktStart = packetStart fb\<rparr>"
  have h: "read_header (header_bytes fb @ take (dataLenOut fb) buf) = Inr (r, take (dataLenOut fb) buf)"
    using read_header_lemma [OF assms(3), of "take (dataLenOut fb) buf"] assms(2) by (simp add: r_def cconst)
  have n: "file_name name 0 = name @ ''_0'' @ ''.bin''"
    using file_name_full [OF assms(5), of 0] by (simp add: dec.simps [of 0] cconst char_of_def bit_0)
  have small: "\<not> rAnts r \<ge> of_nat MAX_NO_ANTS" using assms(2) by (simp add: r_def cconst word_le_nat_alt)
  have ids: "length (rIDs r) = ?na" using assms(3) by (simp add: r_def)
  have outs: "open_outputs xs None = replicate (length xs) []" for xs by (induction xs) simp_all
  let ?content = "\<lambda>a. concat (map (\<lambda>t. concat (map (\<lambda>j. unpacked eight (peek (j div unat (nchans fb) * 512) 512
        (cell_at fb buf (t, a, j mod unat (nchans fb))))) [0..<16 * unat (nchans fb)])) [0..<128])"
  have "convert_file eight r (take (dataLenOut fb) buf) (map (\<lambda>iK. junk (outBufferLen eight r)) [0..<?na]) (replicate ?na []) =
      Some (Inr (map ?content [0..<?na]))"
    by (subst block_to_spectra [OF assms(1,3,4) h]) (simp_all add: assms(7))
  then have "converter_main eight open_file junk [prog, file_name name 0] = Some (Inr (Converted
      (map (\<lambda>iK. (out_name eight (name @ ''_0'') (rIDs r ! iK) ''.txt'', text_file r (rIDs r ! iK),
        out_name eight (name @ ''_0'') (rIDs r ! iK) ''.bin'', map ?content [0..<?na] ! iK)) [0..<?na])))"
    using assms(5,6) small h ids unfolding n by (simp add: converter_main_def outs cconst Let_def r_def del: map_map)
  then show ?thesis by (simp add: r_def)
qed

text \<open>The block of order 1, published and then recorded by the file thread.\<close>

lemma publish_first_block:
  assumes dims: "sorter_dims fb" "unat (nAnts fb) \<le> length (antNumbers fb)"
    and q: "roomy FILE_BUFFER_SIZE q" "i < noBuffers q" "orderNo q ! i = -1" "NReady q = 0" "\<forall>j<noBuffers q. orderNo q ! j \<le> 0"
    and io: "results = header_results fno fb @ [int (dataLenOut fb)]" "0 \<le> fno"
  obtains p w where "returnBuffer q (int i) 1 (dataLenOut fb) = Inr p" "file_thread_on fb name d results p = Inr w"
    "disk w = d(file_name name 0 \<mapsto> header_bytes fb @ take (dataLenOut fb) (bufData q ! i))"
    "dataLenOut fb \<le> length (bufData q ! i)" "roomy FILE_BUFFER_SIZE (wpool w)" "i < noBuffers (wpool w)" "orderNo (wpool w) ! i = 0"
proof -
  let ?len = "dataLenOut fb"
  define p where "p = q\<lparr>orderNo := (orderNo q)[i := 1], dataLen := (dataLen q)[i := ?len], NReady := 1\<rparr>"
  have i: "i < length (orderNo q)" "i < length (dataLen q)" "i < length (bufData q)"
    using q(1,2) by (simp_all add: roomy_def pool_wf_def)
  have ret: "returnBuffer q (int i) 1 ?len = Inr p" using i q by (simp add: returnBuffer_def p_def)
  have wfp: "roomy FILE_BUFFER_SIZE p" by (rule roomy_publish [OF q(1) ret])
  have "FILE_BUFFER_SIZE \<le> length (bufData q ! i)" using q(1) i(3) by (simp add: roomy_def)
  moreover have "FILE_BUFFER_SIZE < 2 ^ 63" by (simp add: cconst)
  ultimately have big: "?len \<le> length (bufData q ! i)" "?len < 2 ^ 63" using unat_packetsPerBlock(3) [OF dims(1)] by linarith+
  have P: "pool_wf p" "NReady p = 1" "i < noBuffers p" "orderNo p ! i = 1" "dataLen p ! i = ?len" "bufData p = bufData q"
    "\<And>j. j < noBuffers p \<Longrightarrow> j \<noteq> i \<Longrightarrow> orderNo p ! j \<le> 0"
    using wfp i q by (simp_all add: p_def roomy_def)
  obtain w where w: "file_thread_on fb name d results p = Inr w" "wpool w = p\<lparr>NReady := 0, orderNo := (orderNo p)[i := 0]\<rparr>"
    "disk w = d(file_name name 0 \<mapsto> header_bytes fb @ take ?len (bufData q ! i))"
    using file_thread_on_first [OF P(1-4,7,5) _ big(2) dims(2) io, of name d] big(1) P(6) by auto
  have "roomy FILE_BUFFER_SIZE (wpool w)" "i < noBuffers (wpool w)" "orderNo (wpool w) ! i = 0"
    using wfp q(2) i by (simp_all add: w(2) roomy_def pool_wf_def p_def)
  with that ret w(1,3) big(1) show thesis by blast
qed

text \<open>The sending loop on a full first block, when the move of the others leaves an empty buffer.\<close>

lemma send_first_block:
  assumes "sorter_dims (fbuf st)" "nToFull (locals st ! 0) = 0"
    and ret: "returnBuffer (fpool st) (windex (locals st ! 0)) (worder (locals st ! 0)) (dataLenOut (fbuf st)) = Inr p"
    and mv: "moves st = mv # es" "mv (held_except 0 (locals st)) p = v" "roomy FILE_BUFFER_SIZE v" "i < noBuffers v" "orderNo v ! i = 0"
  shows "\<exists>st'. send_full_loop [0] 0 st = Inr (0, st')"
proof -
  have "pool_wf v" using mv(3) by (simp add: roomy_def)
  then obtain j p2 where f: "fetchEmptyBuffer v = (0, int j, p2)" "j < noBuffers v" "p2 = v\<lparr>orderNo := (orderNo v)[j := -1]\<rparr>"
  proof (cases rule: acquire_slot_cases)
    case none
    then show thesis using mv(4,5) by blast
  next
    case (some j)
    then show thesis using that by blast
  qed
  have p2: "roomy FILE_BUFFER_SIZE p2" "j < noBuffers p2" using mv(3) f(2) by (simp_all add: f(3) roomy_orders)
  obtain p3 where "write_slot j 0 (replicate (dataLenOut (fbuf st)) 0) p2 = Inr p3" by (rule clear_slot [OF p2(1) assms(1) p2(2)])
  then have "\<exists>st'. replace_struct 0 (st\<lparr>lastSentPacketNo := packetNo (locals st ! 0)\<rparr>) = Inr st'"
    using ret mv(1,2) f(1) by (simp add: replace_struct_def fpool_def)
  then show ?thesis using assms(2) by auto
qed

text \<open>
  C28: from the sorter to the converted files. Take a sorter whose first block becomes full with the
  packets of the buffer it sorts, while the file thread has not recorded anything. Sorting succeeds,
  the sending loop publishes the block and goes on when the file thread has emptied its buffer. What
  the file thread writes is a file which the converter, given that file, converts to its end: the data file of
  antenna \<open>a\<close> has, for each of the 128 time slots and each of the 16 samples of a packet, the
  channel groups side by side, each being that sample of the last packet of the buffer whose header
  names the block, the time slot, the antenna and the channel group, or of the packet sorted into that
  cell before. The recording has at most three antennas: the converter refuses four.
\<close>

theorem recording_to_spectra:
  assumes sorter: "sorter_inv st" "distinct (map packetNo (locals st))" "first_loop_done st"
    and dims: "unat (nAnts (fbuf st)) < 4" "unat (nAnts (fbuf st)) \<le> length (antNumbers (fbuf st))"
    and buffer: "n * RX_MSG_LEN \<le> length buf"
    and full: "nToFull (locals st ! 0) = int (length (arrivals (fbuf st) (ants st) (packetNo (locals st ! 0)) (packets_of buf n)))"
    and first: "worder (locals st ! 0) = 1" "NReady (fpool st) = 0" "\<forall>j<noBuffers (fpool st). orderNo (fpool st) ! j \<le> 0"
    and writer: "moves st = file_thread_move (fbuf st) name d results # es"
      "results = header_results fno (fbuf st) @ [int (dataLenOut (fbuf st))]" "0 \<le> fno" "length name < MAX_FILE"
    and alloc: "\<forall>m. length (junk m) = m"
  shows "\<exists>st1 st2 p w files. sort_buffer buf n st = Inr st1 \<and> send_full_loop [0] 0 st1 = Inr (0, st2) \<and>
    returnBuffer (fpool st1) (windex (locals st1 ! 0)) 1 (dataLenOut (fbuf st1)) = Inr p \<and>
    file_thread_on (fbuf st) name d results p = Inr w \<and>
    converter_main eight (disk w) junk [prog, file_name name 0] = Some (Inr (Converted files)) \<and>
    length files = unat (nAnts (fbuf st)) \<and>
    (\<forall>a<unat (nAnts (fbuf st)). \<exists>txt_name txt. files ! a =
      (txt_name, txt, out_name eight (name @ ''_0'') (antNumbers (fbuf st) ! a) ''.bin'',
       concat (map (\<lambda>t. concat (map (\<lambda>j. unpacked eight (peek (j div unat (nchans (fbuf st)) * 512) 512
         (last_write (fbuf st) (ants st) (packetNo (locals st ! 0)) (t, a, j mod unat (nchans (fbuf st))) (packets_of buf n)
           (cell_at (fbuf st) (bufData (fpool st) ! wdata (locals st ! 0)) (t, a, j mod unat (nchans (fbuf st)))))))
         [0..<16 * unat (nchans (fbuf st))])) [0..<128])))"
proof -
  let ?fb = "fbuf st" and ?l = "locals st ! 0" and ?pk = "packets_of buf n" and ?len = "dataLenOut (fbuf st)"
  note D = sorter_invD [OF sorter(1)]
  have dims1: "sorter_dims ?fb" by (rule D(1))
  have N: "0 < N_FILE_BUFFERS_AT_A_TIME" by (simp add: cconst)
  have mem: "?l \<in> set (locals st)" using D(3) N by simp
  note L = D(4) [OF mem]
  have payloads: "\<forall>pkt\<in>set ?pk. length (snd pkt) = RX_DATA_LEN"
    using packet_reads(3) [OF buffer] by (auto simp: packets_of_def)
  obtain ls q where pl: "place_list ?fb (ants st) ?pk (locals st) (fpool st) = Inr (ls, q)" "same_blocks (locals st) ls" "blocks_ok ls q"
      "same_books (wdata ` set (locals st)) (fpool st) q"
    and k: "\<forall>k<N_FILE_BUFFERS_AT_A_TIME.
      nToFull (ls ! k) = nToFull (locals st ! k) - int (length (arrivals ?fb (ants st) (packetNo (locals st ! k)) ?pk)) \<and>
      (\<forall>cell. valid_cell ?fb cell \<longrightarrow> cell_at ?fb (bufData q ! wdata (locals st ! k)) cell =
        last_write ?fb (ants st) (packetNo (locals st ! k)) cell ?pk (cell_at ?fb (bufData (fpool st) ! wdata (locals st ! k)) cell))"
    using place_list_lemma [OF dims1 sorter_inv_blocks_ok [OF sorter(1)] sorter(2) payloads, of "ants st"] by blast
  define st1 where "st1 = set_fpool q (st\<lparr>locals := ls\<rparr>)"
  have sorted: "sort_buffer buf n st = Inr st1"
    using place_loop_list [OF buffer, of "[0..<n]"] pl(1) sorter(3)
    by (simp add: sort_buffer_def first_scan_def fpool_def st1_def packets_of_def)
  have fields: "locals st1 = ls" "fpool st1 = q" "moves st1 = moves st" "fbuf st1 = ?fb\<lparr>udpBuff := q\<rparr>"
    by (simp_all add: st1_def set_fpool_def fpool_def)
  then have lenq: "dataLenOut (fbuf st1) = ?len" "packetsPerBlock (fbuf st1) = packetsPerBlock ?fb"
    by (simp_all add: dataLenOut_def packetsPerBlock_def)
  have l1: "wdata (ls ! 0) = wdata ?l" "windex (ls ! 0) = int (wdata ?l)" "worder (ls ! 0) = 1"
    using pl(2) D(3) N L first(1) unfolding same_blocks_def by fastforce+
  have none_left: "nToFull (ls ! 0) = 0" using k N full by simp
  let ?i = "wdata ?l"
  have b: "orderNo q = orderNo (fpool st)" "NReady q = 0" "noBuffers q = noBuffers (fpool st)" "dataLen q = dataLen (fpool st)"
    "length (bufData q) = length (bufData (fpool st))"
    using pl(4) first(2) by (simp_all add: same_books_def)
  have q: "roomy FILE_BUFFER_SIZE q" "?i < noBuffers q" "orderNo q ! ?i = -1" "\<forall>j<noBuffers q. orderNo q ! j \<le> 0"
    using D(2) pl(3) b L first(3) by (simp_all add: roomy_def pool_wf_def blocks_ok_def)
  obtain p w where ret: "returnBuffer q (int ?i) 1 ?len = Inr p" and w: "file_thread_on ?fb name d results p = Inr w"
      "disk w = d(file_name name 0 \<mapsto> header_bytes ?fb @ take ?len (bufData q ! ?i))"
    and big: "?len \<le> length (bufData q ! ?i)" and v: "roomy FILE_BUFFER_SIZE (wpool w)" "?i < noBuffers (wpool w)" "orderNo (wpool w) ! ?i = 0"
    by (rule publish_first_block [OF dims1 dims(2) q(1-3) b(2) q(4) writer(2,3)])
  have r: "returnBuffer (fpool st1) (windex (locals st1 ! 0)) 1 (dataLenOut (fbuf st1)) = Inr p"
    using ret lenq(1) l1 by (simp add: fields)
  have "sorter_dims (fbuf st1)" "nToFull (locals st1 ! 0) = 0" "worder (locals st1 ! 0) = 1"
    "moves st1 = file_thread_move ?fb name d results # es" "file_thread_move ?fb name d results (held_except 0 (locals st1)) p = wpool w"
    using dims1 none_left l1 writer(1) w(1) by (simp_all add: fields sorter_dims_def dataLenOut_def packetsPerBlock_def file_thread_move_def)
  then obtain st2 where st2: "send_full_loop [0] 0 st1 = Inr (0, st2)"
    using send_first_block [OF _ _ _ _ _ v, of st1] r by metis
  obtain files where c: "converter_main eight (disk w) junk [prog, file_name name 0] = Some (Inr (Converted files))"
      "length files = unat (nAnts ?fb)"
    and content: "\<forall>a<unat (nAnts ?fb). \<exists>txt_name txt. files ! a = (txt_name, txt, out_name eight (name @ ''_0'') (antNumbers ?fb ! a) ''.bin'',
      concat (map (\<lambda>t. concat (map (\<lambda>j. unpacked eight (peek (j div unat (nchans ?fb) * 512) 512
        (cell_at ?fb (bufData q ! ?i) (t, a, j mod unat (nchans ?fb))))) [0..<16 * unat (nchans ?fb)])) [0..<128]))"
    using converter_on_block [OF dims1 dims big writer(4) _ alloc, of "disk w" eight prog] w(2) by auto
  have cells: "cell_at ?fb (bufData q ! ?i) (t, a, j mod unat (nchans ?fb)) =
      last_write ?fb (ants st) (packetNo ?l) (t, a, j mod unat (nchans ?fb)) ?pk
        (cell_at ?fb (bufData (fpool st) ! ?i) (t, a, j mod unat (nchans ?fb)))"
    if "t < 128" "a < unat (nAnts ?fb)" for t a j
  proof -
    have "0 < unat (nchans ?fb)" using dims1 by (simp add: sorter_dims_def)
    then have "valid_cell ?fb (t, a, j mod unat (nchans ?fb))" using that by (simp add: block_valid_def cconst)
    then show ?thesis using k N by blast
  qed
  have "concat (map (\<lambda>t. concat (map (\<lambda>j. unpacked eight (peek (j div unat (nchans ?fb) * 512) 512
        (cell_at ?fb (bufData q ! ?i) (t, a, j mod unat (nchans ?fb))))) [0..<16 * unat (nchans ?fb)])) [0..<128]) =
      concat (map (\<lambda>t. concat (map (\<lambda>j. unpacked eight (peek (j div unat (nchans ?fb) * 512) 512
        (last_write ?fb (ants st) (packetNo ?l) (t, a, j mod unat (nchans ?fb)) ?pk
          (cell_at ?fb (bufData (fpool st) ! ?i) (t, a, j mod unat (nchans ?fb)))))) [0..<16 * unat (nchans ?fb)])) [0..<128])"
    if "a < unat (nAnts ?fb)" for a
    by (intro arg_cong [where f = concat] map_cong refl) (use cells that in simp)
  with content have final: "\<forall>a<unat (nAnts ?fb). \<exists>txt_name txt. files ! a = (txt_name, txt, out_name eight (name @ ''_0'') (antNumbers ?fb ! a) ''.bin'',
      concat (map (\<lambda>t. concat (map (\<lambda>j. unpacked eight (peek (j div unat (nchans ?fb) * 512) 512
        (last_write ?fb (ants st) (packetNo ?l) (t, a, j mod unat (nchans ?fb)) ?pk
          (cell_at ?fb (bufData (fpool st) ! ?i) (t, a, j mod unat (nchans ?fb)))))) [0..<16 * unat (nchans ?fb)])) [0..<128]))"
    by simp
  show ?thesis
    by (intro exI conjI, rule sorted, rule st2, rule r, rule w(1), rule c(1), rule c(2), rule final)
qed

text \<open>The last packet missing in the first block, of antenna 3 and time slot 5.\<close>

definition last_packet :: "u8 list" where
  "last_packet = rev (le_bytes 8 (volt_header 193 5 7 3)) @ replicate 8192 9"

definition nearly_full :: worker where
  "nearly_full = example_worker\<lparr>locals := example_locals[0 := (example_locals ! 0)\<lparr>nToFull := 1\<rparr>],
     moves := [file_thread_move example_fb ''x'' Map.empty (header_results 3 example_fb @ [1048576])]\<rparr>"

lemma last_packet_read: "packets_of last_packet 1 = [(volt_header 193 5 7 3, replicate 8192 9)]"
  by (simp add: packets_of_def packet_at_def last_packet_def peek_def cconst be_word_def)

lemma nearly_full_inv: "sorter_inv nearly_full" "distinct (map packetNo (locals nearly_full))"
proof -
  have m: "map wdata (locals nearly_full) = map wdata (locals example_worker)"
    "map worder (locals nearly_full) = map worder (locals example_worker)"
    "map packetNo (locals nearly_full) = map packetNo (locals example_worker)"
    by (simp_all add: nearly_full_def example_worker_def map_update list_update_same_conv example_blocks(4))
  have f: "fbuf nearly_full = fbuf example_worker" "next_order nearly_full = next_order example_worker"
    by (simp_all add: nearly_full_def example_worker_def)
  have "\<forall>l\<in>set (locals nearly_full). \<exists>l'\<in>set (locals example_worker). windex l = windex l' \<and> wdata l = wdata l' \<and> worder l = worder l'"
    by (auto simp: nearly_full_def example_worker_def example_locals_def upt_six)
  then show "sorter_inv nearly_full"
    using example_worker_ok m f by (fastforce simp: worker_ok_def sorter_inv_def fpool_def nearly_full_def example_worker_def)
  show "distinct (map packetNo (locals nearly_full))"
    using m(3) example_blocks(3) by (simp add: example_worker_def)
qed

theorem recording_to_spectra_witness:
  "\<exists>st1 st2 (w :: file_writer) files. sort_buffer last_packet 1 nearly_full = Inr st1 \<and> send_full_loop [0] 0 st1 = Inr (0, st2) \<and>
    converter_main True (disk w) (\<lambda>m. replicate m 0) [''converter'', file_name ''x'' 0] = Some (Inr (Converted files)) \<and>
    length files = 1"
proof -
  let ?rs = "header_results 3 example_fb @ [1048576]"
  have f: "fbuf nearly_full = example_fb" "ants nearly_full = [3, -1, -1, -1]" "fpool nearly_full = udpBuff example_fb"
    "locals nearly_full ! 0 = (example_locals ! 0)\<lparr>nToFull := 1\<rparr>" "first_loop_done nearly_full"
    "moves nearly_full = [file_thread_move example_fb ''x'' Map.empty ?rs]"
    by (simp_all add: nearly_full_def example_worker_def fpool_def example_blocks(4))
  have "goes_to example_fb [3, -1, -1, -1] 0 (volt_header 193 5 7 3)" using example_accepts by (simp add: goes_to_def)
  then have full: "nToFull (locals nearly_full ! 0) =
      int (length (arrivals (fbuf nearly_full) (ants nearly_full) (packetNo (locals nearly_full ! 0)) (packets_of last_packet 1)))"
    unfolding f last_packet_read by (simp add: arrivals_def example_blocks(5))
  have n: "unat (nAnts (fbuf nearly_full)) < 4" "unat (nAnts (fbuf nearly_full)) \<le> length (antNumbers (fbuf nearly_full))"
    "1 * RX_MSG_LEN \<le> length last_packet" "length ''x'' < MAX_FILE" "(0 :: int) \<le> 3"
    by (simp_all add: f(1) example_fb_def last_packet_def cconst)
  have w: "worder (locals nearly_full ! 0) = 1" "NReady (fpool nearly_full) = 0"
    by (simp_all add: f example_locals_def upt_six example_fb_def)
  have o: "\<forall>j<noBuffers (fpool nearly_full). orderNo (fpool nearly_full) ! j \<le> 0"
    by (auto simp: f(3) example_fb_def nth_append)
  have rs: "?rs = header_results 3 (fbuf nearly_full) @ [int (dataLenOut (fbuf nearly_full))]"
    by (simp add: f(1) dataLenOut_def packetsPerBlock_def example_fb_def cconst)
  have mv: "moves nearly_full = file_thread_move (fbuf nearly_full) ''x'' Map.empty ?rs # []" by (simp only: f(1,6))
  have j: "\<forall>m. length (replicate m (0 :: u8)) = m" by simp
  from recording_to_spectra [OF nearly_full_inv f(5) n(1-3) full w o mv rs n(5,4) j, of True "''converter''"]
  have "\<exists>st1 st2 p (w :: file_writer) files. sort_buffer last_packet 1 nearly_full = Inr st1 \<and> send_full_loop [0] 0 st1 = Inr (0, st2) \<and>
    converter_main True (disk w) (\<lambda>m. replicate m 0) [''converter'', file_name ''x'' 0] = Some (Inr (Converted files)) \<and>
    length files = unat (nAnts (fbuf nearly_full))" by (elim exE conjE) (intro exI conjI)
  then show ?thesis by (simp add: f(1) example_fb_def)
qed

end
